(* ===== verification/Prelude.thy ===== *)
theory Prelude
  imports Main "HOL-Library.Word" "HOL-Library.Sublist" "HOL-Library.List_Lexorder"
    "HOL-Library.Char_ord"
begin

text \<open>
  Shared vocabulary of the development: the machine types of the Go program, the fact
  collections its component theories fill and use, and the generic lemmas on lists, options and
  words that more than one component needs.

  Go's \<open>uint64\<close> is \<open>64 word\<close>, with its wrap-around; \<open>int64\<close> counters that the program only
  adds to are words too, where the wrap-around can matter, and integers otherwise. A Go string
  and a byte slice are both a list of characters, one per byte. A Go \<open>time.Time\<close> is the number
  of nanoseconds since Go's zero time, and a \<open>time.Duration\<close> a number of nanoseconds.
\<close>

type_synonym u64 = "64 word"
type_synonym bytes = "char list"
type_synonym time = int
type_synonym duration = int

text \<open>
  \<open>text_simps\<close> collects the rewrite rules of the text library, \<open>percent_intros\<close> the bounds of
  the floating-point percentages, \<open>inv_intros\<close> the preservation facts of the state invariants,
  and \<open>step_defs\<close> the definitions that unfold one step of a stateful component.
\<close>

named_theorems text_simps
named_theorems percent_intros
named_theorems inv_intros
named_theorems step_defs

abbreviation second :: duration where
  "second \<equiv> 1000000000"

text \<open>\<^verbatim>\<open>Time.Sub\<close> and \<^verbatim>\<open>time.Since\<close> saturate at the ends of the \<open>int64\<close> range.\<close>

definition time_sub :: "time \<Rightarrow> time \<Rightarrow> duration" where
  "time_sub t u = max (- (2 ^ 63)) (min (2 ^ 63 - 1) (t - u))"

lemma time_sub_ge_iff: "0 < d \<Longrightarrow> d < 2 ^ 63 \<Longrightarrow> d \<le> time_sub t u \<longleftrightarrow> u + d \<le> t"
  by (auto simp: time_sub_def)

text \<open>A value of an error sum: \<open>Inl\<close> is the error, \<open>Inr\<close> the result.\<close>

abbreviation is_ok :: "'e + 'a \<Rightarrow> bool" where
  "is_ok r \<equiv> (case r of Inl _ \<Rightarrow> False | Inr _ \<Rightarrow> True)"

section \<open>Lists\<close>

lemma takeWhile_append_dropWhile_tl:
  "dropWhile P xs \<noteq> [] \<Longrightarrow> xs = takeWhile P xs @ hd (dropWhile P xs) # tl (dropWhile P xs)"
  by (metis hd_Cons_tl takeWhile_dropWhile_id)

lemma hd_dropWhile_neq:
  "c \<in> set xs \<Longrightarrow> dropWhile (\<lambda>x. x \<noteq> c) xs = c # tl (dropWhile (\<lambda>x. x \<noteq> c) xs)"
  by (induction xs) auto

lemma not_in_takeWhile_neq [simp]: "c \<notin> set (takeWhile (\<lambda>x. x \<noteq> c) xs)"
  by (induction xs) auto

lemma length_tl_dropWhile_less:
  "c \<in> set xs \<Longrightarrow> length (tl (dropWhile (\<lambda>x. x \<noteq> c) xs)) < length xs"
  by (induction xs) auto

lemma length_filter_le_map [simp]: "length (filter P (map f xs)) \<le> length xs"
  by (metis length_filter_le length_map)

lemma take_eq_imp_prefix: "take (length p) s = p \<Longrightarrow> prefix p s"
  by (metis take_is_prefix)

lemma prefix_iff_take: "prefix p s \<longleftrightarrow> take (length p) s = p"
  by (auto simp: prefix_def take_eq_imp_prefix intro: exI [of _ "drop (length p) s"]
      dest: sym [of "take (length p) s"]) (metis append_take_drop_id)

section \<open>Words\<close>

text \<open>The guarded subtraction pattern \<open>if a > b { d = a - b }\<close> of the Go code never wraps.\<close>

lemma unat_sub_guarded:
  fixes a b :: "'a::len word"
  shows "b < a \<Longrightarrow> unat (a - b) = unat a - unat b"
  by (simp add: unat_sub order_less_imp_le)

lemma unat_sub_le:
  fixes a b :: "'a::len word"
  shows "b \<le> a \<Longrightarrow> unat (a - b) = unat a - unat b"
  by (simp add: unat_sub)

lemma word_sub_pos:
  fixes a b :: "'a::len word"
  shows "0 < a - b \<longleftrightarrow> a \<noteq> b"
  by (auto simp: word_neq_0_conv [symmetric])

lemma unat_mult_no_wrap:
  fixes a b :: u64
  shows "unat a * unat b < 2 ^ 64 \<Longrightarrow> unat (a * b) = unat a * unat b"
  by (simp add: unat_word_ariths)

lemma unat_plus_no_wrap:
  fixes a b :: u64
  shows "unat a + unat b < 2 ^ 64 \<Longrightarrow> unat (a + b) = unat a + unat b"
  by (simp add: unat_word_ariths)

lemma unat_less_u64: "unat (a :: u64) < 18446744073709551616"
proof -
  have "unat a < 2 ^ LENGTH(64)" by (rule unsigned_less)
  then show ?thesis by simp
qed

end
