(* ===== verification/GoText.thy ===== *)
theory GoText
  imports Prelude
begin

text \<open>
  The parts of Go's standard library that the program uses on text: \<^verbatim>\<open>bytes.Split\<close>,
  \<^verbatim>\<open>bytes.Fields\<close>, \<^verbatim>\<open>bytes.Cut\<close>, \<^verbatim>\<open>bytes.TrimSpace\<close>, \<^verbatim>\<open>bytes.IndexByte\<close>,
  \<^verbatim>\<open>strings.ReplaceAll\<close>, \<^verbatim>\<open>strings.HasPrefix\<close>, \<^verbatim>\<open>strings.ContainsAny\<close>,
  \<^verbatim>\<open>strings.ToLower\<close>, \<^verbatim>\<open>strconv.ParseUint\<close> and \<^verbatim>\<open>utf8.DecodeRune\<close>, on byte lists.
\<close>

section \<open>Bytes and separators\<close>

abbreviation newline :: char where
  "newline \<equiv> CHR 0x0A"

abbreviation byte_nat :: "char \<Rightarrow> nat" where
  "byte_nat c \<equiv> of_char c"

fun Split :: "char \<Rightarrow> bytes \<Rightarrow> bytes list" where
  "Split sep [] = [[]]"
| "Split sep (c # cs) =
     (if c = sep then [] # Split sep cs
      else (c # hd (Split sep cs)) # tl (Split sep cs))"

fun Join :: "char \<Rightarrow> bytes list \<Rightarrow> bytes" where
  "Join sep [] = []"
| "Join sep [l] = l"
| "Join sep (l # ls) = l @ sep # Join sep ls"

text \<open>\<^verbatim>\<open>bytes.IndexByte\<close>, with \<open>None\<close> for Go's \<open>-1\<close>.\<close>

fun IndexByte :: "bytes \<Rightarrow> char \<Rightarrow> nat option" where
  "IndexByte [] c = None"
| "IndexByte (x # xs) c = (if x = c then Some 0 else map_option Suc (IndexByte xs c))"

text \<open>\<^verbatim>\<open>bytes.Cut\<close> around one separator byte: \<open>None\<close> when it does not occur.\<close>

definition Cut :: "char \<Rightarrow> bytes \<Rightarrow> (bytes \<times> bytes) option" where
  "Cut sep s =
     (case IndexByte s sep of None \<Rightarrow> None | Some i \<Rightarrow> Some (take i s, drop (Suc i) s))"

definition HasPrefix :: "bytes \<Rightarrow> bytes \<Rightarrow> bool" where
  "HasPrefix s p \<longleftrightarrow> take (length p) s = p"

definition TrimPrefix :: "bytes \<Rightarrow> bytes \<Rightarrow> bytes" where
  "TrimPrefix s p = (if HasPrefix s p then drop (length p) s else s)"

definition ContainsAny :: "bytes \<Rightarrow> bytes \<Rightarrow> bool" where
  "ContainsAny s chars \<longleftrightarrow> list_ex (\<lambda>c. c \<in> set chars) s"

text \<open>
  \<^verbatim>\<open>strings.ReplaceAll\<close>. The program calls it with a non-empty \<open>old\<close> only; with an empty
  one this model leaves the string alone, where Go would insert \<open>new\<close> between all runes.
\<close>

function ReplaceAll :: "bytes \<Rightarrow> bytes \<Rightarrow> bytes \<Rightarrow> bytes" where
  "ReplaceAll s old new =
     (if s = [] \<or> old = [] then s
      else if HasPrefix s old then new @ ReplaceAll (drop (length old) s) old new
      else hd s # ReplaceAll (tl s) old new)"
  by pat_completeness auto
termination
  by (relation "measure (\<lambda>(s, old, new). length s)") (auto simp: length_greater_0_conv)

declare ReplaceAll.simps [simp del]

section \<open>UTF-8 and white space\<close>

text \<open>
  \<^verbatim>\<open>utf8.DecodeRune\<close>: the rune at the head of a byte list and its width. An invalid
  encoding is the replacement rune \<open>0xFFFD\<close> of width one, an empty input one of width zero.
\<close>

definition RuneError :: nat where
  "RuneError = 0xFFFD"

definition in_range :: "nat \<Rightarrow> nat \<Rightarrow> nat \<Rightarrow> bool" where
  "in_range lo hi b \<longleftrightarrow> lo \<le> b \<and> b \<le> hi"

definition second_range :: "nat \<Rightarrow> nat \<times> nat" where
  "second_range b0 =
     (if b0 = 0xE0 then (0xA0, 0xBF) else if b0 = 0xED then (0x80, 0x9F)
      else if b0 = 0xF0 then (0x90, 0xBF) else if b0 = 0xF4 then (0x80, 0x8F)
      else (0x80, 0xBF))"

definition cont_at :: "bytes \<Rightarrow> nat \<Rightarrow> bool" where
  "cont_at s i \<longleftrightarrow> i < length s \<and> in_range 0x80 0xBF (byte_nat (s ! i))"

definition second_ok :: "bytes \<Rightarrow> bool" where
  "second_ok s \<longleftrightarrow> 1 < length s \<and>
     in_range (fst (second_range (byte_nat (hd s)))) (snd (second_range (byte_nat (hd s))))
       (byte_nat (s ! 1))"

definition DecodeRune :: "bytes \<Rightarrow> nat \<times> nat" where
  "DecodeRune s =
     (if s = [] then (RuneError, 0)
      else let b0 = byte_nat (hd s); b = (\<lambda>i. byte_nat (s ! i) mod 64) in
        if b0 < 0x80 then (b0, 1)
        else if in_range 0xC2 0xDF b0 \<and> second_ok s then (b0 mod 32 * 64 + b 1, 2)
        else if in_range 0xE0 0xEF b0 \<and> second_ok s \<and> cont_at s 2
          then (b0 mod 16 * 4096 + b 1 * 64 + b 2, 3)
        else if in_range 0xF0 0xF4 b0 \<and> second_ok s \<and> cont_at s 2 \<and> cont_at s 3
          then (b0 mod 8 * 262144 + b 1 * 4096 + b 2 * 64 + b 3, 4)
        else (RuneError, 1))"

definition is_space_rune :: "nat \<Rightarrow> bool" where
  "is_space_rune r \<longleftrightarrow> in_range 9 13 r \<or> r \<in> {32, 0x85, 0xA0, 0x1680, 0x2028, 0x2029, 0x202F, 0x205F, 0x3000}
     \<or> in_range 0x2000 0x200A r"

text \<open>The width of the space rune at the head of \<open>s\<close>, 0 when there is none.\<close>

definition space_width :: "bytes \<Rightarrow> nat" where
  "space_width s = (let (r, w) = DecodeRune s in if s \<noteq> [] \<and> is_space_rune r then w else 0)"

text \<open>The width of the rune at the head of a non-empty \<open>s\<close>: at least one byte.\<close>

definition rune_width :: "bytes \<Rightarrow> nat" where
  "rune_width s = snd (DecodeRune s)"

function fields_from :: "bytes \<Rightarrow> bytes \<Rightarrow> bytes list" where
  "fields_from field s =
     (if s = [] then (if field = [] then [] else [field])
      else if 0 < space_width s
        then (if field = [] then [] else [field]) @ fields_from [] (drop (max 1 (rune_width s)) s)
      else fields_from (field @ take (max 1 (rune_width s)) s) (drop (max 1 (rune_width s)) s))"
  by pat_completeness auto
termination
  by (relation "measure (\<lambda>(field, s). length s)") auto

declare fields_from.simps [simp del]

definition Fields :: "bytes \<Rightarrow> bytes list" where
  "Fields s = fields_from [] s"

text \<open>
  \<^verbatim>\<open>bytes.TrimSpace\<close>: space runes are dropped from both ends. The last rune of a byte list is
  a space exactly when one of its last three suffixes is a whole space rune.
\<close>

function trim_left :: "bytes \<Rightarrow> bytes" where
  "trim_left s = (if 0 < space_width s then trim_left (drop (max 1 (space_width s)) s) else s)"
  by pat_completeness auto
termination
  by (relation "measure length") (auto simp: space_width_def split: if_splits prod.splits)

declare trim_left.simps [simp del]

definition last_space :: "bytes \<Rightarrow> nat" where
  "last_space s =
     (let ok = (\<lambda>k. k \<le> length s \<and> space_width (drop (length s - k) s) = k)
      in if s = [] then 0 else if ok 1 then 1 else if ok 2 then 2 else if ok 3 then 3 else 0)"

function trim_right :: "bytes \<Rightarrow> bytes" where
  "trim_right s =
     (if s \<noteq> [] \<and> 0 < last_space s then trim_right (take (length s - last_space s) s) else s)"
  by pat_completeness auto
termination
  by (relation "measure length") auto

declare trim_right.simps [simp del]

definition TrimSpace :: "bytes \<Rightarrow> bytes" where
  "TrimSpace s = trim_right (trim_left s)"

text \<open>
  \<^verbatim>\<open>strings.ToLower\<close>, as far as comparing its result with an ASCII word goes: ASCII letters,
  and the two other runes Go lowers into ASCII, U+0130 (to i) and U+212A (to k). Every other
  rune outside ASCII stays outside ASCII in Go, and is left alone here.
\<close>

function ToLower :: "bytes \<Rightarrow> bytes" where
  "ToLower s =
     (if s = [] then []
      else if HasPrefix s [CHR 0xC4, CHR 0xB0] then CHR ''i'' # ToLower (drop 2 s)
      else if HasPrefix s [CHR 0xE2, CHR 0x84, CHR 0xAA] then CHR ''k'' # ToLower (drop 3 s)
      else (if in_range 65 90 (byte_nat (hd s)) then char_of (byte_nat (hd s) + 32) else hd s)
        # ToLower (tl s))"
  by pat_completeness auto
termination
  by (relation "measure length") (auto simp: length_greater_0_conv)

declare ToLower.simps [simp del]

section \<open>Numbers\<close>

datatype num_error = ErrSyntax | ErrRange

definition is_digit :: "char \<Rightarrow> bool" where
  "is_digit c \<longleftrightarrow> in_range 48 57 (byte_nat c)"

fun parse_digits :: "nat \<Rightarrow> bytes \<Rightarrow> num_error + nat" where
  "parse_digits n [] = Inr n"
| "parse_digits n (c # cs) =
     (if \<not> is_digit c then Inl ErrSyntax
      else if 18446744073709551615 < n * 10 + (byte_nat c - 48) then Inl ErrRange
      else parse_digits (n * 10 + (byte_nat c - 48)) cs)"

text \<open>\<^verbatim>\<open>strconv.ParseUint(s, 10, 64)\<close>\<close>

definition ParseUint :: "bytes \<Rightarrow> num_error + u64" where
  "ParseUint s =
     (if s = [] then Inl ErrSyntax else map_sum id of_nat (parse_digits 0 s))"

text \<open>Decimal digits of a number, as the kernel prints its counters.\<close>

fun show_nat :: "nat \<Rightarrow> bytes" where
  "show_nat n = (if n < 10 then [char_of (48 + n)] else show_nat (n div 10) @ [char_of (48 + n mod 10)])"

declare show_nat.simps [simp del]

section \<open>Lemmas\<close>

subsection \<open>Splitting and joining\<close>

lemma Split_not_Nil [simp]: "Split sep s \<noteq> []"
  by (induction s) auto

lemma Join_Split [simp]: "Join sep (Split sep s) = s"
proof (induction s)
  case (Cons c cs)
  obtain l ls where "Split sep cs = l # ls" by (cases "Split sep cs") auto
  with Cons show ?case by (cases ls) auto
qed simp

lemma sep_not_in_Split: "l \<in> set (Split sep s) \<Longrightarrow> sep \<notin> set l"
proof (induction s arbitrary: l)
  case (Cons c cs)
  then show ?case by (cases "Split sep cs") (auto split: if_splits)
qed simp

lemma Split_no_sep [text_simps]: "sep \<notin> set s \<Longrightarrow> Split sep s = [s]"
  by (induction s) auto

lemma Split_append_sep [text_simps]: "sep \<notin> set l \<Longrightarrow> Split sep (l @ sep # s) = l # Split sep s"
  by (induction l) auto

lemma Split_Join:
  "ls \<noteq> [] \<Longrightarrow> (\<And>l. l \<in> set ls \<Longrightarrow> sep \<notin> set l) \<Longrightarrow> Split sep (Join sep ls) = ls"
  by (induction sep ls rule: Join.induct) (auto simp: text_simps)

lemma IndexByte_None [simp]: "IndexByte s c = None \<longleftrightarrow> c \<notin> set s"
  by (induction s) auto

lemma IndexByte_Some:
  "IndexByte s c = Some i \<Longrightarrow> i < length s \<and> s = take i s @ c # drop (Suc i) s \<and> c \<notin> set (take i s)"
  by (induction s arbitrary: i) (auto split: if_splits)

lemma Cut_append [text_simps]: "c \<notin> set a \<Longrightarrow> Cut c (a @ c # b) = Some (a, b)"
proof -
  assume "c \<notin> set a"
  then have "IndexByte (a @ c # b) c = Some (length a)" by (induction a) auto
  then show ?thesis by (simp add: Cut_def)
qed

lemma Cut_None [text_simps]: "c \<notin> set s \<Longrightarrow> Cut c s = None"
  by (simp add: Cut_def IndexByte_None [THEN iffD2])

lemma HasPrefix_append [simp]: "HasPrefix (p @ s) p"
  by (simp add: HasPrefix_def)

lemma HasPrefix_iff: "HasPrefix s p \<longleftrightarrow> prefix p s"
  by (simp add: HasPrefix_def prefix_iff_take)

lemma HasPrefixE: "HasPrefix s p \<Longrightarrow> (\<And>r. s = p @ r \<Longrightarrow> P) \<Longrightarrow> P"
  by (auto simp: HasPrefix_iff prefix_def)

subsection \<open>Replacing\<close>

lemma ReplaceAll_Nil [simp]: "ReplaceAll [] old new = []"
  by (simp add: ReplaceAll.simps)

lemma ReplaceAll_one_byte: "ReplaceAll s [c] [] = filter (\<lambda>x. x \<noteq> c) s"
  by (induction s) (simp_all add: ReplaceAll.simps [of "_ # _"] HasPrefix_def)

lemma set_ReplaceAll_empty: "set (ReplaceAll s old []) \<subseteq> set s"
proof (induction s old "[] :: bytes" rule: ReplaceAll.induct)
  case (1 s old)
  show ?case
  proof (cases "s = [] \<or> old = []")
    case True
    then show ?thesis by (auto simp: ReplaceAll.simps)
  next
    case False
    then obtain c cs where s: "s = c # cs" by (cases s) auto
    show ?thesis
      using "1.hyps" False
      by (subst ReplaceAll.simps) (auto simp: s dest!: in_set_dropD subsetD)
  qed
qed

lemma ReplaceAll_absent:
  "old \<noteq> [] \<Longrightarrow> hd old \<notin> set s \<Longrightarrow> ReplaceAll s old new = s"
  by (induction s) (auto simp: ReplaceAll.simps [of "_ # _"] HasPrefix_def, (metis list.collapse list.sel(1) take_Cons' take_eq_Nil length_0_conv)?)

subsection \<open>White space\<close>

lemma space_width_ascii [text_simps]:
  "byte_nat c < 128 \<Longrightarrow> space_width (c # s) = (if is_space_rune (byte_nat c) then 1 else 0)"
  by (simp add: space_width_def DecodeRune_def)

lemma rune_width_ascii [text_simps]: "byte_nat c < 128 \<Longrightarrow> rune_width (c # s) = 1"
  by (simp add: rune_width_def DecodeRune_def)

text \<open>A byte of a printable token: ASCII and not white space.\<close>

definition token_byte :: "char \<Rightarrow> bool" where
  "token_byte c \<longleftrightarrow> byte_nat c < 128 \<and> \<not> is_space_rune (byte_nat c)"

lemma fields_from_token:
  "list_all token_byte t \<Longrightarrow> fields_from f (t @ s) = fields_from (f @ t) s"
proof (induction t arbitrary: f)
  case (Cons c t)
  then show ?case
    by (subst fields_from.simps) (simp add: token_byte_def text_simps)
qed simp

lemma fields_from_space:
  "byte_nat c < 128 \<Longrightarrow> is_space_rune (byte_nat c) \<Longrightarrow>
   fields_from f (c # s) = (if f = [] then [] else [f]) @ fields_from [] s"
  by (subst fields_from.simps) (simp add: text_simps)

lemma Fields_token_space:
  "list_all token_byte t \<Longrightarrow> t \<noteq> [] \<Longrightarrow> byte_nat c < 128 \<Longrightarrow> is_space_rune (byte_nat c) \<Longrightarrow>
   Fields (t @ c # s) = t # Fields s"
  by (simp add: Fields_def fields_from_token fields_from_space)

lemma Fields_Nil [simp]: "Fields [] = []"
  by (simp add: Fields_def fields_from.simps)

lemma Fields_token: "list_all token_byte t \<Longrightarrow> t \<noteq> [] \<Longrightarrow> Fields t = [t]"
  using fields_from_token [of t "[]" "[]"] by (simp add: Fields_def fields_from.simps [of t "[]"])

lemma Fields_space: "byte_nat c < 128 \<Longrightarrow> is_space_rune (byte_nat c) \<Longrightarrow> Fields (c # s) = Fields s"
  by (simp add: Fields_def fields_from_space)

lemma fields_from_nonempty: "[] \<notin> set (fields_from f s)"
proof (induction f s rule: fields_from.induct)
  case (1 f s)
  consider "s = []" | "s \<noteq> []" "0 < space_width s" | "s \<noteq> []" "\<not> 0 < space_width s" by blast
  then show ?case
  proof cases
    case 1
    then show ?thesis by (simp add: fields_from.simps)
  next
    case 2
    with "1.IH"(1) show ?thesis by (simp add: fields_from.simps [of f s])
  next
    case 3
    with "1.IH"(2) show ?thesis by (simp add: fields_from.simps [of f s])
  qed
qed

lemma Fields_nonempty: "[] \<notin> set (Fields s)"
  by (simp add: Fields_def fields_from_nonempty)

subsection \<open>Decimal numbers\<close>

lemma parse_digits_append:
  "parse_digits n (a @ b) = (case parse_digits n a of Inl e \<Rightarrow> Inl e | Inr m \<Rightarrow> parse_digits m b)"
  by (induction a arbitrary: n) auto

lemma is_digit_char_of: "d < 10 \<Longrightarrow> is_digit (char_of (48 + d)) \<and> byte_nat (char_of (48 + d)) = 48 + d"
  by (simp add: is_digit_def in_range_def)

lemma parse_digits_show_nat: "n \<le> 18446744073709551615 \<Longrightarrow> parse_digits 0 (show_nat n) = Inr n"
proof (induction n rule: show_nat.induct)
  case (1 n)
  show ?case
  proof (cases "n < 10")
    case True
    with is_digit_char_of [of n] show ?thesis by (simp add: show_nat.simps)
  next
    case False
    with 1 have IH: "parse_digits 0 (show_nat (n div 10)) = Inr (n div 10)" by simp
    have d: "n mod 10 < 10" by simp
    have "n div 10 * 10 + n mod 10 = n" by simp
    with False IH "1.prems" is_digit_char_of [OF d] show ?thesis
      by (subst show_nat.simps) (simp add: parse_digits_append)
  qed
qed

lemma show_nat_not_Nil [simp]: "show_nat n \<noteq> []"
  by (subst show_nat.simps) simp

lemma ParseUint_show_nat: "ParseUint (show_nat (unat w)) = Inr w"
  using unat_less_u64 [of w] by (simp add: ParseUint_def parse_digits_show_nat)

lemma ParseUint_digits: "ParseUint s = Inr w \<Longrightarrow> s \<noteq> [] \<and> list_all is_digit s"
proof -
  have "parse_digits n s = Inr m \<Longrightarrow> list_all is_digit s" for n m
    by (induction s arbitrary: n) (auto split: if_splits)
  then show "ParseUint s = Inr w \<Longrightarrow> ?thesis"
    by (cases "parse_digits 0 s") (auto simp: ParseUint_def split: if_splits)
qed

lemma list_all_digit_show_nat: "list_all is_digit (show_nat n)"
proof (induction n rule: show_nat.induct)
  case (1 n)
  then show ?case using is_digit_char_of [of n] is_digit_char_of [of "n mod 10"]
    by (subst show_nat.simps) auto
qed

lemma show_nat_token: "list_all token_byte (show_nat n)"
proof (induction n rule: show_nat.induct)
  case (1 n)
  have "token_byte (char_of (48 + d))" if "d < 10" for d :: nat
    using that by (auto simp: token_byte_def is_space_rune_def in_range_def)
  with 1 show ?case by (subst show_nat.simps) auto
qed

end
