(* ===== verification/Float64.thy ===== *)
theory Float64
  imports Complex_Main Prelude "HOL-Library.Log_Nat"
begin

text \<open>
  Go's \<open>float64\<close> as the program uses it. The percentages and rates it publishes are quotients and
  products of finite values, so a finite \<open>float64\<close> is a rational number and every operation is the
  exact one followed by \<open>rnd\<close>, IEEE 754 rounding to the nearest binary64 value, ties to even.
  The quotients stay far below the largest finite value, so overflow does not arise. A quotient by zero is infinite or
  not a number in Go and has no rational value: here it is \<open>undefined\<close>, of which nothing can be proved, so a theorem on a
  percentage or a rate also shows that its divisor is not zero. Values that
  the program only parses and passes on may also be infinite or not a number: type \<open>f64\<close>.

  The locale \<open>rounding\<close> is the interface of the rounding function to the metric theories: it is
  monotone and exact on small integers. What those theories need of percentages is proved in it,
  once, and \<open>rnd\<close> is its interpretation.
\<close>

section \<open>Rounding to binary64\<close>

text \<open>The exponent of a positive number to base \<open>b\<close>: the largest \<open>e\<close> with \<open>b powi e \<le> q\<close>.\<close>

definition base_exp :: "nat \<Rightarrow> rat \<Rightarrow> int" where
  "base_exp b q =
     (let (n, d) = quotient_of q;
          e = int (floorlog b (nat n)) - int (floorlog b (nat d))
      in if of_nat b powi e \<le> q then e else e - 1)"

definition binexp :: "rat \<Rightarrow> int" where
  "binexp q = base_exp 2 q"

definition ulp_exp :: "rat \<Rightarrow> int" where
  "ulp_exp q = max (binexp q - 52) (- 1074)"

definition round_half_even :: "rat \<Rightarrow> int" where
  "round_half_even x =
     (let f = \<lfloor>x\<rfloor>; r = x - of_int f
      in if r < 1 / 2 then f else if 1 / 2 < r then f + 1 else if even f then f else f + 1)"

definition rnd_pos :: "rat \<Rightarrow> rat" where
  "rnd_pos q = of_int (round_half_even (q / 2 powi (ulp_exp q))) * 2 powi (ulp_exp q)"

definition rnd :: "rat \<Rightarrow> rat" where
  "rnd q = (if q = 0 then 0 else if 0 < q then rnd_pos q else - rnd_pos (- q))"

section \<open>Operations of the program\<close>

text \<open>\<open>float64(w)\<close> of a \<open>uint64\<close>, and of an integer.\<close>

definition of_u64 :: "u64 \<Rightarrow> rat" where
  "of_u64 w = rnd (of_nat (unat w))"

definition of_i64 :: "int \<Rightarrow> rat" where
  "of_i64 i = rnd (of_int i)"

definition fdiv :: "rat \<Rightarrow> rat \<Rightarrow> rat" where
  "fdiv a b = (if b = 0 then undefined else rnd (a / b))"

definition fmul :: "rat \<Rightarrow> rat \<Rightarrow> rat" where
  "fmul a b = rnd (a * b)"

definition fadd :: "rat \<Rightarrow> rat \<Rightarrow> rat" where
  "fadd a b = rnd (a + b)"

text \<open>A parsed value: finite, infinite (the flag is its sign), or not a number.\<close>

datatype f64 = Fin rat | Inf bool | NaN

lemma fdiv_eq: "b \<noteq> 0 \<Longrightarrow> fdiv a b = rnd (a / b)"
  by (simp add: fdiv_def)

section \<open>The interface: monotone rounding, exact on small integers\<close>

locale rounding =
  fixes r :: "rat \<Rightarrow> rat"
  assumes mono: "p \<le> q \<Longrightarrow> r p \<le> r q"
    and exact_nat: "n \<le> 2 ^ 53 \<Longrightarrow> r (of_nat n) = of_nat n"
begin

lemma zero [simp]: "r 0 = 0"
  using exact_nat [of 0] by simp

lemma one [simp]: "r 1 = 1"
  using exact_nat [of 1] by simp

lemma hundred [simp]: "r 100 = 100"
  using exact_nat [of 100] by simp

lemma nonneg: "0 \<le> q \<Longrightarrow> 0 \<le> r q"
  using mono [of 0 q] by simp

lemma ge_one: "1 \<le> q \<Longrightarrow> 1 \<le> r q"
  using mono [of 1 q] by simp

lemma le_hundred: "q \<le> 100 \<Longrightarrow> r q \<le> 100"
  using mono [of q 100] by simp

lemma ratio_le_one:
  assumes "0 \<le> a" "a \<le> b" "1 \<le> b"
  shows "0 \<le> r (r a / r b) \<and> r (r a / r b) \<le> 1"
proof -
  have "0 \<le> r a" "r a \<le> r b" "1 \<le> r b"
    using assms by (auto intro: nonneg mono ge_one)
  then have "0 \<le> r a / r b" "r a / r b \<le> 1" by auto
  then show ?thesis using mono [of "r a / r b" 1] by (auto intro: nonneg)
qed

text \<open>The shape \<open>float64(a) / float64(b) * 100\<close>.\<close>

lemma share_percent:
  assumes "0 \<le> a" "a \<le> b" "1 \<le> b"
  shows "0 \<le> r (r (r a / r b) * 100) \<and> r (r (r a / r b) * 100) \<le> 100"
  using ratio_le_one [OF assms] by (auto intro!: nonneg le_hundred)

lemma full_percent: "1 \<le> b \<Longrightarrow> r (r (r b / r b) * 100) = 100"
  using ge_one [of b] by simp

text \<open>The shape \<open>100 * float64(a) / float64(b)\<close>, exact while \<open>100 * b\<close> fits the mantissa.\<close>

lemma scaled_percent:
  assumes "a \<le> b" "0 < b" "100 * b \<le> 2 ^ 53"
  shows "0 \<le> r (r (100 * r (of_nat a)) / r (of_nat b))
       \<and> r (r (100 * r (of_nat a)) / r (of_nat b)) \<le> 100"
proof -
  have ab: "r (of_nat a) = of_nat a" "r (of_nat b) = of_nat b"
    using assms by (auto intro!: exact_nat)
  have "r (of_nat (100 * a)) = of_nat (100 * a)"
    using assms by (intro exact_nat) simp
  then have a100: "r (100 * of_nat a) = 100 * of_nat a" by simp
  have "(of_nat a :: rat) \<le> of_nat b" "(0 :: rat) < of_nat b" using assms by simp_all
  then have "(0 :: rat) \<le> 100 * of_nat a / of_nat b" "(100 * of_nat a / of_nat b :: rat) \<le> 100"
    by (simp_all add: divide_le_eq)
  then show ?thesis using ab a100 by (simp add: nonneg le_hundred)
qed

end

section \<open>Correctness of the rounding function\<close>

lemma power_int_two_pos [simp]: "(0 :: rat) < 2 powi e"
  by simp

lemma powi_two_mono: "a \<le> b \<Longrightarrow> (2 :: rat) powi a \<le> 2 powi b"
  by (simp add: power_int_increasing)

lemma powi_two_add: "(2 :: rat) powi (a + b) = 2 powi a * 2 powi b"
  by (simp add: power_int_add)

lemma floorlog_rat_bounds:
  assumes "0 < n" "2 \<le> b"
  shows "(of_nat b :: rat) powi (int (floorlog b n) - 1) \<le> of_nat n \<and> (of_nat n :: rat) < of_nat b powi int (floorlog b n)"
proof -
  have bd: "b ^ (floorlog b n - 1) \<le> n \<and> n < b ^ floorlog b n"
    using floorlog_bounds [of n b] assms by simp
  have pos: "0 < floorlog b n" using assms by (simp add: floorlog_def)
  have "(of_nat b :: rat) powi (int (floorlog b n) - 1) = of_nat (b ^ (floorlog b n - 1))"
    using pos by (simp add: power_int_def nat_diff_distrib)
  moreover have "(of_nat b :: rat) powi int (floorlog b n) = of_nat (b ^ floorlog b n)"
    by (simp add: power_int_def)
  ultimately show ?thesis using bd by (metis of_nat_le_iff of_nat_less_iff)
qed

lemma base_exp_bounds:
  assumes "0 < q" "2 \<le> b"
  shows "of_nat b powi base_exp b q \<le> q \<and> q < of_nat b powi (base_exp b q + 1)"
proof -
  let ?b = "of_nat b :: rat"
  have add: "?b powi (i + j) = ?b powi i * ?b powi j" for i j using assms(2) by (simp add: power_int_add)
  have bpos: "0 < ?b powi i" for i using assms(2) by simp
  obtain n d where nd: "quotient_of q = (n, d)" by (cases "quotient_of q")
  have d: "0 < d" using nd by (rule quotient_of_denom_pos)
  have q: "q = of_int n / of_int d" using nd by (rule quotient_of_div)
  have n: "0 < n" using assms d by (simp add: q zero_less_divide_iff)
  define x where "x = int (floorlog b (nat n))"
  define y where "y = int (floorlog b (nat d))"
  have N: "?b powi (x - 1) \<le> of_int n" "(of_int n :: rat) < ?b powi x"
    using floorlog_rat_bounds [of "nat n"] n assms(2) by (simp_all add: x_def)
  have D: "?b powi (y - 1) \<le> of_int d" "(of_int d :: rat) < ?b powi y"
    using floorlog_rat_bounds [of "nat d"] d assms(2) by (simp_all add: y_def)
  have dpos: "(0 :: rat) < of_int d" using d by simp
  have up: "q < ?b powi (x - y + 1)"
  proof -
    have "?b powi (x - y + 1) * ?b powi (y - 1) \<le> ?b powi (x - y + 1) * of_int d"
      using D(1) bpos [of "x - y + 1"] by (intro mult_left_mono) simp_all
    also have "?b powi (x - y + 1) * ?b powi (y - 1) = ?b powi x" by (simp flip: add)
    finally show ?thesis using N(2) dpos by (simp add: q divide_less_eq)
  qed
  have lo: "?b powi (x - y - 1) \<le> q"
  proof -
    have "?b powi (x - y - 1) * of_int d \<le> ?b powi (x - y - 1) * ?b powi y"
      using D(2) bpos [of "x - y - 1"] by (intro mult_left_mono) simp_all
    also have "?b powi (x - y - 1) * ?b powi y = ?b powi (x - 1)" by (simp flip: add)
    finally show ?thesis using N(1) dpos by (simp add: q le_divide_eq)
  qed
  show ?thesis
    using up lo by (simp add: base_exp_def nd Let_def flip: x_def y_def)
qed

lemma binexp_bounds: "0 < q \<Longrightarrow> 2 powi binexp q \<le> q \<and> q < 2 powi (binexp q + 1)"
  using base_exp_bounds [of q 2] by (simp add: binexp_def)

lemma binexp_mono: "0 < p \<Longrightarrow> p \<le> q \<Longrightarrow> binexp p \<le> binexp q"
proof (rule ccontr)
  assume "0 < p" "p \<le> q" "\<not> binexp p \<le> binexp q"
  then have "2 powi (binexp q + 1) \<le> (2 :: rat) powi binexp p"
    by (intro powi_two_mono) simp
  with \<open>0 < p\<close> \<open>p \<le> q\<close> binexp_bounds [of p] binexp_bounds [of q] show False by simp
qed

lemma round_half_even_of_int [simp]: "round_half_even (of_int i) = i"
  by (simp add: round_half_even_def)

lemma round_half_even_mono:
  assumes "x \<le> y"
  shows "round_half_even x \<le> round_half_even y"
proof (cases "\<lfloor>x\<rfloor> = \<lfloor>y\<rfloor>")
  case True
  with assms show ?thesis by (auto simp: round_half_even_def Let_def)
next
  case False
  then have "\<lfloor>x\<rfloor> + 1 \<le> \<lfloor>y\<rfloor>" using floor_mono [OF assms] by simp
  moreover have "round_half_even x \<le> \<lfloor>x\<rfloor> + 1" "\<lfloor>y\<rfloor> \<le> round_half_even y"
    by (auto simp: round_half_even_def Let_def)
  ultimately show ?thesis by simp
qed

text \<open>A power of two at least as large as the unit in the last place is representable.\<close>

lemma powi_div_ulp_int:
  assumes "u \<le> e"
  shows "\<exists>i. (2 :: rat) powi e = of_int i * 2 powi u"
proof -
  have "(2 :: rat) powi (e - u) = of_int (2 ^ nat (e - u))"
    using assms by (simp add: power_int_def)
  then have "(2 :: rat) powi e = of_int (2 ^ nat (e - u)) * 2 powi u"
    using powi_two_add [of "e - u" u] by simp
  then show ?thesis by blast
qed

lemma rnd_pos_le:
  assumes "q \<le> of_int k * 2 powi ulp_exp q"
  shows "rnd_pos q \<le> of_int k * 2 powi ulp_exp q"
proof -
  have "q / 2 powi ulp_exp q \<le> of_int k" using assms by (simp add: divide_le_eq)
  then have "round_half_even (q / 2 powi ulp_exp q) \<le> k"
    using round_half_even_mono by fastforce
  then show ?thesis by (simp add: rnd_pos_def)
qed

lemma rnd_pos_ge:
  assumes "of_int k * 2 powi ulp_exp q \<le> q"
  shows "of_int k * 2 powi ulp_exp q \<le> rnd_pos q"
proof -
  have "of_int k \<le> q / 2 powi ulp_exp q" using assms by (simp add: le_divide_eq)
  then have "k \<le> round_half_even (q / 2 powi ulp_exp q)"
    using round_half_even_mono by fastforce
  then show ?thesis by (simp add: rnd_pos_def)
qed

lemma rnd_pos_exact: "q = of_int k * 2 powi ulp_exp q \<Longrightarrow> rnd_pos q = q"
  using rnd_pos_le [of q k] rnd_pos_ge [of k q] by simp

lemma ulp_exp_mono: "0 < p \<Longrightarrow> p \<le> q \<Longrightarrow> ulp_exp p \<le> ulp_exp q"
  using binexp_mono [of p q] by (simp add: ulp_exp_def)

lemma rnd_pos_nonneg: "0 < q \<Longrightarrow> 0 \<le> rnd_pos q"
  using rnd_pos_ge [of 0 q] by simp

text \<open>
  Where the two units in the last place agree, rounding is monotone because rounding to integers
  is; where they differ, the power of two at the larger exponent separates the results.
\<close>

lemma rnd_pos_mono:
  assumes "0 < p" "p \<le> q"
  shows "rnd_pos p \<le> rnd_pos q"
proof (cases "ulp_exp p = ulp_exp q")
  case True
  with assms have "round_half_even (p / 2 powi ulp_exp p) \<le> round_half_even (q / 2 powi ulp_exp q)"
    by (simp add: round_half_even_mono divide_right_mono)
  with True show ?thesis by (simp add: rnd_pos_def)
next
  case False
  with ulp_exp_mono [OF assms] have lt: "ulp_exp p < ulp_exp q" by simp
  then have uq: "ulp_exp q = binexp q - 52" and pq: "binexp p < binexp q"
    by (auto simp: ulp_exp_def)
  let ?X = "(2 :: rat) powi binexp q"
  obtain i where i: "?X = of_int i * 2 powi ulp_exp p"
    using powi_div_ulp_int [of "ulp_exp p" "binexp q"] lt uq by auto
  obtain j where j: "?X = of_int j * 2 powi ulp_exp q"
    using powi_div_ulp_int [of "ulp_exp q" "binexp q"] uq by auto
  have "p \<le> ?X"
    using binexp_bounds [OF assms(1)] powi_two_mono [of "binexp p + 1" "binexp q"] pq by simp
  then have "rnd_pos p \<le> ?X" using rnd_pos_le [of p i] i by simp
  moreover have "?X \<le> q" using binexp_bounds [of q] assms by simp
  then have "?X \<le> rnd_pos q" using rnd_pos_ge [of j q] j by simp
  ultimately show ?thesis by simp
qed

lemma rnd_mono: "p \<le> q \<Longrightarrow> rnd p \<le> rnd q"
  using rnd_pos_mono [of p q] rnd_pos_mono [of "- q" "- p"] rnd_pos_nonneg [of q] rnd_pos_nonneg [of "- p"]
  by (auto simp: rnd_def)

lemma binexp_powi: "binexp (2 powi e) = e"
proof -
  have b: "2 powi binexp (2 powi e) \<le> (2 :: rat) powi e" "(2 :: rat) powi e < 2 powi (binexp (2 powi e) + 1)"
    using binexp_bounds [of "2 powi e"] by simp_all
  have "(2 :: rat) powi e < 2 powi (e + 1)" by (simp add: powi_two_add)
  then have "binexp (2 powi e) \<le> e"
    using b(1) powi_two_mono [of "e + 1" "binexp (2 powi e)"] by (meson leD le_less_trans not_less zless_imp_add1_zle)
  moreover have "e < binexp (2 powi e) + 1"
    using b(2) powi_two_mono [of "binexp (2 powi e) + 1" e] by fastforce
  ultimately show ?thesis by simp
qed

lemma rnd_powi: "- 1074 \<le> e \<Longrightarrow> rnd (2 powi e) = 2 powi e"
proof -
  assume "- 1074 \<le> e"
  then have u: "ulp_exp (2 powi e) \<le> e" by (simp add: ulp_exp_def binexp_powi)
  obtain i where "(2 :: rat) powi e = of_int i * 2 powi ulp_exp (2 powi e)"
    using powi_div_ulp_int [OF u] by auto
  then have "rnd_pos (2 powi e) = 2 powi e" by (rule rnd_pos_exact)
  then show ?thesis by (simp add: rnd_def)
qed

lemma rnd_exact_nat:
  assumes "n \<le> 2 ^ 53"
  shows "rnd (of_nat n) = of_nat n"
proof (cases "n = 0 \<or> n = 2 ^ 53")
  case True
  then show ?thesis using rnd_powi [of 53] by (auto simp: rnd_def)
next
  case False
  let ?q = "of_nat n :: rat"
  have pos: "0 < ?q" using False by simp
  have "n < 2 ^ 53" using False assms by simp
  then have "?q < of_nat (2 ^ 53)" by (simp only: of_nat_less_iff)
  then have "2 powi binexp ?q < (2 :: rat) powi 53"
    using binexp_bounds [OF pos] by simp
  then have "binexp ?q < 53" using powi_two_mono [of 53 "binexp ?q"] by fastforce
  then have u: "ulp_exp ?q \<le> 0" by (simp add: ulp_exp_def)
  obtain i where "(2 :: rat) powi 0 = of_int i * 2 powi ulp_exp ?q"
    using powi_div_ulp_int [OF u] by auto
  then have "?q = of_int (int n * i) * 2 powi ulp_exp ?q" by simp
  then have "rnd_pos ?q = ?q" by (rule rnd_pos_exact)
  then show ?thesis using pos by (simp add: rnd_def)
qed

text \<open>Rounding a \<open>float64\<close> value changes nothing: what \<open>rnd\<close> gives is representable.\<close>

lemma rnd_pos_idem:
  assumes "0 < q" "0 < rnd_pos q"
  shows "rnd_pos (rnd_pos q) = rnd_pos q"
proof -
  let ?p = "rnd_pos q" and ?u = "ulp_exp q"
  define k where "k = round_half_even (q / 2 powi ?u)"
  have p: "?p = of_int k * 2 powi ?u" by (simp add: rnd_pos_def k_def)
  have k: "1 \<le> k" using assms(2) p power_int_two_pos [of ?u] by (auto simp: zero_less_mult_iff)
  then have pu: "2 powi ?u \<le> ?p" unfolding p by simp
  have u: "- 1074 \<le> ?u" by (simp add: ulp_exp_def)
  show ?thesis
  proof (cases "binexp ?p \<le> binexp q")
    case True
    then have le: "ulp_exp ?p \<le> ?u" by (simp add: ulp_exp_def)
    obtain i where "(2 :: rat) powi ?u = of_int i * 2 powi ulp_exp ?p" using powi_div_ulp_int [OF le] by auto
    then have "?p = of_int (k * i) * 2 powi ulp_exp ?p" using p by simp
    then show ?thesis by (rule rnd_pos_exact)
  next
    case False
    let ?X = "(2 :: rat) powi (binexp q + 1)"
    have X: "?X \<le> ?p" using binexp_bounds [OF assms(2)] powi_two_mono [of "binexp q + 1" "binexp ?p"] False by simp
    have ule: "?u \<le> binexp q + 1"
    proof (rule ccontr)
      assume "\<not> ?u \<le> binexp q + 1"
      then have "?X \<le> 2 powi (?u - 1)" by (intro powi_two_mono) simp
      then have "q < 2 powi (?u - 1)" using binexp_bounds [OF assms(1)] by simp
      moreover have "2 powi ?u = 2 * (2 :: rat) powi (?u - 1)" by (simp add: power_int_diff)
      ultimately have "q / 2 powi ?u < 1 / 2" by (simp add: divide_less_eq)
      moreover have "0 \<le> q / 2 powi ?u" using assms(1) by simp
      ultimately have "\<lfloor>q / 2 powi ?u\<rfloor> = 0" by linarith
      then have "k = 0" using \<open>q / 2 powi ?u < 1 / 2\<close> by (simp add: k_def round_half_even_def Let_def)
      then show False using k by simp
    qed
    obtain i where "?X = of_int i * 2 powi ?u" using powi_div_ulp_int [OF ule] by auto
    then have "?p \<le> ?X" using rnd_pos_le [of q i] binexp_bounds [OF assms(1)] by simp
    then have "?p = ?X" using X by simp
    moreover have "rnd ?X = ?X" using ule u by (intro rnd_powi) simp
    ultimately show ?thesis by (simp add: rnd_def)
  qed
qed

lemma rnd_minus: "rnd (- q) = - rnd q"
  by (simp add: rnd_def)

lemma rnd_idem_pos: "0 < q \<Longrightarrow> rnd (rnd q) = rnd q"
  using rnd_pos_nonneg [of q] rnd_pos_idem [of q] by (cases "rnd_pos q = 0") (simp_all add: rnd_def)

lemma rnd_idem [simp]: "rnd (rnd q) = rnd q"
proof (cases "q < 0")
  case True
  then have "rnd (rnd (- q)) = rnd (- q)" by (intro rnd_idem_pos) simp
  then show ?thesis by (simp add: rnd_minus)
next
  case False
  then show ?thesis using rnd_idem_pos [of q] by (cases "q = 0") (auto simp: rnd_def)
qed

interpretation binary64: rounding rnd
  by unfold_locales (auto intro: rnd_mono rnd_exact_nat)

lemma rnd_pos_value: "2 powi e \<le> q \<Longrightarrow> - 1074 \<le> e \<Longrightarrow> 0 < rnd q"
  using rnd_mono [of "2 powi e" q] rnd_powi [of e] power_int_two_pos [of e] by linarith

section \<open>Percentages of machine words\<close>

text \<open>The expression \<open>float64(a) / float64(b) * 100\<close> of the program.\<close>

definition percent_of :: "u64 \<Rightarrow> u64 \<Rightarrow> rat" where
  "percent_of a b = fmul (fdiv (of_u64 a) (of_u64 b)) 100"

lemma one_le_of_u64: "0 < b \<Longrightarrow> (1 :: rat) \<le> of_nat (unat (b :: u64))"
proof -
  assume "0 < b"
  then have "1 \<le> unat b" by (simp add: word_less_nat_alt)
  then have "(of_nat 1 :: rat) \<le> of_nat (unat b)" by (simp only: of_nat_le_iff)
  then show ?thesis by simp
qed

lemma of_nat_unat_mono: "a \<le> b \<Longrightarrow> (of_nat (unat (a :: u64)) :: rat) \<le> of_nat (unat b)"
  by (simp only: of_nat_le_iff word_le_nat_alt)

lemma of_u64_nonneg [simp]: "0 \<le> of_u64 w"
  by (simp only: of_u64_def binary64.nonneg of_nat_0_le_iff)

lemma of_u64_ge_one: "0 < b \<Longrightarrow> 1 \<le> of_u64 b"
  unfolding of_u64_def by (rule binary64.ge_one [OF one_le_of_u64])

lemma of_u64_neq_0: "0 < b \<Longrightarrow> of_u64 b \<noteq> 0"
  using of_u64_ge_one [of b] by simp

lemma percent_of_eq: "0 < b \<Longrightarrow> percent_of a b = rnd (rnd (of_u64 a / of_u64 b) * 100)"
  by (simp add: percent_of_def fmul_def fdiv_eq of_u64_neq_0)

lemma percent_of_bounds [percent_intros]:
  assumes "a \<le> b" "0 < b"
  shows "0 \<le> percent_of a b \<and> percent_of a b \<le> 100"
  unfolding percent_of_eq [OF assms(2)] of_u64_def
  by (rule binary64.share_percent [OF of_nat_0_le_iff of_nat_unat_mono [OF assms(1)] one_le_of_u64 [OF assms(2)]])

lemma percent_of_full: "0 < b \<Longrightarrow> percent_of b b = 100"
  using binary64.full_percent [OF one_le_of_u64, of b] by (simp add: percent_of_eq of_u64_def)

lemma percent_of_nonneg: "0 < b \<Longrightarrow> 0 \<le> percent_of a b"
  by (simp add: percent_of_eq binary64.nonneg)

lemma percent_of_eq_0:
  assumes "0 < b"
  shows "percent_of a b = 0 \<longleftrightarrow> a = 0"
proof (cases "a = 0")
  case False
  then have a: "1 \<le> of_u64 a" by (intro of_u64_ge_one) (simp add: word_neq_0_conv)
  have "unat b \<le> 2 ^ 64" using unsigned_less [of b, where 'a = nat] by simp
  then have "(of_nat (unat b) :: rat) \<le> of_nat (2 ^ 64)" by (simp only: of_nat_le_iff)
  then have "of_u64 b \<le> rnd (of_nat (2 ^ 64))" unfolding of_u64_def by (rule rnd_mono)
  then have b: "of_u64 b \<le> 2 ^ 64" using rnd_powi [of 64] by simp
  have "2 powi (- 64) \<le> 1 / of_u64 b" using b of_u64_ge_one [OF assms] by (simp add: power_int_minus field_simps)
  also have "\<dots> \<le> of_u64 a / of_u64 b" using a of_u64_ge_one [OF assms] by (intro divide_right_mono) simp_all
  finally have q: "2 powi (- 64) \<le> rnd (of_u64 a / of_u64 b)"
    using rnd_mono rnd_powi [of "- 64"] by fastforce
  then have "2 powi (- 64) \<le> rnd (of_u64 a / of_u64 b) * 100" using power_int_two_pos [of "- 64"] by linarith
  then have "0 < percent_of a b" unfolding percent_of_eq [OF assms] by (rule rnd_pos_value) simp
  then show ?thesis using False by simp
qed (use assms in \<open>simp add: percent_of_eq, simp add: of_u64_def\<close>)

lemma percent_of_zero [simp]: "0 < b \<Longrightarrow> percent_of 0 b = 0"
  by (simp add: percent_of_eq, simp add: of_u64_def)

end
