(* ===== verification/GoNumber.thy ===== *)
theory GoNumber
  imports GoText Float64
begin

text \<open>
  \<^verbatim>\<open>strconv.ParseFloat(s, 64)\<close> and the conversion of a \<open>float64\<close> to \<open>int64\<close>. Every well-formed decimal or
  hexadecimal number is read exactly and rounded once; one that rounds beyond the largest finite
  value is a range error, and infinities and NaN are read from their names. The sign of a zero is
  not kept.
\<close>

abbreviation lower_byte :: "char \<Rightarrow> nat" where
  "lower_byte c \<equiv> (if in_range 65 90 (byte_nat c) then byte_nat c + 32 else byte_nat c)"

definition is_hex_letter :: "char \<Rightarrow> bool" where
  "is_hex_letter c \<longleftrightarrow> in_range 97 102 (lower_byte c)"

definition digit_value :: "char \<Rightarrow> nat" where
  "digit_value c = (if is_digit c then byte_nat c - 48 else lower_byte c - 87)"

record mantissa =
  m_value :: nat
  m_frac :: nat
  m_dot :: bool
  m_digits :: bool

text \<open>The digits, at most one point, and underscores; what follows is returned.\<close>

fun read_mantissa :: "bool \<Rightarrow> bytes \<Rightarrow> mantissa \<Rightarrow> mantissa \<times> bytes" where
  "read_mantissa hex [] m = (m, [])"
| "read_mantissa hex (c # cs) m =
     (if c = CHR ''_'' then read_mantissa hex cs m
      else if c = CHR ''.''
        then (if m_dot m then (m, c # cs) else read_mantissa hex cs (m\<lparr>m_dot := True\<rparr>))
      else if is_digit c \<or> (hex \<and> is_hex_letter c)
        then read_mantissa hex cs
               (m\<lparr>m_value := m_value m * (if hex then 16 else 10) + digit_value c,
                  m_frac := (if m_dot m then Suc (m_frac m) else m_frac m), m_digits := True\<rparr>)
      else (m, c # cs))"

text \<open>The digits of an exponent, which stops growing at five digits.\<close>

fun read_exponent :: "bytes \<Rightarrow> nat \<Rightarrow> nat \<times> bytes" where
  "read_exponent [] e = (e, [])"
| "read_exponent (c # cs) e =
     (if c = CHR ''_'' then read_exponent cs e
      else if is_digit c then read_exponent cs (if e < 10000 then e * 10 + digit_value c else e)
      else (e, c # cs))"

fun read_sign :: "bytes \<Rightarrow> bool \<times> bytes" where
  "read_sign [] = (False, [])"
| "read_sign (c # cs) =
     (if c = CHR ''+'' then (False, cs) else if c = CHR ''-'' then (True, cs) else (False, c # cs))"

text \<open>An optional exponent part; \<open>None\<close> when it is malformed, or missing on a hexadecimal number.\<close>

definition read_exp_part :: "bool \<Rightarrow> bytes \<Rightarrow> (int \<times> bytes) option" where
  "read_exp_part hex s =
     (if s \<noteq> [] \<and> lower_byte (hd s) = (if hex then 112 else 101)
      then (case read_sign (tl s) of
              (neg, s) \<Rightarrow>
                if s = [] \<or> \<not> is_digit (hd s) then None
                else (case read_exponent s 0 of (e, s) \<Rightarrow> Some (if neg then - int e else int e, s)))
      else if hex then None else Some (0, s))"

fun underscores_from :: "bool \<Rightarrow> char \<Rightarrow> bytes \<Rightarrow> bool" where
  "underscores_from hex saw [] = (saw \<noteq> CHR ''_'')"
| "underscores_from hex saw (c # cs) =
     (if is_digit c \<or> (hex \<and> is_hex_letter c) then underscores_from hex CHR ''0'' cs
      else if c = CHR ''_'' then saw = CHR ''0'' \<and> underscores_from hex CHR ''_'' cs
      else saw \<noteq> CHR ''_'' \<and> underscores_from hex CHR ''!'' cs)"

definition underscoreOK :: "bytes \<Rightarrow> bool" where
  "underscoreOK s =
     (let s = snd (read_sign s)
      in if 2 \<le> length s \<and> s ! 0 = CHR ''0'' \<and> lower_byte (s ! 1) \<in> {98, 111, 120}
         then underscores_from (lower_byte (s ! 1) = 120) CHR ''0'' (drop 2 s)
         else underscores_from False CHR ''^'' s)"

definition special_float :: "bytes \<Rightarrow> f64 option" where
  "special_float s =
     (let (neg, r) = read_sign s; l = map lower_byte r
      in if l = map byte_nat ''inf'' \<or> l = map byte_nat ''infinity'' then Some (Inf neg)
         else if map lower_byte s = map byte_nat ''nan'' then Some NaN else None)"

definition read_float :: "bytes \<Rightarrow> rat option" where
  "read_float s0 =
     (let (neg, s) = read_sign s0;
          hex = (2 < length s \<and> s ! 0 = CHR ''0'' \<and> lower_byte (s ! 1) = 120);
          (m, s) = read_mantissa hex (if hex then drop 2 s else s)
                     \<lparr>m_value = 0, m_frac = 0, m_dot = False, m_digits = False\<rparr>
      in if \<not> m_digits m then None
         else case read_exp_part hex s of
           Some (e, []) \<Rightarrow>
             if CHR ''_'' \<in> set s0 \<and> \<not> underscoreOK s0 then None
             else let v = of_nat (m_value m) *
                        (if hex then 2 powi (e - 4 * int (m_frac m)) else 10 powi (e - int (m_frac m)))
                  in Some (if neg then - v else v)
         | _ \<Rightarrow> None)"

definition ParseFloat :: "bytes \<Rightarrow> num_error + f64" where
  "ParseFloat s =
     (case special_float s of
        Some f \<Rightarrow> Inr f
      | None \<Rightarrow>
          (case read_float s of
             None \<Rightarrow> Inl ErrSyntax
           | Some q \<Rightarrow> if 2 ^ 1024 \<le> \<bar>rnd q\<bar> then Inl ErrRange else Inr (Fin (rnd q))))"

text \<open>
  \<^verbatim>\<open>int64(f)\<close> truncates towards zero. Go leaves what does not fit to the machine; on amd64 the
  result is then the smallest \<open>int64\<close>.
\<close>

definition f64_to_int64 :: "f64 \<Rightarrow> int" where
  "f64_to_int64 f =
     (case f of
        Fin q \<Rightarrow>
          let i = (if q < 0 then \<lceil>q\<rceil> else \<lfloor>q\<rfloor>)
          in if - (2 ^ 63) \<le> i \<and> i < 2 ^ 63 then i else - (2 ^ 63)
      | _ \<Rightarrow> - (2 ^ 63))"

section \<open>Reading digits\<close>

lemma read_mantissa_digits:
  "list_all is_digit ds \<Longrightarrow> ds \<noteq> [] \<Longrightarrow> \<not> m_dot m \<Longrightarrow>
   read_mantissa False (ds @ s) m
     = read_mantissa False s (m\<lparr>m_value := foldl (\<lambda>n c. n * 10 + digit_value c) (m_value m) ds, m_digits := True\<rparr>)"
proof (induction ds arbitrary: m)
  case (Cons c ds)
  have c: "c \<noteq> CHR ''_''" "c \<noteq> CHR ''.''" "is_digit c"
    using Cons.prems(1) by (auto simp: is_digit_def in_range_def)
  show ?case
    using Cons.IH [of "m\<lparr>m_value := m_value m * 10 + digit_value c, m_digits := True\<rparr>"] Cons.prems c
    by (cases "ds = []") simp_all
qed simp

lemma digit_value_char_of: "d < 10 \<Longrightarrow> digit_value (char_of (48 + d)) = d"
  using is_digit_char_of [of d] by (simp add: digit_value_def)

lemma foldl_show_nat: "foldl (\<lambda>n c. n * 10 + digit_value c) 0 (show_nat n) = n"
proof (induction n rule: show_nat.induct)
  case (1 n)
  then show ?case using digit_value_char_of [of n] digit_value_char_of [of "n mod 10"]
    by (subst show_nat.simps) (auto simp: div_mult_mod_eq)
qed

lemma digit_not_letter:
  assumes "is_digit c"
  shows "lower_byte c = byte_nat c" "c \<noteq> CHR ''+''" "c \<noteq> CHR ''-''" "c \<noteq> CHR ''_''" "c \<noteq> CHR ''.''"
    "48 \<le> byte_nat c" "byte_nat c \<le> 57"
  using assms by (auto simp: is_digit_def in_range_def)

lemma show_nat_head: "\<exists>c ds. show_nat a = c # ds \<and> is_digit c \<and> list_all is_digit ds"
  using list_all_digit_show_nat [of a] by (cases "show_nat a") simp_all

section \<open>Decimal numbers\<close>

definition exp_part :: "int option \<Rightarrow> bytes" where
  "exp_part x = (case x of None \<Rightarrow> [] | Some e \<Rightarrow> ''e'' @ (if e < 0 then ''-'' else ''+'') @ show_nat (nat \<bar>e\<bar>))"

definition decimal :: "bytes \<Rightarrow> bytes \<Rightarrow> int option \<Rightarrow> bytes" where
  "decimal a f x = a @ (if f = [] then [] else CHR ''.'' # f) @ exp_part x"

abbreviation digits_value :: "nat \<Rightarrow> bytes \<Rightarrow> nat" where
  "digits_value \<equiv> foldl (\<lambda>n c. n * 10 + digit_value c)"

lemma digits_value_ge: "n \<le> digits_value n ds"
proof (induction ds arbitrary: n)
  case (Cons c ds)
  show ?case using Cons.IH [of "n * 10 + digit_value c"] by simp
qed simp

lemma digits_value_append: "digits_value n (a @ f) = digits_value (digits_value n a) f"
  by simp

lemma read_mantissa_frac:
  "list_all is_digit ds \<Longrightarrow> ds \<noteq> [] \<Longrightarrow> m_dot m \<Longrightarrow>
   read_mantissa False (ds @ s) m
     = read_mantissa False s (m\<lparr>m_value := digits_value (m_value m) ds, m_frac := m_frac m + length ds, m_digits := True\<rparr>)"
proof (induction ds arbitrary: m)
  case (Cons c ds)
  have c: "c \<noteq> CHR ''_''" "c \<noteq> CHR ''.''" "is_digit c"
    using Cons.prems(1) by (auto simp: is_digit_def in_range_def)
  show ?case
    using Cons.IH [of "m\<lparr>m_value := m_value m * 10 + digit_value c, m_frac := Suc (m_frac m), m_digits := True\<rparr>"] Cons.prems c
    by (cases "ds = []") simp_all
qed simp

lemma read_exponent_digits: "list_all is_digit ds \<Longrightarrow> digits_value e ds < 100000 \<Longrightarrow> read_exponent ds e = (digits_value e ds, [])"
proof (induction ds arbitrary: e)
  case (Cons c ds)
  have "e * 10 + digit_value c < 100000" using Cons.prems(2) digits_value_ge [of "e * 10 + digit_value c" ds] by simp
  then have "e < 10000" by simp
  moreover have "c \<noteq> CHR ''_''" using Cons.prems(1) digit_not_letter by auto
  ultimately show ?case using Cons by simp
qed simp

lemma read_exp_part_exp: "\<bar>e\<bar> < 10000 \<Longrightarrow> read_exp_part False (exp_part (Some e)) = Some (e, [])"
proof -
  assume e: "\<bar>e\<bar> < 10000"
  let ?n = "nat \<bar>e\<bar>"
  have "read_exponent (show_nat ?n) 0 = (?n, [])"
    using read_exponent_digits [OF list_all_digit_show_nat, of 0 ?n] e by (simp add: foldl_show_nat)
  moreover obtain c ds where "show_nat ?n = c # ds" "is_digit c" using show_nat_head by blast
  ultimately show ?thesis by (simp add: exp_part_def read_exp_part_def in_range_def)
qed

text \<open>
  What \<^verbatim>\<open>ParseFloat\<close> reads from such a number: its digits, scaled by the exponent and the digits after the point.
\<close>

definition decimal_ok :: "bytes \<Rightarrow> bytes \<Rightarrow> int option \<Rightarrow> bool" where
  "decimal_ok a f x \<longleftrightarrow> list_all is_digit a \<and> a \<noteq> [] \<and> list_all is_digit f \<and> (case x of None \<Rightarrow> True | Some e \<Rightarrow> \<bar>e\<bar> < 10000)"

definition decimal_value :: "bytes \<Rightarrow> bytes \<Rightarrow> int option \<Rightarrow> rat" where
  "decimal_value a f x = of_nat (digits_value 0 (a @ f)) * 10 powi ((case x of None \<Rightarrow> 0 | Some e \<Rightarrow> e) - int (length f))"

lemma read_mantissa_stop: "exp_part x = s \<Longrightarrow> read_mantissa False s m = (m, s)"
  by (auto simp: exp_part_def is_digit_def in_range_def split: option.splits)

lemma read_decimal:
  assumes "decimal_ok a f x"
  shows "read_mantissa False (decimal a f x) \<lparr>m_value = 0, m_frac = 0, m_dot = False, m_digits = False\<rparr>
    = (\<lparr>m_value = digits_value 0 (a @ f), m_frac = length f, m_dot = f \<noteq> [], m_digits = True\<rparr>, exp_part x)"
proof -
  have a: "list_all is_digit a" "a \<noteq> []" and f: "list_all is_digit f" using assms by (auto simp: decimal_ok_def)
  show ?thesis using f read_mantissa_stop [OF refl, of x]
    by (cases "f = []") (simp_all add: decimal_def read_mantissa_digits [OF a] read_mantissa_frac)
qed

lemma decimal_chars: "decimal_ok a f x \<Longrightarrow> list_all (\<lambda>c. is_digit c \<or> c \<in> set ''.e+-'') (decimal a f x)"
  using list_all_digit_show_nat by (auto simp: decimal_ok_def decimal_def exp_part_def list_all_iff split: option.splits)

lemma decimal_head: "decimal_ok a f x \<Longrightarrow> \<exists>c cs. decimal a f x = c # cs \<and> is_digit c"
  by (cases a) (auto simp: decimal_ok_def decimal_def)

lemma decimal_second: "decimal_ok a f x \<Longrightarrow> 2 < length (decimal a f x) \<Longrightarrow> lower_byte (decimal a f x ! 1) \<noteq> 120"
proof
  assume a: "decimal_ok a f x" "2 < length (decimal a f x)" "lower_byte (decimal a f x ! 1) = 120"
  then have "decimal a f x ! 1 \<in> set (decimal a f x)" by (intro nth_mem) simp
  then have "is_digit (decimal a f x ! 1) \<or> decimal a f x ! 1 \<in> set ''.e+-''"
    using decimal_chars [OF a(1)] by (simp only: list_all_iff)
  then show False using a(3) digit_not_letter [of "decimal a f x ! 1"] by (auto simp: in_range_def split: if_splits)
qed

lemma ParseFloat_decimal:
  assumes "decimal_ok a f x" "\<bar>rnd (decimal_value a f x)\<bar> < 2 ^ 1024"
  shows "ParseFloat (decimal a f x) = Inr (Fin (rnd (decimal_value a f x)))"
    "ParseFloat (CHR ''-'' # decimal a f x) = Inr (Fin (- rnd (decimal_value a f x)))"
proof -
  obtain c cs where c: "decimal a f x = c # cs" "is_digit c" using decimal_head [OF assms(1)] by blast
  note dc = digit_not_letter [OF c(2)]
  let ?s = "decimal a f x" and ?t = "CHR ''-'' # decimal a f x"
  have sgn: "read_sign ?s = (False, ?s)" "read_sign ?t = (True, ?s)" using dc by (simp_all add: c)
  have spec: "special_float ?s = None" "special_float ?t = None"
    unfolding special_float_def sgn Let_def prod.case using dc by (auto simp: c)
  have x2: "(2 < length ?s \<and> ?s ! 0 = CHR ''0'' \<and> lower_byte (?s ! 1) = 120) = False" using decimal_second [OF assms(1)] by blast
  have us: "CHR ''_'' \<notin> set ?s" "CHR ''_'' \<notin> set ?t"
    using decimal_chars [OF assms(1)] by (auto simp: list_all_iff is_digit_def in_range_def)
  have ex: "read_exp_part False (exp_part x) = Some (case x of None \<Rightarrow> 0 | Some e \<Rightarrow> e, [])"
    using assms(1) read_exp_part_exp by (auto simp: decimal_ok_def exp_part_def [of None] read_exp_part_def [of _ "[]"] split: option.splits)
  have "read_float ?s = Some (decimal_value a f x)" "read_float ?t = Some (- decimal_value a f x)"
    unfolding read_float_def sgn Let_def prod.case x2 if_False read_decimal [OF assms(1)] using us
    by (simp_all add: ex decimal_value_def)
  then show "ParseFloat ?s = Inr (Fin (rnd (decimal_value a f x)))" "ParseFloat ?t = Inr (Fin (- rnd (decimal_value a f x)))"
    using assms(2) by (simp_all add: ParseFloat_def spec rnd_minus)
qed

section \<open>Two digits after the point\<close>

text \<open>A fixed-point decimal as the kernel prints it: whole part, point, and two digits.\<close>

definition fixed2 :: "nat \<Rightarrow> nat \<Rightarrow> bytes" where
  "fixed2 a b = show_nat a @ ''.'' @ [char_of (48 + b div 10), char_of (48 + b mod 10)]"

lemma ParseFloat_fixed2:
  assumes "b < 100" "of_nat a + of_nat b / 100 < (2 :: rat) ^ 53"
  shows "ParseFloat (fixed2 a b) = Inr (Fin (rnd (of_nat a + of_nat b / 100)))"
proof -
  let ?f = "[char_of (48 + b div 10), char_of (48 + b mod 10)] :: bytes" and ?q = "of_nat a + of_nat b / 100 :: rat"
  have f: "list_all is_digit ?f" "digits_value a ?f = a * 100 + b"
    using assms(1) is_digit_char_of [of "b div 10"] is_digit_char_of [of "b mod 10"]
      digit_value_char_of [of "b div 10"] digit_value_char_of [of "b mod 10"] by simp_all
  have ok: "decimal_ok (show_nat a) ?f None" using f(1) list_all_digit_show_nat [of a] show_nat_head [of a] by (auto simp: decimal_ok_def)
  have "of_nat (digits_value 0 (show_nat a @ ?f)) = (of_nat (a * 100 + b) :: rat)"
    using f(2) by (simp only: foldl_append foldl_show_nat)
  then have v: "decimal_value (show_nat a) ?f None = ?q" by (simp add: decimal_value_def power_int_def field_simps)
  have "rnd ?q \<le> rnd (of_nat (2 ^ 53))" using assms(2) by (intro rnd_mono) simp
  then have "rnd ?q \<le> 2 ^ 53" using binary64.exact_nat [of "2 ^ 53"] by simp
  moreover have "0 \<le> rnd ?q" by (rule binary64.nonneg) simp
  moreover have "(2 :: rat) ^ 53 < 2 ^ 1024" by (rule power_strict_increasing) simp_all
  ultimately have "\<bar>rnd ?q\<bar> < 2 ^ 1024" by linarith
  then show ?thesis using ParseFloat_decimal(1) [OF ok] v by (simp add: fixed2_def decimal_def exp_part_def)
qed

end
