(* ===== verification/GoJson.thy ===== *)
theory GoJson
  imports GoText
begin

text \<open>
  What the program uses of \<^verbatim>\<open>encoding/json\<close> on the reading side: the scanner that accepts exactly the JSON
  texts, as a token reader and a stack of open arrays and objects, and \<^verbatim>\<open>Unmarshal\<close> into the kinds of Go
  value that the program decodes. The decoder works in place, as Go's does: it takes the value decoded so
  far, so an object that has the same key twice decodes both into the same field.
\<close>

section \<open>Tokens\<close>

text \<open>A string token keeps the bytes between its quotes as they are, a number its literal.\<close>

datatype jtok = LBrace | RBrace | LBrack | RBrack | Comma | Colon | TStr bytes | TNum bytes | TNull | TBool bool

abbreviation dquote :: char where
  "dquote \<equiv> CHR 0x22"

abbreviation backslash :: char where
  "backslash \<equiv> CHR 0x5C"

definition json_space :: "char \<Rightarrow> bool" where
  "json_space c \<longleftrightarrow> c \<in> {CHR 0x20, CHR 0x09, CHR 0x0A, CHR 0x0D}"

definition hex_digit :: "char \<Rightarrow> nat option" where
  "hex_digit c =
     (let b = byte_nat c
      in if in_range 48 57 b then Some (b - 48) else if in_range 97 102 b then Some (b - 87)
         else if in_range 65 70 b then Some (b - 55) else None)"

text \<open>The characters that may follow a backslash, apart from \<^verbatim>\<open>u\<close> and its four digits.\<close>

definition simple_escape :: "char \<Rightarrow> char option" where
  "simple_escape c = map_of
     [(dquote, dquote), (backslash, backslash), (CHR ''/'', CHR ''/''), (CHR ''b'', CHR 0x08), (CHR ''f'', CHR 0x0C),
      (CHR ''n'', CHR 0x0A), (CHR ''r'', CHR 0x0D), (CHR ''t'', CHR 0x09)] c"

fun scan_string :: "bytes \<Rightarrow> (bytes \<times> bytes) option" where
  "scan_string [] = None"
| "scan_string (c # cs) =
     (if c = dquote then Some ([], cs)
      else if c = backslash then
        (case cs of [] \<Rightarrow> None
         | d # ds \<Rightarrow>
             if d = CHR ''u'' then
               (case ds of
                  h1 # h2 # h3 # h4 # es \<Rightarrow>
                    if list_all (\<lambda>h. hex_digit h \<noteq> None) [h1, h2, h3, h4]
                    then map_option (apfst ((@) [c, d, h1, h2, h3, h4])) (scan_string es) else None
                | _ \<Rightarrow> None)
             else if simple_escape d \<noteq> None then map_option (apfst ((@) [c, d])) (scan_string ds) else None)
      else if byte_nat c < 0x20 then None
      else map_option (apfst (Cons c)) (scan_string cs))"

text \<open>A number: \<open>-? (0 | [1-9][0-9]*) (. [0-9]+)? ([eE] [+-]? [0-9]+)?\<close>, as far as it goes.\<close>

definition scan_sign :: "char list \<Rightarrow> bytes \<Rightarrow> bytes \<times> bytes" where
  "scan_sign signs s = (if s \<noteq> [] \<and> hd s \<in> set signs then ([hd s], tl s) else ([], s))"

definition scan_digits :: "bytes \<Rightarrow> bytes \<times> bytes" where
  "scan_digits s = (takeWhile is_digit s, dropWhile is_digit s)"

definition scan_int :: "bytes \<Rightarrow> bytes \<times> bytes" where
  "scan_int s = (if s \<noteq> [] \<and> hd s = CHR ''0'' then ([hd s], tl s) else scan_digits s)"

definition scan_frac :: "bytes \<Rightarrow> bytes \<times> bytes" where
  "scan_frac s =
     (case s of [] \<Rightarrow> ([], s)
      | c # cs \<Rightarrow> if c = CHR ''.'' \<and> fst (scan_digits cs) \<noteq> [] then apfst (Cons c) (scan_digits cs) else ([], s))"

definition scan_exp :: "bytes \<Rightarrow> bytes \<times> bytes" where
  "scan_exp s =
     (case s of [] \<Rightarrow> ([], s)
      | c # cs \<Rightarrow>
          (case scan_sign ''+-'' cs of (sign, ds) \<Rightarrow>
             if c \<in> {CHR ''e'', CHR ''E''} \<and> fst (scan_digits ds) \<noteq> []
             then apfst (\<lambda>d. c # sign @ d) (scan_digits ds) else ([], s)))"

definition scan_number :: "bytes \<Rightarrow> (bytes \<times> bytes) option" where
  "scan_number s =
     (let (sign, s) = scan_sign ''-'' s; (n, s) = scan_int s; (f, s) = scan_frac s; (e, s) = scan_exp s
      in if n = [] then None else Some (sign @ n @ f @ e, s))"

definition marks :: "(char \<times> jtok) list" where
  "marks = [(CHR ''{'', LBrace), (CHR ''}'', RBrace), (CHR ''['', LBrack), (CHR '']'', RBrack),
            (CHR '','', Comma), (CHR '':'', Colon)]"

definition words :: "(bytes \<times> jtok) list" where
  "words = [(''null'', TNull), (''true'', TBool True), (''false'', TBool False)]"

text \<open>The first token of a text that starts with neither space nor end, and what follows it.\<close>

definition scan_word :: "bytes \<Rightarrow> (jtok \<times> bytes) option" where
  "scan_word s =
     (case find (\<lambda>(w, _). HasPrefix s w) words of None \<Rightarrow> None | Some (w, t) \<Rightarrow> Some (t, drop (length w) s))"

definition scan_token :: "char \<Rightarrow> bytes \<Rightarrow> (jtok \<times> bytes) option" where
  "scan_token c cs =
     (case map_of marks c of Some t \<Rightarrow> Some (t, cs)
      | None \<Rightarrow>
          if c = dquote then map_option (apfst TStr) (scan_string cs)
          else case scan_number (c # cs) of Some (n, rest) \<Rightarrow> Some (TNum n, rest) | None \<Rightarrow> scan_word (c # cs))"

declare scan_string.simps [simp del]

lemma scan_string_shorter: "scan_string s = Some (raw, rest) \<Longrightarrow> length rest < length s"
proof (induction s arbitrary: raw rest rule: length_induct)
  case (1 s)
  note IH = "1.IH" [rule_format]
  show ?case
  proof (cases s)
    case Nil
    then show ?thesis using "1.prems" by (simp add: scan_string.simps)
  next
    case (Cons c cs)
    have shorter: "length rest < Suc (length cs)" if "scan_string ds = Some (a, rest)" "length ds \<le> length cs" for ds a
      using IH [OF _ that(1)] that(2) unfolding Cons by simp
    show ?thesis
      using "1.prems" unfolding Cons scan_string.simps(2)
      by (auto split: if_splits list.splits intro: shorter dest: shorter)
  qed
qed

lemma scan_digits_length: "scan_digits s = (d, r) \<Longrightarrow> length d + length r = length s"
  using takeWhile_dropWhile_id [of is_digit s] unfolding scan_digits_def prod.inject by (metis length_append)

lemma scan_sign_length: "scan_sign signs s = (d, r) \<Longrightarrow> length d + length r = length s"
  by (cases s) (auto simp: scan_sign_def split: if_splits)

lemma scan_int_length: "scan_int s = (d, r) \<Longrightarrow> length d + length r = length s"
  by (cases s) (auto simp: scan_int_def dest: scan_digits_length split: if_splits)

lemma scan_frac_length: "scan_frac s = (d, r) \<Longrightarrow> length d + length r = length s"
  by (cases s) (auto simp: scan_frac_def apfst_def map_prod_def split: if_splits prod.splits dest: scan_digits_length)

lemma scan_exp_length: "scan_exp s = (d, r) \<Longrightarrow> length d + length r = length s"
  by (cases s)
    (auto simp: scan_exp_def apfst_def map_prod_def split: if_splits prod.splits dest!: scan_digits_length scan_sign_length)

lemma scan_number_shorter:
  assumes "scan_number s = Some (n, rest)"
  shows "length rest < length s"
proof -
  obtain sign s1 i s2 f s3 e s4 where p: "scan_sign ''-'' s = (sign, s1)" "scan_int s1 = (i, s2)" "scan_frac s2 = (f, s3)"
    "scan_exp s3 = (e, s4)" by (metis surj_pair)
  with assms have "i \<noteq> []" "rest = s4" by (auto simp: scan_number_def split: if_splits)
  then show ?thesis
    using scan_sign_length [OF p(1)] scan_int_length [OF p(2)] scan_frac_length [OF p(3)] scan_exp_length [OF p(4)]
    by (cases i) simp_all
qed

lemma scan_word_shorter: "scan_word s = Some (t, rest) \<Longrightarrow> s \<noteq> [] \<Longrightarrow> length rest < length s"
  by (auto simp: scan_word_def words_def split: if_splits)

lemma scan_token_shorter: "scan_token c cs = Some (t, rest) \<Longrightarrow> length rest \<le> length cs"
  by (auto simp: scan_token_def less_Suc_eq_le [symmetric] split: option.splits if_splits
      dest!: scan_string_shorter scan_number_shorter scan_word_shorter)

function tokens :: "bytes \<Rightarrow> jtok list option" where
  "tokens [] = Some []"
| "tokens (c # cs) =
     (if json_space c then tokens cs
      else case scan_token c cs of None \<Rightarrow> None | Some (t, rest) \<Rightarrow> map_option (Cons t) (tokens rest))"
  by pat_completeness auto
termination
  by (relation "measure length") (auto dest!: scan_token_shorter)

declare tokens.simps [simp del]

section \<open>Values\<close>

datatype jval = VNull | VBool bool | VNum bytes | VStr bytes | VArr "jval list" | VObj "(bytes \<times> jval) list"

text \<open>
  The open arrays and objects, innermost first: \<open>FKey\<close> is an object whose last key waits for its value.
  What may come next is the mode; \<^verbatim>\<open>maxNestingDepth\<close> bounds the stack.
\<close>

datatype jframe = FArr "jval list" | FObj "(bytes \<times> jval) list" | FKey "(bytes \<times> jval) list" bytes

datatype jmode = PValue | PFirst | PFirstKey | PKey | PColon | PAfter | PDone jval

type_synonym jstate = "jmode \<times> jframe list"

definition maxNestingDepth :: nat where
  "maxNestingDepth = 10000"

fun put :: "jval \<Rightarrow> jframe list \<Rightarrow> jstate option" where
  "put v [] = Some (PDone v, [])"
| "put v (FArr vs # st) = Some (PAfter, FArr (vs @ [v]) # st)"
| "put v (FKey ps k # st) = Some (PAfter, FObj (ps @ [(k, v)]) # st)"
| "put v (FObj ps # st) = None"

definition push :: "jmode \<Rightarrow> jframe \<Rightarrow> jframe list \<Rightarrow> jstate option" where
  "push m f st = (if length st < maxNestingDepth then Some (m, f # st) else None)"

fun begin_value :: "jtok \<Rightarrow> jframe list \<Rightarrow> jstate option" where
  "begin_value LBrack st = push PFirst (FArr []) st"
| "begin_value LBrace st = push PFirstKey (FObj []) st"
| "begin_value (TStr s) st = put (VStr s) st"
| "begin_value (TNum n) st = put (VNum n) st"
| "begin_value (TBool b) st = put (VBool b) st"
| "begin_value TNull st = put VNull st"
| "begin_value _ st = None"

fun begin_key :: "jtok \<Rightarrow> jframe list \<Rightarrow> jstate option" where
  "begin_key (TStr k) (FObj ps # st) = Some (PColon, FKey ps k # st)"
| "begin_key _ _ = None"

fun end_value :: "jtok \<Rightarrow> jframe list \<Rightarrow> jstate option" where
  "end_value Comma (FArr vs # st) = Some (PValue, FArr vs # st)"
| "end_value RBrack (FArr vs # st) = put (VArr vs) st"
| "end_value Comma (FObj ps # st) = Some (PKey, FObj ps # st)"
| "end_value RBrace (FObj ps # st) = put (VObj ps) st"
| "end_value _ _ = None"

fun json_step :: "jtok \<Rightarrow> jstate \<Rightarrow> jstate option" where
  "json_step t (PValue, st) = begin_value t st"
| "json_step t (PFirst, st) = (if t = RBrack then end_value t st else begin_value t st)"
| "json_step t (PFirstKey, st) = (if t = RBrace then end_value t st else begin_key t st)"
| "json_step t (PKey, st) = begin_key t st"
| "json_step t (PColon, st) = (if t = Colon then Some (PValue, st) else None)"
| "json_step t (PAfter, st) = end_value t st"
| "json_step t (PDone v, st) = None"

fun json_steps :: "jtok list \<Rightarrow> jstate \<Rightarrow> jstate option" where
  "json_steps [] s = Some s"
| "json_steps (t # ts) s = (case json_step t s of None \<Rightarrow> None | Some s' \<Rightarrow> json_steps ts s')"

definition parse_tokens :: "jtok list \<Rightarrow> jval option" where
  "parse_tokens ts = (case json_steps ts (PValue, []) of Some (PDone v, _) \<Rightarrow> Some v | _ \<Rightarrow> None)"

definition json_parse :: "bytes \<Rightarrow> jval option" where
  "json_parse s = (case tokens s of None \<Rightarrow> None | Some ts \<Rightarrow> parse_tokens ts)"

section \<open>Every value is read back\<close>

text \<open>The tokens of a value, and how deep its arrays and objects are nested.\<close>

fun jtoks :: "jval \<Rightarrow> jtok list" and jtoks_arr :: "jval list \<Rightarrow> jtok list" and jtoks_obj :: "(bytes \<times> jval) list \<Rightarrow> jtok list" where
  "jtoks VNull = [TNull]"
| "jtoks (VBool b) = [TBool b]"
| "jtoks (VNum n) = [TNum n]"
| "jtoks (VStr s) = [TStr s]"
| "jtoks (VArr vs) = LBrack # jtoks_arr vs @ [RBrack]"
| "jtoks (VObj ps) = LBrace # jtoks_obj ps @ [RBrace]"
| "jtoks_arr [] = []"
| "jtoks_arr (v # vs) = jtoks v @ (if vs = [] then [] else Comma # jtoks_arr vs)"
| "jtoks_obj [] = []"
| "jtoks_obj ((k, v) # ps) = TStr k # Colon # jtoks v @ (if ps = [] then [] else Comma # jtoks_obj ps)"

fun depth :: "jval \<Rightarrow> nat" where
  "depth (VArr vs) = Suc (fold max (map depth vs) 0)"
| "depth (VObj ps) = Suc (fold max (map (depth \<circ> snd) ps) 0)"
| "depth _ = 0"

lemma fold_max_le: "fold max xs (a :: nat) \<le> n \<longleftrightarrow> a \<le> n \<and> (\<forall>x \<in> set xs. x \<le> n)"
  by (induction xs arbitrary: a) auto

lemma json_steps_append:
  "json_steps (ts @ us) s = (case json_steps ts s of None \<Rightarrow> None | Some s' \<Rightarrow> json_steps us s')"
  by (induction ts s rule: json_steps.induct) (auto split: option.split)

lemma jtoks_hd: "\<exists>t ts. jtoks v = t # ts \<and> t \<noteq> RBrack \<and> t \<noteq> RBrace"
  by (cases v) auto

text \<open>Where an array or object opens, its first element is read like any other.\<close>

lemma json_steps_first:
  "vs \<noteq> [] \<Longrightarrow> json_steps (jtoks_arr vs) (PFirst, st) = json_steps (jtoks_arr vs) (PValue, st)"
  "ps \<noteq> [] \<Longrightarrow> json_steps (jtoks_obj ps) (PFirstKey, st) = json_steps (jtoks_obj ps) (PKey, st)"
proof -
  show "vs \<noteq> [] \<Longrightarrow> json_steps (jtoks_arr vs) (PFirst, st) = json_steps (jtoks_arr vs) (PValue, st)"
    using jtoks_hd [of "hd vs"] by (cases vs) (auto simp: json_steps_append)
  show "ps \<noteq> [] \<Longrightarrow> json_steps (jtoks_obj ps) (PFirstKey, st) = json_steps (jtoks_obj ps) (PKey, st)"
    by (cases ps) (auto split: prod.splits)
qed

lemma depth_le:
  "n + depth (VArr vs) \<le> m \<longleftrightarrow> n < m \<and> (\<forall>v \<in> set vs. Suc n + depth v \<le> m)"
  "n + depth (VObj ps) \<le> m \<longleftrightarrow> n < m \<and> (\<forall>p \<in> set ps. Suc n + depth (snd p) \<le> m)"
proof -
  have le: "n + Suc (fold max xs 0) \<le> m \<longleftrightarrow> n < m \<and> (\<forall>x \<in> set xs. Suc n + x \<le> m)" for xs
  proof (cases "n < m")
    case True
    then have "n + Suc (fold max xs 0) \<le> m \<longleftrightarrow> fold max xs 0 \<le> m - Suc n" by linarith
    also have "\<dots> \<longleftrightarrow> (\<forall>x \<in> set xs. Suc n + x \<le> m)" using True by (auto simp: fold_max_le)
    finally show ?thesis using True by blast
  qed simp
  show "n + depth (VArr vs) \<le> m \<longleftrightarrow> n < m \<and> (\<forall>v \<in> set vs. Suc n + depth v \<le> m)"
    "n + depth (VObj ps) \<le> m \<longleftrightarrow> n < m \<and> (\<forall>p \<in> set ps. Suc n + depth (snd p) \<le> m)"
    by (simp_all add: le del: add_Suc_right)
qed

declare depth.simps(1,2) [simp del]

lemma json_steps_jtoks:
  "length st + depth v \<le> maxNestingDepth \<Longrightarrow> json_steps (jtoks v) (PValue, st) = put v st"
  "vs \<noteq> [] \<Longrightarrow> \<forall>v \<in> set vs. Suc (length st) + depth v \<le> maxNestingDepth \<Longrightarrow>
     json_steps (jtoks_arr vs) (PValue, FArr ws # st) = Some (PAfter, FArr (ws @ vs) # st)"
  "ps \<noteq> [] \<Longrightarrow> \<forall>p \<in> set ps. Suc (length st) + depth (snd p) \<le> maxNestingDepth \<Longrightarrow>
     json_steps (jtoks_obj ps) (PKey, FObj qs # st) = Some (PAfter, FObj (qs @ ps) # st)"
proof (induction v and vs and ps arbitrary: st and st ws and st qs rule: jtoks_jtoks_arr_jtoks_obj.induct)
  case (5 vs)
  note d = "5.prems" [unfolded depth_le]
  have "json_steps (jtoks_arr vs) (PFirst, FArr [] # st) = Some (if vs = [] then PFirst else PAfter, FArr vs # st)"
    using "5.IH" [of st "[]"] d json_steps_first(1) [of vs] by simp
  then show ?case using d by (simp add: push_def json_steps_append split: if_splits option.split)
next
  case (6 ps)
  note d = "6.prems" [unfolded depth_le]
  have "json_steps (jtoks_obj ps) (PFirstKey, FObj [] # st) = Some (if ps = [] then PFirstKey else PAfter, FObj ps # st)"
    using "6.IH" [of st "[]"] d json_steps_first(2) [of ps] by simp
  then show ?case using d by (simp add: push_def json_steps_append split: if_splits option.split)
qed (simp_all add: json_steps_append split: option.split)

lemma parse_tokens_jtoks: "depth v \<le> maxNestingDepth \<Longrightarrow> parse_tokens (jtoks v) = Some v"
  using json_steps_jtoks(1) [of "[]" v] by (simp add: parse_tokens_def)

text \<open>The text of a token, and of tokens laid out with any white space before each.\<close>

fun tok_text :: "jtok \<Rightarrow> bytes" where
  "tok_text LBrace = ''{''"
| "tok_text RBrace = ''}''"
| "tok_text LBrack = ''[''"
| "tok_text RBrack = '']''"
| "tok_text Comma = '',''"
| "tok_text Colon = '':''"
| "tok_text (TStr s) = dquote # s @ [dquote]"
| "tok_text (TNum n) = n"
| "tok_text TNull = ''null''"
| "tok_text (TBool b) = (if b then ''true'' else ''false'')"

definition render :: "(bytes \<times> jtok) list \<Rightarrow> bytes" where
  "render ts = concat (map (\<lambda>(w, t). w @ tok_text t) ts)"

definition tok_ok :: "jtok \<Rightarrow> bool" where
  "tok_ok t = (case t of TStr s \<Rightarrow> scan_string (s @ [dquote]) = Some (s, [])
                | TNum n \<Rightarrow> scan_number n = Some (n, []) | _ \<Rightarrow> True)"

text \<open>What can follow a number without being read as part of it.\<close>

definition stop :: "bytes \<Rightarrow> bool" where
  "stop x \<longleftrightarrow> x = [] \<or> \<not> is_digit (hd x) \<and> hd x \<notin> set ''.eE+-''"

lemma stop_digit: "stop x \<Longrightarrow> scan_digits x = ([], x)"
  by (cases x) (auto simp: stop_def scan_digits_def)

lemma scan_digits_append: "scan_digits s = (d, r) \<Longrightarrow> stop x \<Longrightarrow> scan_digits (s @ x) = (d, r @ x)"
  using stop_digit [of x] by (induction s arbitrary: d) (auto simp: scan_digits_def split: if_splits)

lemma scan_sign_append: "scan_sign signs s = (d, r) \<Longrightarrow> stop x \<Longrightarrow> set signs \<subseteq> set ''+-'' \<Longrightarrow> scan_sign signs (s @ x) = (d, r @ x)"
  by (cases s; cases x) (auto simp: scan_sign_def stop_def split: if_splits)

lemma scan_int_append: "scan_int s = (d, r) \<Longrightarrow> stop x \<Longrightarrow> scan_int (s @ x) = (d, r @ x)"
proof (cases s)
  case Nil
  assume "scan_int s = (d, r)" "stop x"
  moreover have "is_digit (CHR ''0'')" by (simp add: is_digit_def in_range_def)
  ultimately show ?thesis using Nil stop_digit [of x]
    by (cases x) (auto simp: scan_int_def scan_digits_def stop_def)
qed (auto simp: scan_int_def scan_digits_append [of "_ # _", simplified] split: if_splits)

lemma scan_frac_append: "scan_frac s = (d, r) \<Longrightarrow> stop x \<Longrightarrow> scan_frac (s @ x) = (d, r @ x)"
proof (cases s)
  case Nil
  assume "scan_frac s = (d, r)" "stop x"
  then show ?thesis using Nil by (cases x) (auto simp: scan_frac_def stop_def)
next
  case (Cons c cs)
  assume "scan_frac s = (d, r)" "stop x"
  then show ?thesis using Cons scan_digits_append [of cs "fst (scan_digits cs)" "snd (scan_digits cs)" x]
    by (cases "scan_digits cs") (auto simp: scan_frac_def split: if_splits)
qed

lemma scan_exp_append: "scan_exp s = (d, r) \<Longrightarrow> stop x \<Longrightarrow> scan_exp (s @ x) = (d, r @ x)"
proof (cases s)
  case Nil
  assume "scan_exp s = (d, r)" "stop x"
  then show ?thesis using Nil by (cases x) (auto simp: scan_exp_def stop_def split: prod.split)
next
  case (Cons c cs)
  assume a: "scan_exp s = (d, r)" "stop x"
  obtain sign ds where s: "scan_sign ''+-'' cs = (sign, ds)" by fastforce
  obtain e f where d: "scan_digits ds = (e, f)" by fastforce
  show ?thesis using a Cons s scan_sign_append [OF s a(2)] d scan_digits_append [OF d a(2)]
    by (auto simp: scan_exp_def split: if_splits)
qed

lemma scan_number_append:
  assumes "scan_number s = Some (n, r)" "stop x"
  shows "scan_number (s @ x) = Some (n, r @ x)"
proof -
  obtain sign s1 i s2 f s3 e s4 where p: "scan_sign ''-'' s = (sign, s1)" "scan_int s1 = (i, s2)" "scan_frac s2 = (f, s3)"
    "scan_exp s3 = (e, s4)" by (metis surj_pair)
  have "scan_sign ''-'' (s @ x) = (sign, s1 @ x)" by (rule scan_sign_append [OF p(1) assms(2)]) simp
  moreover note scan_int_append [OF p(2) assms(2)] scan_frac_append [OF p(3) assms(2)] scan_exp_append [OF p(4) assms(2)]
  ultimately show ?thesis using assms(1) p by (auto simp: scan_number_def split: if_splits)
qed

lemma scan_string_append: "scan_string s = Some (raw, rest) \<Longrightarrow> scan_string (s @ x) = Some (raw, rest @ x)"
proof (induction s arbitrary: raw rest rule: scan_string.induct)
  case (2 c cs)
  then show ?case unfolding scan_string.simps(2) append_Cons
    by (auto split: if_splits list.splits)
qed (simp add: scan_string.simps)

text \<open>In the tokens of a value a number is followed by a comma, by the end of its array or object, or by nothing.\<close>

definition closing :: "jtok list \<Rightarrow> bool" where
  "closing ts \<longleftrightarrow> ts = [] \<or> hd ts \<in> {Comma, RBrack, RBrace}"

fun sep_ok :: "jtok list \<Rightarrow> bool" where
  "sep_ok [] \<longleftrightarrow> True"
| "sep_ok (t # ts) \<longleftrightarrow> ((\<exists>n. t = TNum n) \<longrightarrow> closing ts) \<and> sep_ok ts"

lemma closing_Cons [simp]: "closing (t # ts) \<longleftrightarrow> t \<in> {Comma, RBrack, RBrace}"
  by (simp add: closing_def)

lemma sep_ok_jtoks:
  "closing ts \<Longrightarrow> sep_ok ts \<Longrightarrow> sep_ok (jtoks v @ ts)"
  "closing ts \<Longrightarrow> sep_ok ts \<Longrightarrow> sep_ok (jtoks_arr vs @ ts)"
  "closing ts \<Longrightarrow> sep_ok ts \<Longrightarrow> sep_ok (jtoks_obj ps @ ts)"
  by (induction v and vs and ps arbitrary: ts and ts and ts rule: jtoks_jtoks_arr_jtoks_obj.induct) simp_all

lemma tokens_space: "list_all json_space w \<Longrightarrow> tokens (w @ s) = tokens s"
  by (induction w) (simp_all add: tokens.simps)

lemma not_number: "\<not> is_digit c \<Longrightarrow> c \<noteq> CHR ''-'' \<Longrightarrow> scan_number (c # cs) = None"
proof -
  assume no: "\<not> is_digit c" "c \<noteq> CHR ''-''"
  moreover have "is_digit (CHR ''0'')" by (simp add: is_digit_def in_range_def)
  ultimately have "scan_int (c # cs) = ([], c # cs)" "scan_sign ''-'' (c # cs) = ([], c # cs)"
    by (auto simp: scan_int_def scan_digits_def scan_sign_def)
  then show ?thesis by (auto simp: scan_number_def split: prod.splits)
qed

lemma number_start:
  assumes "scan_number n = Some (n, [])"
  shows "\<exists>c cs. n = c # cs \<and> (is_digit c \<or> c = CHR ''-'')"
proof (cases n)
  case Nil
  then show ?thesis using assms by (simp add: scan_number_def scan_sign_def scan_int_def scan_digits_def scan_frac_def scan_exp_def)
next
  case (Cons c cs)
  then show ?thesis using assms not_number [of c cs] by fastforce
qed

lemma scan_token_word:
  "scan_token (CHR ''n'') (''ull'' @ s) = Some (TNull, s)"
  "scan_token (CHR ''t'') (''rue'' @ s) = Some (TBool True, s)"
  "scan_token (CHR ''f'') (''alse'' @ s) = Some (TBool False, s)"
  by (simp_all add: scan_token_def marks_def not_number is_digit_def in_range_def scan_word_def words_def HasPrefix_def)

lemma tokens_token:
  assumes "tok_ok t" "(\<exists>n. t = TNum n) \<longrightarrow> stop s"
  shows "tokens (tok_text t @ s) = map_option (Cons t) (tokens s)"
proof -
  have start: "tokens (c # cs @ s) = map_option (Cons t) (tokens s)"
    if "tok_text t = c # cs" "\<not> json_space c" "scan_token c (cs @ s) = Some (t, s)" for c cs
    using that by (simp add: tokens.simps)
  show ?thesis
  proof (cases t)
    case (TStr r)
    then show ?thesis using assms start [of dquote "r @ [dquote]"] scan_string_append [of "r @ [dquote]" r "[]" s]
      by (simp add: tok_ok_def scan_token_def marks_def json_space_def)
  next
    case (TNum n)
    then have n: "scan_number n = Some (n, [])" using assms(1) by (simp add: tok_ok_def)
    obtain c cs where c: "n = c # cs" "is_digit c \<or> c = CHR ''-''" using number_start [OF n] by blast
    then have "\<not> json_space c" "map_of marks c = None" "c \<noteq> dquote"
      by (auto simp: json_space_def marks_def is_digit_def in_range_def)
    moreover have "scan_number (c # cs @ s) = Some (n, s)"
      using scan_number_append [OF n] assms(2) TNum c(1) by simp
    ultimately show ?thesis using start [of c cs] TNum c by (simp add: scan_token_def)
  next
    case TNull
    with start [of "CHR ''n''" "''ull''"] scan_token_word(1) [of s] show ?thesis by (simp add: json_space_def)
  next
    case (TBool b)
    with start [of "CHR ''t''" "''rue''"] start [of "CHR ''f''" "''alse''"] scan_token_word(2,3) [of s] show ?thesis
      by (cases b) (simp_all add: json_space_def)
  qed (use start [of "hd (tok_text t)" "[]"] in \<open>simp_all add: scan_token_def marks_def json_space_def\<close>)
qed

lemma stop_text: "closing (map snd ts) \<Longrightarrow> list_all (\<lambda>(w, _). list_all json_space w) ts \<Longrightarrow> list_all json_space tail \<Longrightarrow>
    stop (render ts @ tail)"
proof -
  have sp: "list_all json_space w \<Longrightarrow> w \<noteq> [] \<Longrightarrow> stop (w @ s)" for w s
    by (cases w) (auto simp: stop_def json_space_def is_digit_def in_range_def)
  assume a: "closing (map snd ts)" "list_all (\<lambda>(w, _). list_all json_space w) ts" "list_all json_space tail"
  show ?thesis
  proof (cases ts)
    case Nil
    then show ?thesis using sp [of tail "[]"] a(3) by (cases tail) (simp_all add: render_def stop_def)
  next
    case (Cons p us)
    obtain w t where p: "p = (w, t)" by (cases p)
    show ?thesis
    proof (cases w)
      case Nil
      then show ?thesis using a(1) Cons p by (auto simp: render_def stop_def is_digit_def in_range_def)
    next
      case (Cons c cs)
      then show ?thesis using sp [of w] a(2) \<open>ts = p # us\<close> p by (simp add: render_def)
    qed
  qed
qed

lemma tokens_render:
  "list_all (\<lambda>(w, _). list_all json_space w) ts \<Longrightarrow> list_all (\<lambda>(_, t). tok_ok t) ts \<Longrightarrow> list_all json_space tail \<Longrightarrow> sep_ok (map snd ts) \<Longrightarrow>
     tokens (render ts @ tail) = Some (map snd ts)"
proof (induction ts)
  case Nil
  then show ?case using tokens_space [of tail "[]"] by (simp add: render_def tokens.simps)
next
  case (Cons p ts)
  obtain w t where p: "p = (w, t)" by (cases p)
  have "stop (render ts @ tail)" if "\<exists>n. t = TNum n" using Cons.prems that p by (intro stop_text) auto
  then show ?case using Cons p tokens_space [of w] tokens_token [of t "render ts @ tail"] by (simp add: render_def)
qed

text \<open>A JSON text of a value: its tokens, with any white space between them and at the end.\<close>

definition json_text :: "jval \<Rightarrow> bytes \<Rightarrow> bool" where
  "json_text v s \<longleftrightarrow>
     (\<exists>ts tail. s = render ts @ tail \<and> map snd ts = jtoks v \<and> list_all (\<lambda>(w, _). list_all json_space w) ts \<and> list_all json_space tail)"

definition jval_ok :: "jval \<Rightarrow> bool" where
  "jval_ok v \<longleftrightarrow> list_all tok_ok (jtoks v) \<and> depth v \<le> maxNestingDepth"

theorem json_parse_text: "json_text v s \<Longrightarrow> jval_ok v \<Longrightarrow> json_parse s = Some v"
proof -
  assume "json_text v s" "jval_ok v"
  then obtain ts tail where ts: "s = render ts @ tail" "map snd ts = jtoks v" "list_all (\<lambda>(w, _). list_all json_space w) ts"
    "list_all json_space tail" unfolding json_text_def by blast
  have "list_all (\<lambda>(_, t). tok_ok t) ts" using \<open>jval_ok v\<close> unfolding jval_ok_def ts(2) [symmetric] by (simp add: list.pred_map comp_def split_def)
  moreover have "sep_ok (map snd ts)" using sep_ok_jtoks(1) [of "[]" v] ts(2) by (simp add: closing_def)
  ultimately have "tokens s = Some (jtoks v)" using tokens_render ts by simp
  then show ?thesis using parse_tokens_jtoks \<open>jval_ok v\<close> by (simp add: json_parse_def jval_ok_def)
qed

definition json_print :: "jval \<Rightarrow> bytes" where
  "json_print v = concat (map tok_text (jtoks v))"

lemma json_text_print: "json_text v (json_print v)"
proof -
  have "json_print v = render (map (Pair []) (jtoks v)) @ []"
    by (simp add: json_print_def render_def comp_def)
  moreover have "map snd (map (Pair []) (jtoks v)) = jtoks v" by (simp add: comp_def)
  moreover have "list_all (\<lambda>(w, _). list_all json_space w) (map (Pair []) (jtoks v))" by (simp add: list.pred_map list_all_iff)
  ultimately show ?thesis unfolding json_text_def by fastforce
qed

text \<open>Bytes that stand for themselves between quotes.\<close>

definition plain_byte :: "char \<Rightarrow> bool" where
  "plain_byte c \<longleftrightarrow> in_range 0x20 0x7F (byte_nat c) \<and> c \<noteq> dquote \<and> c \<noteq> backslash"

lemma scan_string_plain: "list_all plain_byte s \<Longrightarrow> scan_string (s @ dquote # r) = Some (s, r)"
  by (induction s) (simp_all add: scan_string.simps plain_byte_def in_range_def)

lemma tok_ok_plain: "list_all plain_byte s \<Longrightarrow> tok_ok (TStr s)"
  using scan_string_plain [of s "[]"] by (simp add: tok_ok_def)

lemma tok_ok_marks:
  "tok_ok LBrace" "tok_ok RBrace" "tok_ok LBrack" "tok_ok RBrack" "tok_ok Comma" "tok_ok Colon" "tok_ok TNull" "tok_ok (TBool b)"
  by (simp_all add: tok_ok_def)

end
