(* ===== verification/GoFloat.thy ===== *)
theory GoFloat
  imports GoNumber GoJson
begin

text \<open>
  How \<^verbatim>\<open>json.Marshal\<close> writes a \<open>float64\<close>: the shortest decimal that reads back as it, in the fixed or the exponent form of
  \<^verbatim>\<open>strconv.FormatFloat\<close>. Read by \<^verbatim>\<open>ParseFloat\<close>, it is the same float again. The sign of a zero is not kept.
\<close>

section \<open>The shortest digits that read back\<close>

text \<open>
  \<^verbatim>\<open>strconv.FormatFloat(f, _, -1, 64)\<close> writes the fewest digits that read back as \<open>f\<close>, and of those the number nearest
  to it, ties to even. A number with \<open>n\<close> digits around \<open>q\<close> is a multiple of \<open>10 powi e\<close> next to it; the search goes down from
  one digit and ends at the latest where \<open>q\<close> itself is a multiple.
\<close>

definition reads_back :: "rat \<Rightarrow> int \<Rightarrow> int \<Rightarrow> bool" where
  "reads_back q e m \<longleftrightarrow> rnd (of_int m * 10 powi e) = q"

function shortest_from :: "rat \<Rightarrow> int \<Rightarrow> int \<times> int" where
  "shortest_from q e =
     (let x = q / 10 powi e
      in case filter (reads_back q e) [round_half_even x, \<lfloor>x\<rfloor>, \<lceil>x\<rceil>] of
           m # _ \<Rightarrow> (m, e)
         | [] \<Rightarrow> if e \<le> - 1074 then (\<lfloor>x\<rfloor>, e) else shortest_from q (e - 1))"
  by pat_completeness auto
termination
  by (relation "measure (\<lambda>(q, e). nat (e + 1074))") auto

declare shortest_from.simps [simp del]

function strip_zeros :: "nat \<Rightarrow> int \<Rightarrow> nat \<times> int" where
  "strip_zeros m e = (if m = 0 \<or> m mod 10 \<noteq> 0 then (m, e) else strip_zeros (m div 10) (e + 1))"
  by pat_completeness auto
termination
  by (relation "measure fst") auto

declare strip_zeros.simps [simp del]

definition shortest :: "rat \<Rightarrow> nat \<times> int" where
  "shortest q = (case shortest_from q (base_exp 10 q) of (m, e) \<Rightarrow> strip_zeros (nat m) e)"

text \<open>The forms \<^verbatim>\<open>%e\<close> and \<^verbatim>\<open>%f\<close> of the digits \<open>ds\<close> with the point after the first \<open>dp\<close> of them.\<close>

definition exp_form :: "bytes \<Rightarrow> int \<Rightarrow> bytes" where
  "exp_form ds dp = decimal [hd ds] (tl ds) (Some (dp - 1))"

definition fixed_form :: "bytes \<Rightarrow> int \<Rightarrow> bytes" where
  "fixed_form ds dp =
     (if dp \<le> 0 then decimal ''0'' (replicate (nat (- dp)) CHR ''0'' @ ds) None
      else if dp < int (length ds) then decimal (take (nat dp) ds) (drop (nat dp) ds) None
      else decimal (ds @ replicate (nat dp - length ds) CHR ''0'') [] None)"

text \<open>
  \<^verbatim>\<open>floatEncoder\<close> of \<^verbatim>\<open>encoding/json\<close>: the exponent form for very small and very large numbers, its exponent
  without the leading zero.
\<close>

definition float_text :: "rat \<Rightarrow> bytes" where
  "float_text f =
     (if f = 0 then ''0''
      else let q = \<bar>f\<bar>; (m, e) = shortest q; ds = show_nat m; dp = int (length ds) + e
           in (if f < 0 then ''-'' else []) @ (if q < rnd (1 / 10 ^ 6) \<or> 10 ^ 21 \<le> q then exp_form ds dp else fixed_form ds dp))"

section \<open>Every float is read back\<close>

definition is_float64 :: "rat \<Rightarrow> bool" where
  "is_float64 q \<longleftrightarrow> rnd q = q \<and> \<bar>q\<bar> < 2 ^ 1024"

lemma powi_ten_pos [simp]: "(0 :: rat) < 10 powi e"
  by simp

lemma float64_multiple: "0 < q \<Longrightarrow> rnd q = q \<Longrightarrow> \<exists>k u. - 1074 \<le> u \<and> q = of_int k * 2 powi u"
  by (intro exI [of _ "round_half_even (q / 2 powi ulp_exp q)"] exI [of _ "ulp_exp q"])
    (simp add: rnd_def rnd_pos_def ulp_exp_def)

lemma decimal_multiple:
  assumes "e \<le> u" "e \<le> 0"
  shows "\<exists>k. (2 :: rat) powi u = of_int k * 10 powi e"
proof -
  obtain k where k: "(2 :: rat) powi u = of_int k * 2 powi e" using powi_div_ulp_int [OF assms(1)] by blast
  have "(5 :: rat) powi (- e) = of_int (5 ^ nat (- e))" using assms(2) by (simp add: power_int_def)
  then have "of_int (5 ^ nat (- e)) * (5 :: rat) powi e = 1" using power_int_add [of "5 :: rat" "- e" e] by simp
  then have "(2 :: rat) powi e = of_int (5 ^ nat (- e)) * (5 powi e * 2 powi e)" by (metis mult.assoc mult_1)
  also have "(5 :: rat) powi e * 2 powi e = 10 powi e" by (simp flip: power_int_mult_distrib)
  finally have "(2 :: rat) powi u = of_int (k * 5 ^ nat (- e)) * 10 powi e" using k by simp
  then show ?thesis by blast
qed

text \<open>At the last exponent of the search the number is a whole multiple, so the search finds something.\<close>

lemma exact_at_end:
  assumes "0 < q" "rnd q = q" "e \<le> - 1074"
  shows "reads_back q e (round_half_even (q / 10 powi e))"
proof -
  obtain j u where u: "- 1074 \<le> u" "q = of_int j * 2 powi u" using float64_multiple [OF assms(1,2)] by blast
  obtain k where "(2 :: rat) powi u = of_int k * 10 powi e" using decimal_multiple [of e u] u(1) assms(3) by auto
  then have q: "q = of_int (j * k) * 10 powi e" using u(2) by simp
  then have "round_half_even (q / 10 powi e) = j * k" by (simp flip: of_int_mult)
  then show ?thesis using assms(2) q by (simp add: reads_back_def)
qed

lemma round_half_even_near: "round_half_even x = \<lfloor>x\<rfloor> \<or> round_half_even x = \<lceil>x\<rceil>"
proof (cases "x = of_int \<lfloor>x\<rfloor>")
  case True
  then show ?thesis using round_half_even_of_int [of "\<lfloor>x\<rfloor>"] by simp
next
  case False
  then have "\<lceil>x\<rceil> = \<lfloor>x\<rfloor> + 1" by (metis ceiling_altdef)
  then show ?thesis by (auto simp: round_half_even_def Let_def)
qed

lemma shortest_from_reads:
  assumes "0 < q" "rnd q = q" "shortest_from q e = (m, e')"
  shows "reads_back q e' m \<and> e' \<le> e \<and> (m = \<lfloor>q / 10 powi e'\<rfloor> \<or> m = \<lceil>q / 10 powi e'\<rceil>)"
  using assms
proof (induction q e arbitrary: m e' rule: shortest_from.induct)
  case (1 q e)
  let ?x = "q / 10 powi e"
  have near: "round_half_even ?x = \<lfloor>?x\<rfloor> \<or> round_half_even ?x = \<lceil>?x\<rceil>"
    by (rule round_half_even_near)
  show ?case
  proof (cases "filter (reads_back q e) [round_half_even ?x, \<lfloor>?x\<rfloor>, \<lceil>?x\<rceil>]")
    case Nil
    then have "\<not> e \<le> - 1074" using exact_at_end [OF "1.prems"(1,2)] by (auto split: if_splits)
    moreover from this have "shortest_from q (e - 1) = (m, e')"
      using "1.prems"(3) unfolding shortest_from.simps [of q e] Let_def Nil by simp
    ultimately show ?thesis using "1.IH" [OF refl Nil _ "1.prems"(1,2)] by force
  next
    case (Cons a as)
    then have "(m, e') = (a, e)" using "1.prems"(3) unfolding shortest_from.simps [of q e] Let_def Cons by simp
    moreover have "a \<in> set (filter (reads_back q e) [round_half_even ?x, \<lfloor>?x\<rfloor>, \<lceil>?x\<rceil>])" unfolding Cons by simp
    ultimately have "reads_back q e' m" "e' = e" "m = round_half_even ?x \<or> m = \<lfloor>?x\<rfloor> \<or> m = \<lceil>?x\<rceil>"
      unfolding set_filter by auto
    then show ?thesis using near by auto
  qed
qed

lemma strip_zeros_value: "strip_zeros m e = (m', e') \<Longrightarrow> of_nat m' * 10 powi e' = (of_nat m * 10 powi e :: rat) \<and> (m' = 0 \<longleftrightarrow> m = 0)"
proof (induction m e arbitrary: m' e' rule: strip_zeros.induct)
  case (1 m e)
  show ?case
  proof (cases "m = 0 \<or> m mod 10 \<noteq> 0")
    case True
    then show ?thesis using "1.prems" by (auto simp: strip_zeros.simps [of m])
  next
    case False
    then have s: "strip_zeros (m div 10) (e + 1) = (m', e')" using "1.prems" by (simp add: strip_zeros.simps [of m])
    have "m = 10 * (m div 10)" using False by auto
    then have "(of_nat m :: rat) = 10 * of_nat (m div 10)" by (metis of_nat_mult of_nat_numeral)
    then show ?thesis using "1.IH" [OF False s] False by (auto simp: power_int_add)
  qed
qed


lemma powi_ten_split: "e \<le> d \<Longrightarrow> (10 :: rat) powi d = of_int (10 ^ nat (d - e)) * 10 powi e"
proof -
  assume "e \<le> d"
  then have "(10 :: rat) powi (d - e) = of_int (10 ^ nat (d - e))" by (simp add: power_int_def)
  then show ?thesis using power_int_add [of "10 :: rat" "d - e" e] by simp
qed

lemma shortest_reads:
  assumes "0 < q" "rnd q = q" "shortest q = (m, e)"
  shows "rnd (of_nat m * 10 powi e) = q \<and> 0 < m
    \<and> 10 powi base_exp 10 q \<le> (of_nat m * 10 powi e :: rat) \<and> (of_nat m * 10 powi e :: rat) \<le> 10 powi (base_exp 10 q + 1)"
proof -
  let ?d = "base_exp 10 q"
  obtain m0 e0 where s: "shortest_from q ?d = (m0, e0)" by fastforce
  have m0: "reads_back q e0 m0" "e0 \<le> ?d" "m0 = \<lfloor>q / 10 powi e0\<rfloor> \<or> m0 = \<lceil>q / 10 powi e0\<rceil>"
    using shortest_from_reads [OF assms(1,2) s] by blast+
  have b: "10 powi ?d \<le> q" "q < 10 powi (?d + 1)" using base_exp_bounds [OF assms(1), of 10] by simp_all
  define lo hi where "lo = (10 ^ nat (?d - e0) :: int)" and "hi = (10 ^ nat (?d + 1 - e0) :: int)"
  have lo: "(10 :: rat) powi ?d = of_int lo * 10 powi e0" unfolding lo_def by (rule powi_ten_split [OF m0(2)])
  have hi: "(10 :: rat) powi (?d + 1) = of_int hi * 10 powi e0" unfolding hi_def using m0(2) by (intro powi_ten_split) simp
  have "of_int lo \<le> q / 10 powi e0" "q / 10 powi e0 \<le> of_int hi"
    using b lo hi by (simp_all add: le_divide_eq divide_le_eq)
  then have m0b: "lo \<le> m0" "m0 \<le> hi" using m0(3) by linarith+
  have "0 < lo" by (simp add: lo_def)
  then have pos: "0 < m0" using m0b(1) by simp
  have "strip_zeros (nat m0) e0 = (m, e)" using assms(3) s by (simp add: shortest_def)
  then have v: "of_nat m * 10 powi e = (of_int m0 * 10 powi e0 :: rat)" "m \<noteq> 0" using strip_zeros_value [of "nat m0" e0 m e] pos by auto
  show ?thesis using v m0(1) m0b unfolding lo hi by (simp add: reads_back_def)
qed

section \<open>The text of a float\<close>

lemma digits_zeros: "digits_value n (replicate k CHR ''0'') = n * 10 ^ k"
  by (induction k arbitrary: n) (simp_all add: digit_value_def is_digit_def in_range_def)

lemma digits_value_zeros: "digits_value 0 (replicate k CHR ''0'' @ ds) = digits_value 0 ds"
  by (simp add: digits_zeros)

lemma digit_zero: "is_digit CHR ''0''"
  by (simp add: is_digit_def in_range_def)

text \<open>Both forms of the digits of \<open>m\<close> have the value \<open>m\<close> scaled by the place of the point.\<close>

lemma show_nat_lead: "0 < m \<Longrightarrow> hd (show_nat m) \<noteq> CHR ''0''"
proof (induction m rule: show_nat.induct)
  case (1 m)
  have "char_of (48 + m) \<noteq> CHR ''0''" if "m < 10"
  proof
    assume "char_of (48 + m) = CHR ''0''"
    then have "byte_nat (char_of (48 + m)) = byte_nat (CHR ''0'')" by simp
    then show False using that "1.prems" by simp
  qed
  then show ?case using 1 by (subst show_nat.simps) (simp add: hd_append)
qed

definition lead_ok :: "bytes \<Rightarrow> bool" where
  "lead_ok a \<longleftrightarrow> (hd a = CHR ''0'' \<longrightarrow> length a = 1)"

lemma ex2I: "P a f \<Longrightarrow> \<exists>a f. P a f"
  by blast

lemma fixed_form_decimal:
  assumes "0 < m"
  shows "\<exists>a f. fixed_form (show_nat m) dp = decimal a f None \<and> decimal_ok a f None \<and> lead_ok a
     \<and> decimal_value a f None = of_nat m * 10 powi (dp - int (length (show_nat m)))"
proof -
  let ?ds = "show_nat m"
  obtain c ds where c: "?ds = c # ds" "is_digit c" "list_all is_digit ds" "c \<noteq> CHR ''0''"
    using show_nat_head [of m] show_nat_lead [OF assms] by auto
  have v: "digits_value 0 ?ds = m" by (rule foldl_show_nat)
  have all: "list_all is_digit ?ds" using c by simp
  consider "dp \<le> 0" | "0 < dp" "dp < int (length ?ds)" | "int (length ?ds) \<le> dp" "0 < dp" by linarith
  then show ?thesis
  proof cases
    case 1
    have "digits_value 0 (''0'' @ replicate (nat (- dp)) CHR ''0'' @ ?ds) = m"
      using digits_value_zeros [of "Suc (nat (- dp))" ?ds] v by simp
    then show ?thesis using 1 all
      by (intro ex2I [of _ "''0''" "replicate (nat (- dp)) CHR ''0'' @ ?ds"])
        (auto simp: fixed_form_def decimal_ok_def decimal_value_def lead_ok_def digit_zero list_all_iff)
  next
    case 2
    have "digits_value 0 (take (nat dp) ?ds @ drop (nat dp) ?ds) = m" using v by simp
    moreover have "hd (take (nat dp) ?ds) = c" "take (nat dp) ?ds \<noteq> []" using c 2(1) by (cases "nat dp"; simp)+
    moreover have "list_all is_digit (take (nat dp) ?ds)" "list_all is_digit (drop (nat dp) ?ds)"
      using all by (auto simp: list_all_iff dest: in_set_takeD in_set_dropD)
    ultimately show ?thesis using 2 c(4)
      by (intro ex2I [of _ "take (nat dp) ?ds" "drop (nat dp) ?ds"])
        (simp add: fixed_form_def decimal_ok_def decimal_value_def lead_ok_def)
  next
    case 3
    let ?z = "replicate (nat dp - length ?ds) CHR ''0''"
    have "digits_value 0 (?ds @ ?z) = m * 10 ^ (nat dp - length ?ds)" using v by (simp add: digits_zeros)
    moreover have "(10 :: rat) powi (dp - int (length ?ds)) = 10 ^ (nat dp - length ?ds)"
      using 3 by (simp add: power_int_def nat_diff_distrib)
    ultimately show ?thesis using 3 c all
      by (intro ex2I [of _ "?ds @ ?z" "[]"])
        (simp add: fixed_form_def decimal_ok_def decimal_value_def lead_ok_def digit_zero list_all_iff ball_Un)
  qed
qed

lemma exp_form_decimal:
  assumes "\<bar>dp - 1\<bar> < 10000"
  shows "\<exists>a f. exp_form (show_nat m) dp = decimal a f (Some (dp - 1)) \<and> decimal_ok a f (Some (dp - 1)) \<and> lead_ok a
     \<and> decimal_value a f (Some (dp - 1)) = of_nat m * 10 powi (dp - int (length (show_nat m)))"
proof -
  obtain c ds where c: "show_nat m = c # ds" "is_digit c" "list_all is_digit ds" using show_nat_head by blast
  have "digits_value 0 (c # ds) = m" using foldl_show_nat [of m] c by simp
  then show ?thesis using assms c
    by (intro ex2I [of _ "[c]" ds]) (simp add: exp_form_def decimal_ok_def decimal_value_def lead_ok_def diff_diff_eq)
qed

text \<open>The exponent printed is small: the number lies between two powers of ten next to \<open>q\<close>.\<close>

lemma show_nat_length: "0 < m \<Longrightarrow> 10 ^ (length (show_nat m) - 1) \<le> m \<and> m < 10 ^ length (show_nat m)"
proof (induction m rule: show_nat.induct)
  case (1 m)
  show ?case
  proof (cases "m < 10")
    case True
    then show ?thesis using "1.prems" by (simp add: show_nat.simps)
  next
    case False
    then have IH: "10 ^ (length (show_nat (m div 10)) - 1) \<le> m div 10" "m div 10 < 10 ^ length (show_nat (m div 10))"
      using 1 by auto
    have "length (show_nat m) = Suc (length (show_nat (m div 10)))" using False by (subst show_nat.simps) simp
    moreover obtain k where "length (show_nat (m div 10)) = Suc k"
      using list_all_digit_show_nat [of "m div 10"] by (cases "length (show_nat (m div 10))") auto
    moreover have "10 * (m div 10) \<le> m" "m < 10 * (m div 10) + 10" by simp_all
    ultimately show ?thesis using IH by simp
  qed
qed

lemma powi_ten_less: "(10 :: rat) powi i < 10 powi j \<longleftrightarrow> i < j" "(10 :: rat) powi i \<le> 10 powi j \<longleftrightarrow> i \<le> j"
proof -
  show l: "(10 :: rat) powi i < 10 powi j \<longleftrightarrow> i < j" for i j
    using power_int_strict_increasing [of i j "10 :: rat"] power_int_increasing [of j i "10 :: rat"] by (cases "i < j") auto
  show "(10 :: rat) powi i \<le> 10 powi j \<longleftrightarrow> i \<le> j" using l [of j i] by auto
qed

lemma base_exp_ten_bound:
  assumes "0 < q" "rnd q = q" "q < 2 ^ N" "M = (1074 :: nat)"
  shows "- int M < base_exp 10 q + 1 \<and> base_exp 10 q < int N"
proof -
  have b: "10 powi base_exp 10 q \<le> q" "q < 10 powi (base_exp 10 q + 1)" using base_exp_bounds [OF assms(1), of 10] by simp_all
  have "(2 :: rat) ^ N \<le> 10 ^ N" by (intro power_mono) simp_all
  then have "(10 :: rat) powi base_exp 10 q < 10 powi int N" using b(1) assms(3) by simp
  moreover obtain k u where k: "- int M \<le> u" "q = of_int k * 2 powi u" using float64_multiple [OF assms(1,2)] assms(4) by auto
  then have "1 \<le> k" using assms(1) power_int_two_pos [of u] by (auto simp: zero_less_mult_iff)
  then have "2 powi u \<le> q" unfolding k(2) by simp
  moreover have "(2 :: rat) powi (- int M) \<le> 2 powi u" using k(1) by (rule powi_two_mono)
  moreover have "(10 :: rat) powi (- int M) \<le> 2 powi (- int M)"
    by (simp add: power_int_minus le_imp_inverse_le power_mono)
  ultimately have "(10 :: rat) powi (- int M) < 10 powi (base_exp 10 q + 1)" using b(2) by linarith
  then show ?thesis using \<open>10 powi base_exp 10 q < 10 powi int N\<close> unfolding powi_ten_less by simp
qed

lemma printed_exponent:
  assumes "0 < m" "10 powi d \<le> (of_nat m * 10 powi e :: rat)" "(of_nat m * 10 powi e :: rat) \<le> 10 powi (d + 1)"
  shows "d \<le> int (length (show_nat m)) + e - 1 \<and> int (length (show_nat m)) + e - 1 \<le> d + 1"
proof -
  let ?n = "length (show_nat m)"
  have n: "0 < ?n" using list_all_digit_show_nat [of m] by (cases "show_nat m") auto
  have split: "(10 :: rat) powi (int k + e) = 10 ^ k * 10 powi e" for k by (simp add: power_int_add)
  have "(of_nat (10 ^ (?n - 1)) :: rat) \<le> of_nat m" "(of_nat m :: rat) < of_nat (10 ^ ?n)"
    using show_nat_length [OF assms(1)] by (simp_all only: of_nat_le_iff of_nat_less_iff)
  then have "10 powi (int (?n - 1) + e) \<le> (of_nat m * 10 powi e :: rat)" "(of_nat m * 10 powi e :: rat) < 10 powi (int ?n + e)"
    unfolding split by simp_all
  then have "(10 :: rat) powi (int (?n - 1) + e) \<le> 10 powi (d + 1)" "(10 :: rat) powi d < 10 powi (int ?n + e)"
    using assms(2,3) by linarith+
  then show ?thesis using n unfolding powi_ten_less by simp
qed

lemma float_text_decimal:
  assumes "is_float64 q" "0 < q"
  shows "\<exists>a f x. float_text q = decimal a f x \<and> float_text (- q) = CHR ''-'' # decimal a f x
    \<and> decimal_ok a f x \<and> lead_ok a \<and> rnd (decimal_value a f x) = q"
proof -
  obtain m e where s: "shortest q = (m, e)" by fastforce
  have q: "rnd q = q" "q < 2 ^ 1024" using assms by (simp_all add: is_float64_def)
  note m = shortest_reads [OF assms(2) q(1) s]
  let ?dp = "int (length (show_nat m)) + e"
  have v: "of_nat m * (10 :: rat) powi (?dp - int (length (show_nat m))) = of_nat m * 10 powi e" by simp
  have "\<bar>?dp - 1\<bar> < 10000"
    using printed_exponent [of m "base_exp 10 q" e] m base_exp_ten_bound [OF assms(2) q refl] by (simp add: abs_less_iff)
  note ex = exp_form_decimal [OF this, of m] and fx = fixed_form_decimal [of m ?dp]
  show ?thesis
  proof (cases "q < rnd (1 / 10 ^ 6) \<or> 10 ^ 21 \<le> q")
    case True
    then have "float_text q = exp_form (show_nat m) ?dp" "float_text (- q) = CHR ''-'' # exp_form (show_nat m) ?dp"
      using assms(2) s by (auto simp: float_text_def Let_def)
    then show ?thesis using ex m v by metis
  next
    case False
    then have "float_text q = fixed_form (show_nat m) ?dp" "float_text (- q) = CHR ''-'' # fixed_form (show_nat m) ?dp"
      using assms(2) s by (auto simp: float_text_def Let_def)
    then show ?thesis using fx m v by metis
  qed
qed

lemma ParseFloat_float_text: "is_float64 q \<Longrightarrow> ParseFloat (float_text q) = Inr (Fin q)"
proof -
  assume q: "is_float64 q"
  have neg: "is_float64 (- q)" using q by (simp add: is_float64_def rnd_minus)
  consider "q = 0" | "0 < q" | "0 < - q" by linarith
  then show ?thesis
  proof cases
    case 1
    have "ParseFloat (decimal ''0'' [] None) = Inr (Fin (rnd (decimal_value ''0'' [] None)))"
      by (rule ParseFloat_decimal(1)) (simp_all add: decimal_ok_def decimal_value_def digit_zero digit_value_def)
    then show ?thesis using 1 by (simp add: decimal_def exp_part_def decimal_value_def float_text_def digit_value_def digit_zero)
  next
    case 2
    then show ?thesis using float_text_decimal [OF q] ParseFloat_decimal(1) q by (force simp: is_float64_def)
  next
    case 3
    then show ?thesis using float_text_decimal [OF neg] ParseFloat_decimal(2) neg by (force simp: is_float64_def)
  qed
qed

section \<open>The text of a float is a JSON number\<close>

lemma scan_digits_all: "list_all is_digit ds \<Longrightarrow> s = [] \<or> \<not> is_digit (hd s) \<Longrightarrow> scan_digits (ds @ s) = (ds, s)"
proof (induction ds)
  case Nil
  then show ?case by (cases s) (auto simp: scan_digits_def)
qed (simp add: scan_digits_def)

lemma scan_exp_part: "scan_exp (exp_part x) = (exp_part x, [])"
proof (cases x)
  case (Some e)
  obtain c ds where c: "show_nat (nat \<bar>e\<bar>) = c # ds" "is_digit c" using show_nat_head by blast
  have "scan_digits (show_nat (nat \<bar>e\<bar>)) = (show_nat (nat \<bar>e\<bar>), [])"
    using scan_digits_all [OF list_all_digit_show_nat, of "[]"] by simp
  then show ?thesis using Some c by (auto simp: exp_part_def scan_exp_def scan_sign_def)
qed (simp add: exp_part_def scan_exp_def)

lemma scan_number_decimal:
  assumes "decimal_ok a f x" "lead_ok a"
  shows "scan_number (decimal a f x) = Some (decimal a f x, [])" "scan_number (CHR ''-'' # decimal a f x) = Some (CHR ''-'' # decimal a f x, [])"
proof -
  obtain c as where a: "a = c # as" "is_digit c" "list_all is_digit as" and f: "list_all is_digit f"
    using assms(1) by (cases a) (auto simp: decimal_ok_def)
  let ?f = "if f = [] then [] else CHR ''.'' # f"
  have e: "exp_part x = [] \<or> hd (exp_part x) = CHR ''e''" by (simp add: exp_part_def split: option.split)
  have nd: "\<not> is_digit (CHR ''e'')" "\<not> is_digit (CHR ''.'')" by (simp_all add: is_digit_def in_range_def)
  have "scan_digits (f @ exp_part x) = (f, exp_part x)" using f e nd by (intro scan_digits_all) auto
  then have frac: "scan_frac (?f @ exp_part x) = (?f, exp_part x)"
    using e by (cases "exp_part x") (auto simp: scan_frac_def)
  have "scan_digits (a @ ?f @ exp_part x) = (a, ?f @ exp_part x)"
    using a e nd by (intro scan_digits_all) (auto simp: hd_append)
  moreover have "as = []" if "c = CHR ''0''" using that assms(2) a by (simp add: lead_ok_def)
  ultimately have int: "scan_int (decimal a f x) = (a, ?f @ exp_part x)"
    using a by (auto simp: scan_int_def decimal_def)
  have "c \<noteq> CHR ''-''" using digit_not_letter [OF a(2)] by blast
  then have sg: "scan_sign ''-'' (decimal a f x) = ([], decimal a f x)" using a by (simp add: scan_sign_def decimal_def)
  have sg': "scan_sign ''-'' (CHR ''-'' # decimal a f x) = (''-'', decimal a f x)" by (simp add: scan_sign_def)
  show "scan_number (decimal a f x) = Some (decimal a f x, [])" "scan_number (CHR ''-'' # decimal a f x) = Some (CHR ''-'' # decimal a f x, [])"
    using a(1) unfolding scan_number_def sg sg' int frac scan_exp_part Let_def prod.case by (simp_all add: decimal_def)
qed

lemma scan_number_float_text: "is_float64 q \<Longrightarrow> scan_number (float_text q) = Some (float_text q, [])"
proof -
  assume q: "is_float64 q"
  have neg: "is_float64 (- q)" using q by (simp add: is_float64_def rnd_minus)
  consider "q = 0" | "0 < q" | "0 < - q" by linarith
  then show ?thesis
  proof cases
    case 1
    have "scan_number (decimal ''0'' [] None) = Some (decimal ''0'' [] None, [])"
      by (rule scan_number_decimal(1)) (simp_all add: decimal_ok_def lead_ok_def digit_zero)
    then show ?thesis using 1 by (simp add: decimal_def exp_part_def float_text_def)
  next
    case 2
    then show ?thesis using float_text_decimal [OF q] scan_number_decimal(1) by metis
  next
    case 3
    then show ?thesis using float_text_decimal [OF neg] scan_number_decimal(2) by (metis minus_minus)
  qed
qed

section \<open>Results of the program's arithmetic\<close>

text \<open>A rounded result is a \<open>float64\<close> value where its magnitude is bounded; the bounds carry through the operations.\<close>

definition bounded :: "nat \<Rightarrow> rat \<Rightarrow> bool" where
  "bounded k q \<longleftrightarrow> \<bar>q\<bar> \<le> 2 ^ k"

named_theorems bounded_intros

lemma rnd_bounded [bounded_intros]: "bounded k q \<Longrightarrow> bounded k (rnd q)"
proof -
  assume b: "bounded k q"
  have p: "rnd (2 ^ k) = 2 ^ k" using rnd_powi [of "int k"] by simp
  have "rnd q \<le> rnd (2 ^ k)" "rnd (- (2 ^ k)) \<le> rnd q" using b by (auto intro!: rnd_mono simp: bounded_def)
  then show ?thesis unfolding rnd_minus p by (simp add: bounded_def abs_le_iff)
qed

lemma float64_rnd: "bounded k q \<Longrightarrow> k < 1024 \<Longrightarrow> is_float64 (rnd q)"
proof -
  assume "bounded k q" "k < 1024"
  then have "\<bar>rnd q\<bar> \<le> 2 ^ k" using rnd_bounded by (simp add: bounded_def)
  also have "(2 :: rat) ^ k < 2 ^ 1024" using \<open>k < 1024\<close> by (rule power_strict_increasing) simp
  finally show ?thesis by (simp add: is_float64_def)
qed

lemma bounded_mult [bounded_intros]: "bounded k p \<Longrightarrow> bounded l q \<Longrightarrow> bounded (k + l) (p * q)"
  by (auto simp: bounded_def abs_mult power_add intro: mult_mono)

lemma bounded_u64 [bounded_intros]: "bounded 64 (of_u64 w)"
proof -
  have "unat w \<le> 2 ^ 64" using unsigned_less [of w, where 'a = nat] by simp
  then have "(of_nat (unat w) :: rat) \<le> of_nat (2 ^ 64)" by (simp only: of_nat_le_iff)
  then have "bounded 64 (of_nat (unat w))" unfolding bounded_def abs_of_nat by (simp only: of_nat_power of_nat_numeral)
  then show ?thesis unfolding of_u64_def by (rule rnd_bounded)
qed

lemma of_u64_zero_or_one: "of_u64 w = 0 \<or> 1 \<le> of_u64 w"
  using binary64.ge_one [OF one_le_of_u64, of w] by (cases "w = 0") (simp_all add: of_u64_def word_neq_0_conv)

lemma bounded_u64_ratio [bounded_intros]: "bounded k p \<Longrightarrow> bounded k (p / of_u64 w)"
proof -
  assume b: "bounded k p"
  show ?thesis
  proof (cases "of_u64 w = 0")
    case False
    then have "1 \<le> of_u64 w" using of_u64_zero_or_one by blast
    then have "\<bar>p\<bar> / of_u64 w \<le> \<bar>p\<bar> / 1" by (intro divide_left_mono) simp_all
    then show ?thesis using b \<open>1 \<le> of_u64 w\<close> by (simp add: bounded_def)
  qed (simp add: bounded_def)
qed

lemma bounded_hundred [bounded_intros]: "bounded 7 100"
  by (simp add: bounded_def)

lemma percent_of_float64 [simp]: "0 < b \<Longrightarrow> is_float64 (percent_of a b)"
  unfolding percent_of_eq
  by (rule float64_rnd, (rule bounded_intros)+) simp

lemma float64_zero [simp]: "is_float64 0"
  by (simp add: is_float64_def)

end
