(* ===== verification/GoDate.thy ===== *)
theory GoDate
  imports GoText
begin

text \<open>
  What the program uses of \<^verbatim>\<open>time.Time\<close>: \<^verbatim>\<open>IsZero\<close>, and \<^verbatim>\<open>t.UTC().Format(time.RFC3339)\<close>. Go's zero time is the
  first of January of the year 1. The date is the one of the proleptic
  Gregorian calendar, found by 400, 100, 4 and 1 year cycles.
\<close>

definition IsZero :: "time \<Rightarrow> bool" where
  "IsZero t \<longleftrightarrow> t = 0"

definition leap :: "nat \<Rightarrow> bool" where
  "leap y \<longleftrightarrow> 4 dvd y \<and> (\<not> 100 dvd y \<or> 400 dvd y)"

text \<open>Days before the first of January of the year \<open>y + 1\<close>.\<close>

definition days_before_year :: "nat \<Rightarrow> nat" where
  "days_before_year y = 365 * y + y div 4 - y div 100 + y div 400"

text \<open>The year, less one, and the day of the year of a day.\<close>

definition year_day :: "nat \<Rightarrow> nat \<times> nat" where
  "year_day d =
     (let n400 = d div 146097; d = d mod 146097;
          n100 = min 3 (d div 36524); d = d - 36524 * n100;
          n4 = d div 1461; d = d mod 1461;
          n = min 3 (d div 365); d = d - 365 * n
      in (400 * n400 + 100 * n100 + 4 * n4 + n, d))"

definition month_lengths :: "nat \<Rightarrow> nat list" where
  "month_lengths y = [31, if leap y then 29 else 28, 31, 30, 31, 30, 31, 31, 30, 31, 30, 31]"

fun month_day :: "nat \<Rightarrow> nat list \<Rightarrow> nat \<Rightarrow> nat \<times> nat" where
  "month_day m [] d = (m, d)"
| "month_day m (l # ls) d = (if d < l then (m, d) else month_day (Suc m) ls (d - l))"

text \<open>Year, month and day of the month, the last two counted from one.\<close>

definition date_of :: "nat \<Rightarrow> nat \<times> nat \<times> nat" where
  "date_of d =
     (let (y, yd) = year_day d; (m, md) = month_day 1 (month_lengths (Suc y)) yd in (Suc y, m, Suc md))"

definition days_of :: "nat \<times> nat \<times> nat \<Rightarrow> nat" where
  "days_of ymd =
     (case ymd of (y, m, d) \<Rightarrow> days_before_year (y - 1) + sum_list (take (m - 1) (month_lengths y)) + (d - 1))"

definition pad :: "nat \<Rightarrow> nat \<Rightarrow> bytes" where
  "pad w n = replicate (w - length (show_nat n)) (CHR ''0'') @ show_nat n"

text \<open>A year with at least four digits after its sign.\<close>

definition year_text :: "int \<Rightarrow> bytes" where
  "year_text y = (if y < 0 then ''-'' else []) @ pad 4 (nat \<bar>y\<bar>)"

text \<open>The calendar repeats every 400 years, so a day before the year 1 is read off the same day of a later cycle.\<close>

definition FormatRFC3339 :: "time \<Rightarrow> bytes" where
  "FormatRFC3339 t =
     (let secs = t div second; day = secs div 86400; s = nat (secs mod 86400);
          (y, m, d) = date_of (nat (day mod 146097))
      in year_text (int y + 400 * (day div 146097)) @ ''-'' @ pad 2 m @ ''-'' @ pad 2 d @ ''T''
         @ pad 2 (s div 3600) @ '':'' @ pad 2 (s div 60 mod 60) @ '':'' @ pad 2 (s mod 60) @ ''Z'')"

section \<open>The date is the right one\<close>

lemma year_day_correct:
  "days_before_year (fst (year_day d)) + snd (year_day d) = d
     \<and> snd (year_day d) < (if leap (Suc (fst (year_day d))) then 366 else 365)"
proof -
  define a r1 where "a = d div 146097" and "r1 = d mod 146097"
  define b where "b = min 3 (r1 div 36524)"
  define r2 where "r2 = r1 - 36524 * b"
  define c r3 where "c = r2 div 1461" and "r3 = r2 mod 1461"
  define n where "n = min 3 (r3 div 365)"
  define r4 where "r4 = r3 - 365 * n"
  have yd: "year_day d = (400 * a + 100 * b + 4 * c + n, r4)"
    unfolding year_day_def Let_def a_def r1_def b_def r2_def c_def r3_def n_def r4_def ..
  have d: "d = 146097 * a + r1" "r1 < 146097" unfolding a_def r1_def by simp_all
  have b: "b \<le> 3" "36524 * b \<le> r1" "r1 < 36524 * b + 36525" "b < 3 \<Longrightarrow> r1 < 36524 * b + 36524"
    using d(2) unfolding b_def by (auto simp: min_def) 
  have r2: "r1 = 36524 * b + r2" "r2 < 36525" "b < 3 \<Longrightarrow> r2 < 36524" using b unfolding r2_def by auto
  have c: "r2 = 1461 * c + r3" "r3 < 1461" unfolding c_def r3_def by simp_all
  have c24: "c \<le> 24" using c r2 by linarith
  have n: "n \<le> 3" "365 * n \<le> r3" "r3 < 365 * n + 366" "n < 3 \<Longrightarrow> r3 < 365 * n + 365"
    using c(2) unfolding n_def by (auto simp: min_def)
  have r4: "r3 = 365 * n + r4" "r4 < 366" "n < 3 \<Longrightarrow> r4 < 365" using n unfolding r4_def by auto
  have last: "r4 < 365" if "c = 24" "b < 3" using that c r2 r4 n by linarith
  let ?y = "400 * a + 100 * b + 4 * c + n"
  have y: "?y div 4 = 100 * a + 25 * b + c" "?y div 100 = 4 * a + b" "?y div 400 = a"
    by (rule div_nat_eqI; use b(1) c24 n(1) in simp)+
  have "days_before_year ?y + r4 = d"
    unfolding days_before_year_def y using d r2 c r4 b by simp
  moreover have "r4 < 365" if "\<not> leap (Suc ?y)"
  proof (cases "n < 3")
    case False
    then have "n = 3" using n by simp
    then have s4: "Suc ?y = 4 * (100 * a + 25 * b + c + 1)" "Suc ?y = 100 * (4 * a + b) + (4 * c + 4)" by simp_all
    then have "4 dvd Suc ?y" by (metis dvd_triv_left)
    with that have h: "100 dvd Suc ?y" "\<not> 400 dvd Suc ?y" by (auto simp: leap_def)
    have "100 dvd 4 * c + 4" using h(1) unfolding s4(2) by (simp only: dvd_add_right_iff dvd_triv_left)
    then obtain k where k: "4 * c + 4 = 100 * k" ..
    then have "k \<noteq> 0" "k \<le> 1" using c24 by auto
    then have "k = 1" by simp
    then have "c = 24" using k by simp
    moreover have "b < 3"
    proof (rule ccontr)
      assume "\<not> b < 3"
      then have "Suc ?y = 400 * (a + 1)" using b(1) \<open>c = 24\<close> \<open>n = 3\<close> by simp
      then show False using h(2) by (metis dvd_triv_left)
    qed
    ultimately show ?thesis by (rule last)
  qed (rule r4(3))
  ultimately show ?thesis using yd r4(2) by auto
qed

lemma month_day_correct:
  "d < sum_list ls \<Longrightarrow>
   (case month_day m ls d of (m', d') \<Rightarrow> m \<le> m' \<and> m' - m < length ls \<and> d' < ls ! (m' - m)
      \<and> sum_list (take (m' - m) ls) + d' = d)"
proof (induction m ls d rule: month_day.induct)
  case (2 m l ls d)
  show ?case
  proof (cases "d < l")
    case False
    then have lt: "d - l < sum_list ls" using "2.prems" by simp
    obtain m' d' where md: "month_day (Suc m) ls (d - l) = (m', d')" by fastforce
    have ih: "Suc m \<le> m'" "m' - Suc m < length ls" "d' < ls ! (m' - Suc m)"
      "sum_list (take (m' - Suc m) ls) + d' = d - l"
      using "2.IH" [OF False lt] by (simp_all add: md)
    have "m' - m = Suc (m' - Suc m)" using ih(1) by simp
    then show ?thesis using ih False by (simp add: md)
  qed simp
qed simp

lemma sum_month_lengths: "sum_list (month_lengths y) = (if leap y then 366 else 365)"
  by (simp add: month_lengths_def)

text \<open>Every day has a date of the calendar, and that date is the day's.\<close>

lemma date_of_correct:
  "case date_of d of (y, m, md) \<Rightarrow>
     1 \<le> y \<and> 1 \<le> m \<and> m \<le> 12 \<and> 1 \<le> md \<and> md \<le> month_lengths y ! (m - 1) \<and> days_of (y, m, md) = d"
proof -
  obtain y yd where y: "year_day d = (y, yd)" by fastforce
  have yd: "days_before_year y + yd = d" "yd < sum_list (month_lengths (Suc y))"
    using year_day_correct [of d] by (simp_all add: y sum_month_lengths)
  obtain m md where m: "month_day 1 (month_lengths (Suc y)) yd = (m, md)" by fastforce
  have "length (month_lengths (Suc y)) = 12" by (simp add: month_lengths_def)
  moreover have "date_of d = (Suc y, m, Suc md)" by (simp only: date_of_def Let_def y m prod.case)
  ultimately show ?thesis using month_day_correct [OF yd(2), of 1] yd(1)
    by (auto simp: days_of_def m [simplified])
qed

end
