(* ===== verification/GoDecode.thy ===== *)
theory GoDecode
  imports GoJson GoDate "HOL-Library.AList"
begin

text \<open>
  \<^verbatim>\<open>json.Unmarshal\<close> into Go values. A decoder takes the parsed text and the value that stands in the target,
  and returns what it is turned into, or nothing where Go reports an error: after an error the program never
  looks at what was decoded. As in Go, \<^verbatim>\<open>null\<close> leaves a plain value as it is and clears a pointer, a slice or a
  map; an object is decoded key by key into the same struct; keys are matched exactly or, failing that,
  without regard to case, and unknown ones are skipped.
\<close>

type_synonym 'a dec = "jval \<Rightarrow> 'a \<Rightarrow> 'a option"

section \<open>Strings\<close>

text \<open>\<^verbatim>\<open>utf8.EncodeRune\<close>, and the rune of the four digits of \<^verbatim>\<open>\u\<close>.\<close>

definition EncodeRune :: "nat \<Rightarrow> bytes" where
  "EncodeRune r0 =
     (let r = (if 0x10FFFF < r0 \<or> in_range 0xD800 0xDFFF r0 then RuneError else r0);
          c = (\<lambda>k. char_of (0x80 + r div 64 ^ k mod 64))
      in if r < 0x80 then [char_of r]
         else if r < 0x800 then [char_of (0xC0 + r div 64), c 0]
         else if r < 0x10000 then [char_of (0xE0 + r div 4096), c 1, c 0]
         else [char_of (0xF0 + r div 262144), c 2, c 1, c 0])"

definition hex4 :: "bytes \<Rightarrow> nat" where
  "hex4 s = foldl (\<lambda>n c. 16 * n + (case hex_digit c of None \<Rightarrow> 0 | Some d \<Rightarrow> d)) 0 (take 4 s)"

text \<open>\<^verbatim>\<open>utf16.DecodeRune\<close> on a surrogate and the escape that follows it, if one does.\<close>

definition low_surrogate :: "bytes \<Rightarrow> nat option" where
  "low_surrogate s =
     (if take 2 s = [backslash, CHR ''u''] \<and> in_range 0xDC00 0xDFFF (hex4 (drop 2 s)) then Some (hex4 (drop 2 s)) else None)"

function unquote_json :: "bytes \<Rightarrow> bytes" where
  "unquote_json s =
     (case s of [] \<Rightarrow> []
      | c # cs \<Rightarrow>
          if c = backslash then
            (case cs of [] \<Rightarrow> []
             | d # ds \<Rightarrow>
                 if d = CHR ''u'' then
                   (let r = hex4 ds; rest = drop 4 ds
                    in if in_range 0xD800 0xDBFF r
                       then (case low_surrogate rest of
                               Some l \<Rightarrow> EncodeRune ((r - 0xD800) * 0x400 + (l - 0xDC00) + 0x10000) @ unquote_json (drop 6 rest)
                             | None \<Rightarrow> EncodeRune RuneError @ unquote_json rest)
                       else EncodeRune r @ unquote_json rest)
                 else (case simple_escape d of None \<Rightarrow> [] | Some x \<Rightarrow> x # unquote_json ds))
          else (case DecodeRune s of (r, w) \<Rightarrow> EncodeRune r @ unquote_json (drop (max 1 w) s)))"
  by pat_completeness auto
termination
  by (relation "measure length") auto

declare unquote_json.simps [simp del]

text \<open>\<^verbatim>\<open>foldName\<close>: the keys \<open>a\<close> and \<open>b\<close> match without regard to case. Of the runes outside ASCII only two fold to a letter of ASCII.\<close>

function fold_name :: "bytes \<Rightarrow> bytes" where
  "fold_name s =
     (if s = [] then []
      else if HasPrefix s [CHR 0xC5, CHR 0xBF] then CHR ''S'' # fold_name (drop 2 s)
      else if HasPrefix s [CHR 0xE2, CHR 0x84, CHR 0xAA] then CHR ''K'' # fold_name (drop 3 s)
      else (if in_range 97 122 (byte_nat (hd s)) then char_of (byte_nat (hd s) - 32) else hd s) # fold_name (tl s))"
  by pat_completeness auto
termination
  by (relation "measure length") (auto simp: length_greater_0_conv)

declare fold_name.simps [simp del]

section \<open>Decoders\<close>

definition dec_string :: "bytes dec" where
  "dec_string v old = (case v of VStr s \<Rightarrow> Some (unquote_json s) | VNull \<Rightarrow> Some old | _ \<Rightarrow> None)"

definition dec_bool :: "bool dec" where
  "dec_bool v old = (case v of VBool b \<Rightarrow> Some b | VNull \<Rightarrow> Some old | _ \<Rightarrow> None)"

definition dec_uint64 :: "u64 dec" where
  "dec_uint64 v old =
     (case v of VNum n \<Rightarrow> (case ParseUint n of Inl _ \<Rightarrow> None | Inr w \<Rightarrow> Some w) | VNull \<Rightarrow> Some old | _ \<Rightarrow> None)"

text \<open>\<^verbatim>\<open>strconv.ParseInt(s, 10, 64)\<close> on the literal of a JSON number.\<close>

definition ParseInt :: "bytes \<Rightarrow> int option" where
  "ParseInt s =
     (let neg = (s \<noteq> [] \<and> hd s = CHR ''-'')
      in case ParseUint (if neg then tl s else s) of Inl _ \<Rightarrow> None
         | Inr w \<Rightarrow> if neg then (if unat w \<le> 2 ^ 63 then Some (- int (unat w)) else None)
                   else (if unat w < 2 ^ 63 then Some (int (unat w)) else None))"

definition dec_int :: "int dec" where
  "dec_int v old = (case v of VNum n \<Rightarrow> ParseInt n | VNull \<Rightarrow> Some old | _ \<Rightarrow> None)"

definition dec_ptr :: "'a \<Rightarrow> 'a dec \<Rightarrow> 'a option dec" where
  "dec_ptr z d v old =
     (if v = VNull then Some None else map_option Some (d v (case old of None \<Rightarrow> z | Some x \<Rightarrow> x)))"

fun dec_elems :: "'a \<Rightarrow> 'a dec \<Rightarrow> jval list \<Rightarrow> 'a list \<Rightarrow> 'a list option" where
  "dec_elems z d [] old = Some []"
| "dec_elems z d (v # vs) old =
     (case d v (case old of [] \<Rightarrow> z | x # _ \<Rightarrow> x) of None \<Rightarrow> None
      | Some y \<Rightarrow> map_option (Cons y) (dec_elems z d vs (tl old)))"

definition dec_slice :: "'a \<Rightarrow> 'a dec \<Rightarrow> 'a list dec" where
  "dec_slice z d v old = (case v of VArr vs \<Rightarrow> dec_elems z d vs old | VNull \<Rightarrow> Some [] | _ \<Rightarrow> None)"

fun dec_pairs :: "'a \<Rightarrow> 'a dec \<Rightarrow> (bytes \<times> jval) list \<Rightarrow> (bytes \<times> 'a) list \<Rightarrow> (bytes \<times> 'a) list option" where
  "dec_pairs z d [] m = Some m"
| "dec_pairs z d ((k, v) # ps) m =
     (case d v z of None \<Rightarrow> None | Some x \<Rightarrow> dec_pairs z d ps (AList.update (unquote_json k) x m))"

definition dec_map :: "'a \<Rightarrow> 'a dec \<Rightarrow> (bytes \<times> 'a) list option dec" where
  "dec_map z d v old =
     (case v of VObj ps \<Rightarrow> map_option Some (dec_pairs z d ps (case old of None \<Rightarrow> [] | Some m \<Rightarrow> m))
      | VNull \<Rightarrow> Some None | _ \<Rightarrow> None)"

text \<open>A struct: its fields by their JSON names, each with the decoder that works on the whole struct.\<close>

definition field_of :: "(bytes \<times> 'r dec) list \<Rightarrow> bytes \<Rightarrow> 'r dec option" where
  "field_of fs key =
     (case map_of fs key of Some u \<Rightarrow> Some u
      | None \<Rightarrow> map_of (map (apfst fold_name) fs) (fold_name key))"

fun dec_fields :: "(bytes \<times> 'r dec) list \<Rightarrow> (bytes \<times> jval) list \<Rightarrow> 'r \<Rightarrow> 'r option" where
  "dec_fields fs [] r = Some r"
| "dec_fields fs ((k, v) # ps) r =
     (case field_of fs (unquote_json k) of None \<Rightarrow> dec_fields fs ps r
      | Some u \<Rightarrow> (case u v r of None \<Rightarrow> None | Some r' \<Rightarrow> dec_fields fs ps r'))"

definition dec_struct :: "(bytes \<times> 'r dec) list \<Rightarrow> 'r dec" where
  "dec_struct fs v r = (case v of VObj ps \<Rightarrow> dec_fields fs ps r | VNull \<Rightarrow> Some r | _ \<Rightarrow> None)"

text \<open>A field of a record: how it is read and how it is set.\<close>

definition sub :: "('r \<Rightarrow> 'a) \<Rightarrow> (('a \<Rightarrow> 'a) \<Rightarrow> 'r \<Rightarrow> 'r) \<Rightarrow> 'a dec \<Rightarrow> 'r dec" where
  "sub get upd d v r = map_option (\<lambda>x. upd (\<lambda>_. x) r) (d v (get r))"

definition Unmarshal :: "'a dec \<Rightarrow> 'a \<Rightarrow> bytes \<Rightarrow> 'a option" where
  "Unmarshal d z data = (case json_parse data of None \<Rightarrow> None | Some v \<Rightarrow> d v z)"

section \<open>Times\<close>

text \<open>
  \<^verbatim>\<open>Time.UnmarshalJSON\<close>: the bytes between the quotes, with no escape resolved, are an RFC 3339 time with
  two digits for the hour, a point before the fraction and a zone of less than a day.
\<close>

definition fixed_num :: "nat \<Rightarrow> nat \<Rightarrow> bytes \<Rightarrow> nat option" where
  "fixed_num lo hi s =
     (let n = foldl (\<lambda>n c. 10 * n + (byte_nat c - 48)) 0 s
      in if list_all is_digit s \<and> in_range lo hi n then Some n else None)"

definition nanoseconds :: "bytes \<Rightarrow> nat" where
  "nanoseconds ds = foldl (\<lambda>n c. 10 * n + (byte_nat c - 48)) 0 (take 9 (ds @ replicate 9 (CHR ''0'')))"

definition days_in :: "nat \<Rightarrow> nat \<Rightarrow> nat" where
  "days_in y m = month_lengths y ! (m - 1)"

definition rfc_fraction :: "bytes \<Rightarrow> nat \<times> bytes" where
  "rfc_fraction s =
     (case s of [] \<Rightarrow> (0, s)
      | c # cs \<Rightarrow> if c = CHR ''.'' \<and> fst (scan_digits cs) \<noteq> [] then apfst nanoseconds (scan_digits cs) else (0, s))"

definition rfc_zone :: "bytes \<Rightarrow> int option" where
  "rfc_zone s =
     (if s = ''Z'' then Some 0
      else if length s = 6 \<and> hd s \<in> {CHR ''+'', CHR ''-''} \<and> s ! 3 = CHR '':'' then
        (case (fixed_num 0 23 (take 2 (drop 1 s)), fixed_num 0 59 (drop 4 s)) of
           (Some h, Some m) \<Rightarrow> Some ((if hd s = CHR ''-'' then - 1 else 1) * int ((h * 60 + m) * 60))
         | _ \<Rightarrow> None)
      else None)"

definition rfc_date :: "bytes \<Rightarrow> (nat \<times> nat \<times> nat) option" where
  "rfc_date s =
     (case (fixed_num 0 9999 (take 4 s), fixed_num 1 12 (take 2 (drop 5 s))) of
        (Some y, Some m) \<Rightarrow>
          (case fixed_num 1 (days_in y m) (take 2 (drop 8 s)) of Some d \<Rightarrow> Some (y, m, d) | None \<Rightarrow> None)
      | _ \<Rightarrow> None)"

definition rfc_clock :: "bytes \<Rightarrow> nat option" where
  "rfc_clock s =
     (case (fixed_num 0 23 (take 2 (drop 11 s)), fixed_num 0 59 (take 2 (drop 14 s)), fixed_num 0 59 (take 2 (drop 17 s))) of
        (Some h, Some m, Some sec) \<Rightarrow> Some (h * 3600 + m * 60 + sec)
      | _ \<Rightarrow> None)"

text \<open>The days before a date, counted from the first of January of the year 1, by way of the same date 400 years later.\<close>

definition date_days :: "nat \<times> nat \<times> nat \<Rightarrow> int" where
  "date_days ymd = (case ymd of (y, m, d) \<Rightarrow> int (days_of (y + 400, m, d)) - 146097)"

definition parseRFC3339 :: "bytes \<Rightarrow> time option" where
  "parseRFC3339 s =
     (if length s < 19 \<or> s ! 4 \<noteq> CHR ''-'' \<or> s ! 7 \<noteq> CHR ''-'' \<or> s ! 10 \<noteq> CHR ''T'' \<or> s ! 13 \<noteq> CHR '':'' \<or> s ! 16 \<noteq> CHR '':''
      then None
      else case rfc_fraction (drop 19 s) of (nsec, rest) \<Rightarrow>
        (case (rfc_date s, rfc_clock s, rfc_zone rest) of
           (Some ymd, Some clock, Some offset) \<Rightarrow>
             Some ((date_days ymd * 86400 + int clock - offset) * second + int nsec)
         | _ \<Rightarrow> None))"

definition dec_time :: "time dec" where
  "dec_time v old = (case v of VStr s \<Rightarrow> parseRFC3339 s | VNull \<Rightarrow> Some old | _ \<Rightarrow> None)"

section \<open>Facts about decoding\<close>

lemma unquote_json_plain: "list_all plain_byte s \<Longrightarrow> unquote_json s = s"
proof (induction s)
  case (Cons c s)
  then have "c \<noteq> backslash" "DecodeRune (c # s) = (byte_nat c, 1)" "EncodeRune (byte_nat c) = [c]"
    by (auto simp: plain_byte_def in_range_def DecodeRune_def EncodeRune_def Let_def)
  then show ?case using Cons by (subst unquote_json.simps) simp
qed (simp add: unquote_json.simps)

text \<open>Keys that name no field are skipped.\<close>

definition known_pairs :: "(bytes \<times> 'r dec) list \<Rightarrow> (bytes \<times> jval) list \<Rightarrow> (bytes \<times> jval) list" where
  "known_pairs fs ps = filter (\<lambda>(k, _). field_of fs (unquote_json k) \<noteq> None) ps"

lemma dec_fields_known: "dec_fields fs ps r = dec_fields fs (known_pairs fs ps) r"
  by (induction fs ps r rule: dec_fields.induct) (auto simp: known_pairs_def split: option.split)

lemma field_of_exact: "map_of fs key = Some u \<Longrightarrow> field_of fs key = Some u"
  by (simp add: field_of_def)

lemma dec_string_VStr [simp]: "dec_string (VStr s) old = Some (unquote_json s)"
  by (simp add: dec_string_def)

lemma dec_elems_map:
  assumes "list_all2 (\<lambda>v x. d v z = Some x) vs xs"
  shows "dec_elems z d vs [] = Some xs"
  using assms by (induction rule: list_all2_induct) simp_all

lemma Unmarshal_text: "json_text v s \<Longrightarrow> jval_ok v \<Longrightarrow> Unmarshal d z s = d v z"
  by (simp add: Unmarshal_def json_parse_text)

text \<open>Go's zero time, which Docker sends for a container that is not running, and the second after it.\<close>

lemma parse_zero_time: "parseRFC3339 ''0001-01-01T00:00:00Z'' = Some 0"
  by (simp add: parseRFC3339_def rfc_fraction_def rfc_date_def rfc_clock_def rfc_zone_def fixed_num_def is_digit_def in_range_def
      days_in_def date_days_def days_of_def days_before_year_def month_lengths_def Let_def)

lemma parse_second_one: "parseRFC3339 ''0001-01-01T00:00:01Z'' = Some second"
  by (simp add: parseRFC3339_def rfc_fraction_def rfc_date_def rfc_clock_def rfc_zone_def fixed_num_def is_digit_def in_range_def
      days_in_def date_days_def days_of_def days_before_year_def month_lengths_def Let_def)

lemma field_of_fold:
  assumes "field_of fs key = Some u"
  shows "\<exists>n. (n, u) \<in> set fs \<and> fold_name n = fold_name key"
proof (cases "map_of fs key")
  case None
  then have "map_of (map (apfst fold_name) fs) (fold_name key) = Some u" using assms by (simp add: field_of_def)
  then have "(fold_name key, u) \<in> set (map (apfst fold_name) fs)" by (rule map_of_SomeD)
  then show ?thesis by auto
next
  case (Some w)
  then show ?thesis using assms map_of_SomeD [OF Some] by (auto simp: field_of_def)
qed

text \<open>What no decoded key changes is kept.\<close>

lemma dec_fields_keep:
  assumes "dec_fields fs ps r = Some r'"
    and "\<And>k v n u r r'. (k, v) \<in> set ps \<Longrightarrow> (n, u) \<in> set fs \<Longrightarrow> fold_name n = fold_name (unquote_json k) \<Longrightarrow> u v r = Some r' \<Longrightarrow> keep r' = keep r"
  shows "keep r' = keep r"
  using assms
proof (induction ps arbitrary: r)
  case (Cons p ps)
  obtain k v where p: "p = (k, v)" by (cases p)
  show ?case
  proof (cases "field_of fs (unquote_json k)")
    case None
    then show ?thesis using Cons.IH [of r] Cons.prems p by (simp, blast)
  next
    case (Some u)
    then obtain r1 where r1: "u v r = Some r1" "dec_fields fs ps r1 = Some r'"
      using Cons.prems(1) p by (auto split: option.splits)
    moreover obtain n where "(n, u) \<in> set fs" "fold_name n = fold_name (unquote_json k)" using field_of_fold [OF Some] by blast
    ultimately have "keep r1 = keep r" using Cons.prems(2) [of k v n u r r1] p by simp
    moreover have "keep r' = keep r1" using Cons.IH [OF r1(2)] Cons.prems(2) by (meson list.set_intros(2))
    ultimately show ?thesis by simp
  qed
qed simp

end
