(* ===== verification/GoQuote.thy ===== *)
theory GoQuote
  imports GoDecode
begin

text \<open>
  How \<^verbatim>\<open>json.Marshal\<close> writes a string (\<^verbatim>\<open>appendString\<close> of \<^verbatim>\<open>encoding/json\<close> with HTML escaping, as \<^verbatim>\<open>Marshal\<close>
  has it): quotes, backslashes and the control characters are escaped, so are the characters that matter to HTML and
  the two line separators of JavaScript, and a byte that belongs to no valid UTF-8 sequence becomes the
  replacement rune. A log line is arbitrary bytes, so this is what decides what arrives.
\<close>

definition hex_char :: "nat \<Rightarrow> char" where
  "hex_char d = char_of (if d < 10 then 48 + d else 87 + d)"

definition u_escape :: "nat \<Rightarrow> bytes" where
  "u_escape r = [backslash, CHR ''u'', hex_char (r div 4096 mod 16), hex_char (r div 256 mod 16), hex_char (r div 16 mod 16), hex_char (r mod 16)]"

text \<open>\<^verbatim>\<open>htmlSafeSet\<close>: the bytes below \<^verbatim>\<open>utf8.RuneSelf\<close> that are written as they are.\<close>

definition htmlSafe :: "char \<Rightarrow> bool" where
  "htmlSafe c \<longleftrightarrow> in_range 0x20 0x7F (byte_nat c) \<and> c \<notin> {dquote, backslash, CHR ''<'', CHR ''>'', CHR ''&''}"

definition short_escape :: "char \<Rightarrow> char option" where
  "short_escape c = map_of
     [(backslash, backslash), (dquote, dquote), (CHR 0x08, CHR ''b''), (CHR 0x0C, CHR ''f''), (CHR 0x0A, CHR ''n''),
      (CHR 0x0D, CHR ''r''), (CHR 0x09, CHR ''t'')] c"

definition quote_byte :: "char \<Rightarrow> bytes" where
  "quote_byte c =
     (if htmlSafe c then [c]
      else case short_escape c of Some e \<Rightarrow> [backslash, e] | None \<Rightarrow> u_escape (byte_nat c))"

definition quote_rune :: "bytes \<Rightarrow> bytes" where
  "quote_rune s =
     (let (r, w) = DecodeRune s
      in if r = RuneError \<and> w = 1 then u_escape RuneError
         else if r = 0x2028 \<or> r = 0x2029 then u_escape r else take w s)"

function quote_json :: "bytes \<Rightarrow> bytes" where
  "quote_json s =
     (case s of [] \<Rightarrow> []
      | c # cs \<Rightarrow>
          if byte_nat c < 0x80 then quote_byte c @ quote_json cs
          else quote_rune s @ quote_json (drop (max 1 (snd (DecodeRune s))) s))"
  by pat_completeness auto
termination
  by (relation "measure length") auto

declare quote_json.simps [simp del]

text \<open>What a reader gets: the same text, with the replacement rune for every byte outside a valid sequence.\<close>

function ToValidUTF8 :: "bytes \<Rightarrow> bytes" where
  "ToValidUTF8 s =
     (if s = [] then []
      else case DecodeRune s of (r, w) \<Rightarrow>
        (if r = RuneError \<and> w = 1 then EncodeRune RuneError else take w s) @ ToValidUTF8 (drop (max 1 w) s))"
  by pat_completeness auto
termination
  by (relation "measure length") (auto simp: length_greater_0_conv)

declare ToValidUTF8.simps [simp del]

function valid_utf8 :: "bytes \<Rightarrow> bool" where
  "valid_utf8 s \<longleftrightarrow>
     (if s = [] then True else DecodeRune s \<noteq> (RuneError, 1) \<and> valid_utf8 (drop (max 1 (snd (DecodeRune s))) s))"
  by pat_completeness auto
termination
  by (relation "measure length") (auto simp: length_greater_0_conv)

declare valid_utf8.simps [simp del]

section \<open>UTF-8 sequences\<close>

lemma mod_top: "k * m \<le> b \<Longrightarrow> b < k * m + m \<Longrightarrow> b = k * m + b mod m" for b :: nat
  by (auto simp: le_iff_add)

lemma lead_byte:
  "in_range 0x80 0xBF b \<Longrightarrow> b = 0x80 + b mod 64" "in_range 0xC2 0xDF b \<Longrightarrow> b = 0xC0 + b mod 32"
  "in_range 0xE0 0xEF b \<Longrightarrow> b = 0xE0 + b mod 16" "in_range 0xF0 0xF4 b \<Longrightarrow> b = 0xF0 + b mod 8"
  using mod_top [of 2 64 b] mod_top [of 6 32 b] mod_top [of 14 16 b] mod_top [of 30 8 b] by (simp_all add: in_range_def)

lemma second_range_cont: "in_range (fst (second_range b)) (snd (second_range b)) x \<Longrightarrow> in_range 0x80 0xBF x"
  by (auto simp: second_range_def in_range_def split: if_splits)

lemma base64:
  fixes x y z w :: nat
  assumes "y < 64" "z < 64" "w < 64"
  shows "(x * 64 + y) div 64 = x" "(x * 64 + y) mod 64 = y"
    "(x * 4096 + y * 64 + z) div 4096 = x" "(x * 4096 + y * 64 + z) div 64 mod 64 = y" "(x * 4096 + y * 64 + z) mod 64 = z"
    "(x * 262144 + y * 4096 + z * 64 + w) div 262144 = x" "(x * 262144 + y * 4096 + z * 64 + w) div 4096 mod 64 = y"
    "(x * 262144 + y * 4096 + z * 64 + w) div 64 mod 64 = z" "(x * 262144 + y * 4096 + z * 64 + w) mod 64 = w"
proof -
  have s: "(a * 64 + b) div 64 = a" "(a * 64 + b) mod 64 = b" if "b < 64" for a b :: nat using that by simp_all
  have d: "n div 4096 = n div 64 div 64" "n div 262144 = n div 64 div 64 div 64" for n :: nat by (simp_all flip: div_mult2_eq)
  have e: "x * 4096 + y * 64 + z = (x * 64 + y) * 64 + z"
    "x * 262144 + y * 4096 + z * 64 + w = ((x * 64 + y) * 64 + z) * 64 + w" by simp_all
  show "(x * 64 + y) div 64 = x" "(x * 64 + y) mod 64 = y"
    "(x * 4096 + y * 64 + z) div 4096 = x" "(x * 4096 + y * 64 + z) div 64 mod 64 = y" "(x * 4096 + y * 64 + z) mod 64 = z"
    "(x * 262144 + y * 4096 + z * 64 + w) div 262144 = x" "(x * 262144 + y * 4096 + z * 64 + w) div 4096 mod 64 = y"
    "(x * 262144 + y * 4096 + z * 64 + w) div 64 mod 64 = z" "(x * 262144 + y * 4096 + z * 64 + w) mod 64 = w"
    unfolding e d by (simp_all only: s assms)
qed

text \<open>The sequences that decode to a rune, by their length, and the rune.\<close>

inductive utf8_seq :: "nat \<Rightarrow> bytes \<Rightarrow> bool" where
  one: "byte_nat c < 0x80 \<Longrightarrow> utf8_seq (byte_nat c) [c]"
| two: "2 \<le> x \<Longrightarrow> x < 32 \<Longrightarrow> y < 64 \<Longrightarrow> utf8_seq (x * 64 + y) [char_of (0xC0 + x), char_of (0x80 + y)]"
| three: "x < 16 \<Longrightarrow> y < 64 \<Longrightarrow> z < 64 \<Longrightarrow> (x = 0 \<Longrightarrow> 32 \<le> y) \<Longrightarrow> (x = 13 \<Longrightarrow> y < 32) \<Longrightarrow>
     utf8_seq (x * 4096 + y * 64 + z) [char_of (0xE0 + x), char_of (0x80 + y), char_of (0x80 + z)]"
| four: "x < 5 \<Longrightarrow> y < 64 \<Longrightarrow> z < 64 \<Longrightarrow> w < 64 \<Longrightarrow> (x = 0 \<Longrightarrow> 16 \<le> y) \<Longrightarrow> (x = 4 \<Longrightarrow> y < 16) \<Longrightarrow>
     utf8_seq (x * 262144 + y * 4096 + z * 64 + w) [char_of (0xF0 + x), char_of (0x80 + y), char_of (0x80 + z), char_of (0x80 + w)]"

lemma byte_char: "byte_nat c = n \<Longrightarrow> c = char_of n"
  by auto

lemma take_nth:
  "1 < length s \<Longrightarrow> take 2 s = [s ! 0, s ! 1]"
  "2 < length s \<Longrightarrow> take 3 s = [s ! 0, s ! 1, s ! 2]"
  "3 < length s \<Longrightarrow> take 4 s = [s ! 0, s ! 1, s ! 2, s ! 3]"
  by (cases s rule: list.exhaust; cases "tl s"; cases "tl (tl s)"; cases "tl (tl (tl s))"; simp add: numeral_eq_Suc)+

lemma second_ok_cont: "second_ok s \<Longrightarrow> 1 < length s \<and> in_range 0x80 0xBF (byte_nat (s ! 1))"
  using second_range_cont by (auto simp: second_ok_def)

lemma second_ok_edge:
  assumes "second_ok s" "s \<noteq> []"
  shows "byte_nat (s ! 0) = 0xE0 \<Longrightarrow> 0xA0 \<le> byte_nat (s ! 1)" "byte_nat (s ! 0) = 0xED \<Longrightarrow> byte_nat (s ! 1) < 0xA0"
    "byte_nat (s ! 0) = 0xF0 \<Longrightarrow> 0x90 \<le> byte_nat (s ! 1)" "byte_nat (s ! 0) = 0xF4 \<Longrightarrow> byte_nat (s ! 1) < 0x90"
  using assms by (auto simp: second_ok_def second_range_def in_range_def hd_conv_nth)

lemma if_chain:
  "v = (if A then x1 else if B then x2 else if C then x3 else if D then x4 else x5) \<Longrightarrow> v \<noteq> x5 \<Longrightarrow>
     A \<and> v = x1 \<or> B \<and> v = x2 \<or> C \<and> v = x3 \<or> D \<and> v = x4"
  by (auto split: if_splits)

lemma DecodeRune_cases:
  assumes "s \<noteq> []" "DecodeRune s = (r, w)" "(r, w) \<noteq> (RuneError, 1)"
  obtains (one) "byte_nat (s ! 0) < 0x80" "r = byte_nat (s ! 0)" "w = 1"
    | (two) "in_range 0xC2 0xDF (byte_nat (s ! 0))" "second_ok s"
        "r = byte_nat (s ! 0) mod 32 * 64 + byte_nat (s ! 1) mod 64" "w = 2"
    | (three) "in_range 0xE0 0xEF (byte_nat (s ! 0))" "second_ok s" "cont_at s 2"
        "r = byte_nat (s ! 0) mod 16 * 4096 + byte_nat (s ! 1) mod 64 * 64 + byte_nat (s ! 2) mod 64" "w = 3"
    | (four) "in_range 0xF0 0xF4 (byte_nat (s ! 0))" "second_ok s" "cont_at s 2" "cont_at s 3"
        "r = byte_nat (s ! 0) mod 8 * 262144 + byte_nat (s ! 1) mod 64 * 4096 + byte_nat (s ! 2) mod 64 * 64 + byte_nat (s ! 3) mod 64" "w = 4"
proof -
  have "hd s = s ! 0" using assms(1) by (simp add: hd_conv_nth)
  note if_chain [OF assms(2) [unfolded DecodeRune_def this Let_def if_not_P [OF assms(1)], symmetric] assms(3)]
  then show ?thesis unfolding prod.inject by (elim disjE conjE) (rule that; assumption)+
qed

lemma DecodeRune_seq:
  assumes "s \<noteq> []" "DecodeRune s = (r, w)" "(r, w) \<noteq> (RuneError, 1)"
  shows "utf8_seq r (take w s) \<and> w = length (take w s)"
  using assms
proof (cases rule: DecodeRune_cases)
  case one
  then show ?thesis using assms(1) utf8_seq.one [of "s ! 0"] by (cases s) auto
next
  case two
  note len = second_ok_cont [OF two(2)] and b0 = lead_byte(2) [OF two(1)]
  note b1 = lead_byte(1) [OF conjunct2 [OF len]]
  have "2 \<le> byte_nat (s ! 0) mod 32" using two(1) b0 unfolding in_range_def by linarith
  from utf8_seq.two [OF this, of "byte_nat (s ! 1) mod 64"] show ?thesis
    using two(3,4) len by (simp add: take_nth del: One_nat_def flip: b0 b1)
next
  case three
  note len = second_ok_cont [OF three(2)] and b0 = lead_byte(3) [OF three(1)]
  note b1 = lead_byte(1) [OF conjunct2 [OF len]]
  have l2: "2 < length s" and c2: "in_range 0x80 0xBF (byte_nat (s ! 2))" using three(3) by (simp_all add: cont_at_def)
  note b2 = lead_byte(1) [OF c2]
  have "byte_nat (s ! 0) mod 16 = 0 \<Longrightarrow> 32 \<le> byte_nat (s ! 1) mod 64" "byte_nat (s ! 0) mod 16 = 13 \<Longrightarrow> byte_nat (s ! 1) mod 64 < 32"
    using second_ok_edge(1,2) [OF three(2) assms(1)] b0 b1 by linarith+
  from utf8_seq.three [of "byte_nat (s ! 0) mod 16" "byte_nat (s ! 1) mod 64" "byte_nat (s ! 2) mod 64", OF _ _ _ this] show ?thesis
    using three(4,5) l2 by (simp add: take_nth del: One_nat_def flip: b0 b1 b2)
next
  case four
  note len = second_ok_cont [OF four(2)] and b0 = lead_byte(4) [OF four(1)]
  note b1 = lead_byte(1) [OF conjunct2 [OF len]]
  have l3: "3 < length s" and c: "in_range 0x80 0xBF (byte_nat (s ! 2))" "in_range 0x80 0xBF (byte_nat (s ! 3))"
    using four(3,4) by (simp_all add: cont_at_def)
  note b2 = lead_byte(1) [OF c(1)] and b3 = lead_byte(1) [OF c(2)]
  have "byte_nat (s ! 0) mod 8 < 5" using four(1) b0 unfolding in_range_def by linarith
  moreover have "byte_nat (s ! 0) mod 8 = 0 \<Longrightarrow> 16 \<le> byte_nat (s ! 1) mod 64" "byte_nat (s ! 0) mod 8 = 4 \<Longrightarrow> byte_nat (s ! 1) mod 64 < 16"
    using second_ok_edge(3,4) [OF four(2) assms(1)] b0 b1 by linarith+
  ultimately show ?thesis using utf8_seq.four [of "byte_nat (s ! 0) mod 8" "byte_nat (s ! 1) mod 64" "byte_nat (s ! 2) mod 64" "byte_nat (s ! 3) mod 64"]
    four(5,6) l3 by (simp add: take_nth del: One_nat_def flip: b0 b1 b2 b3)
qed

text \<open>A sequence decodes to its rune wherever it stands, and the rune encodes to it.\<close>

lemma byte_char_of: "n < 256 \<Longrightarrow> byte_nat (char_of n) = n"
  by simp

lemma lead_mod: "(0xC0 + x) mod 32 = x mod 32" "(0x80 + x) mod 64 = x mod 64" "(0xE0 + x) mod 16 = x mod 16" "(0xF0 + x) mod 8 = x mod 8"
  for x :: nat
  using mod_mult_self3 [of 6 32 x] mod_mult_self3 [of 2 64 x] mod_mult_self3 [of 14 16 x] mod_mult_self3 [of 30 8 x] by simp_all

lemma Decode_seq: "utf8_seq r u \<Longrightarrow> DecodeRune (u @ t) = (r, length u)"
proof (induction rule: utf8_seq.induct)
  case (one c)
  then show ?case by (simp add: DecodeRune_def)
next
  case (two x y)
  then show ?case
    by (simp add: DecodeRune_def in_range_def second_ok_def second_range_def byte_char_of lead_mod Let_def)
next
  case (three x y z)
  then show ?case
    by (auto simp add: DecodeRune_def in_range_def second_ok_def second_range_def cont_at_def byte_char_of lead_mod Let_def)
next
  case (four x y z w)
  then show ?case
    by (auto simp add: DecodeRune_def in_range_def second_ok_def second_range_def cont_at_def byte_char_of lead_mod Let_def)
qed

lemma Encode_seq: "utf8_seq r u \<Longrightarrow> EncodeRune r = u"
proof (induction rule: utf8_seq.induct)
  case (one c)
  then show ?case by (simp add: EncodeRune_def in_range_def)
next
  case (two x y)
  then have "x * 64 + y < 0x800" "0x80 \<le> x * 64 + y" by linarith+
  with two show ?case by (simp add: EncodeRune_def in_range_def base64 Let_def)
next
  case (three x y z)
  have "x * 4096 + y * 64 + z < 0x10000" "0x800 \<le> x * 4096 + y * 64 + z" "\<not> in_range 0xD800 0xDFFF (x * 4096 + y * 64 + z)"
  proof -
    consider "x = 0" | "0 < x" "x < 13" | "x = 13" | "14 \<le> x" by linarith
    then have "0x800 \<le> x * 4096 + y * 64 + z \<and> \<not> in_range 0xD800 0xDFFF (x * 4096 + y * 64 + z)"
      by cases (use three in \<open>auto simp: in_range_def\<close>)
    then show "0x800 \<le> x * 4096 + y * 64 + z" "\<not> in_range 0xD800 0xDFFF (x * 4096 + y * 64 + z)" by blast+
    show "x * 4096 + y * 64 + z < 0x10000" using three(1,2,3) by linarith
  qed
  with three show ?case by (simp add: EncodeRune_def base64 Let_def)
next
  case (four x y z w)
  have "x * 262144 + y * 4096 + z * 64 + w \<le> 0x10FFFF" "0x10000 \<le> x * 262144 + y * 4096 + z * 64 + w"
    using four by (cases "x = 0"; cases "x = 4"; auto)+
  with four show ?case by (simp add: EncodeRune_def in_range_def base64 Let_def)
qed

lemma utf8_seq_bytes: "utf8_seq r u \<Longrightarrow> u \<noteq> [] \<and> (0x80 \<le> r \<longrightarrow> list_all (\<lambda>c. 0x80 \<le> byte_nat c) u)"
  by (induction rule: utf8_seq.induct) (auto simp: byte_char_of)

section \<open>Every string is read back\<close>

text \<open>
  One step of the writer: what it puts for the head of the text, what a reader gets for that, and the
  bytes it has taken.
\<close>

lemma hex_digit_char: "d < 16 \<Longrightarrow> hex_digit (hex_char d) = Some d"
  by (simp add: hex_digit_def hex_char_def in_range_def byte_char_of)

lemma hex4_u_escape: "r < 0x10000 \<Longrightarrow> hex4 (drop 2 (u_escape r) @ t) = r"
proof -
  assume r: "r < 0x10000"
  have "r div 4096 mod 16 = r div 4096" using r by simp
  moreover have "r div 4096 = r div 16 div 16 div 16" "r div 256 = r div 16 div 16" by (simp_all flip: div_mult2_eq)
  ultimately have "16 * (16 * (16 * (r div 4096 mod 16) + r div 256 mod 16) + r div 16 mod 16) + r mod 16 = r"
    by (metis mult.commute div_mult_mod_eq)
  then show ?thesis by (simp add: hex4_def u_escape_def hex_digit_char del: mod_less)
qed

definition reads_as :: "bytes \<Rightarrow> bytes \<Rightarrow> bool" where
  "reads_as q u \<longleftrightarrow> (\<forall>t. scan_string (q @ t) = map_option (apfst ((@) q)) (scan_string t)) \<and> (\<forall>t. unquote_json (q @ t) = u @ unquote_json t)"

lemma reads_as_u_escape:
  assumes "r < 0x10000" "\<not> in_range 0xD800 0xDFFF r"
  shows "reads_as (u_escape r) (EncodeRune r)"
proof -
  have "\<not> in_range 0xD800 0xDBFF r" using assms(2) by (auto simp: in_range_def)
  then have "unquote_json (u_escape r @ t) = EncodeRune r @ unquote_json t" for t
    using hex4_u_escape [OF assms(1), of t] by (subst unquote_json.simps) (simp add: u_escape_def Let_def)
  moreover have "scan_string (u_escape r @ t) = map_option (apfst ((@) (u_escape r))) (scan_string t)" for t
    unfolding u_escape_def append_Cons scan_string.simps by (simp add: hex_digit_char)
  ultimately show ?thesis by (simp add: reads_as_def)
qed

lemma reads_as_seq:
  assumes "utf8_seq r u" "0x80 \<le> r"
  shows "reads_as u u"
proof -
  have high: "list_all (\<lambda>c. 0x80 \<le> byte_nat c) u" "u \<noteq> []" using utf8_seq_bytes [OF assms(1)] assms(2) by simp_all
  have "scan_string (u @ t) = map_option (apfst ((@) u)) (scan_string t)" for t
    using high(1)
  proof (induction u)
    case (Cons c cs)
    then have "c \<noteq> dquote" "c \<noteq> backslash" "\<not> byte_nat c < 0x20" by auto
    with Cons show ?case by (subst append_Cons, subst scan_string.simps) (simp add: option.map_comp comp_def apfst_def map_prod_def split_def)
  qed (simp add: apfst_def map_prod_def option.map_id)
  moreover have "unquote_json (u @ t) = u @ unquote_json t" for t
  proof -
    obtain c cs where c: "u = c # cs" using high(2) by (cases u) auto
    have "c \<noteq> backslash" using high(1) c by auto
    moreover have "DecodeRune (u @ t) = (r, length u)" by (rule Decode_seq [OF assms(1)])
    ultimately show ?thesis using c Encode_seq [OF assms(1)] by (subst unquote_json.simps) (simp add: max_absorb2)
  qed
  ultimately show ?thesis by (simp add: reads_as_def)
qed

lemma reads_as_byte: "byte_nat c < 0x80 \<Longrightarrow> reads_as (quote_byte c) [c]"
proof -
  assume c: "byte_nat c < 0x80"
  have esc: "reads_as [backslash, e] [c]" if "simple_escape e = Some c" "e \<noteq> CHR ''u''" for e
    using that unfolding reads_as_def
    by (intro conjI allI; subst append_Cons, subst append_Cons) (subst scan_string.simps unquote_json.simps, simp)+
  consider (safe) "htmlSafe c" | (short) e where "\<not> htmlSafe c" "short_escape c = Some e" | (long) "\<not> htmlSafe c" "short_escape c = None"
    by (cases "short_escape c") auto
  then show ?thesis
  proof cases
    case safe
    then have "plain_byte c" by (simp add: htmlSafe_def plain_byte_def)
    then have "DecodeRune (c # t) = (byte_nat c, 1)" "EncodeRune (byte_nat c) = [c]" "c \<noteq> backslash" "c \<noteq> dquote" "\<not> byte_nat c < 0x20" for t
      using c by (auto simp: plain_byte_def in_range_def DecodeRune_def EncodeRune_def Let_def)
    then have "scan_string (c # t) = map_option (apfst (Cons c)) (scan_string t)" "unquote_json (c # t) = c # unquote_json t" for t
      by (subst scan_string.simps unquote_json.simps, simp)+
    moreover have "(@) [c] = Cons c" by auto
    ultimately show ?thesis using safe by (simp add: reads_as_def quote_byte_def)
  next
    case short
    then have "simple_escape e = Some c \<and> e \<noteq> CHR ''u''"
      by (auto simp: short_escape_def simple_escape_def split: if_splits)
    then show ?thesis using short esc [of e] by (simp add: quote_byte_def)
  next
    case long
    have "EncodeRune (byte_nat c) = [c]" using c by (simp add: EncodeRune_def in_range_def)
    then show ?thesis using long c reads_as_u_escape [of "byte_nat c"] by (simp add: quote_byte_def in_range_def)
  qed
qed

lemma utf8_seq_high: "utf8_seq r u \<Longrightarrow> 0x80 \<le> byte_nat (hd u) \<Longrightarrow> 0x80 \<le> r"
proof (induction rule: utf8_seq.induct)
  case (three x y z)
  then show ?case by (cases "x = 0") auto
next
  case (four x y z w)
  then show ?case by (cases "x = 0") auto
qed simp_all

lemma DecodeRune_high:
  assumes "0x80 \<le> byte_nat c"
  shows "DecodeRune (c # cs) = (RuneError, 1) \<or> (\<exists>r u. utf8_seq r u \<and> 0x80 \<le> r \<and> DecodeRune (c # cs) = (r, length u)
    \<and> u = take (length u) (c # cs))"
proof -
  obtain r w where rw: "DecodeRune (c # cs) = (r, w)" by fastforce
  show ?thesis
  proof (cases "(r, w) = (RuneError, 1)")
    case False
    then have seq: "utf8_seq r (take w (c # cs))" "w = length (take w (c # cs))" using DecodeRune_seq [OF _ rw] by auto
    have hd: "hd (take w (c # cs)) = c" using seq(2) utf8_seq_bytes [OF seq(1)] by (cases w) auto
    have "0x80 \<le> r" using utf8_seq_high [OF seq(1)] hd assms by simp
    then show ?thesis using seq rw by metis
  qed (use rw in simp)
qed

lemma reads_as_rune:
  assumes "0x80 \<le> byte_nat c"
  shows "reads_as (quote_rune (c # cs))
    (if DecodeRune (c # cs) = (RuneError, 1) then EncodeRune RuneError else take (snd (DecodeRune (c # cs))) (c # cs))"
  using DecodeRune_high [OF assms, of cs]
proof (elim disjE exE conjE)
  assume "DecodeRune (c # cs) = (RuneError, 1)"
  then show ?thesis using reads_as_u_escape [of RuneError] by (simp add: quote_rune_def in_range_def RuneError_def)
next
  fix r u
  assume u: "utf8_seq r u" "0x80 \<le> r" "DecodeRune (c # cs) = (r, length u)" "u = take (length u) (c # cs)"
  have ne: "\<not> (r = RuneError \<and> length u = 1)" using u(1,2) by (cases rule: utf8_seq.cases) auto
  have "r \<in> {0x2028, 0x2029} \<Longrightarrow> reads_as (u_escape r) u"
    using reads_as_u_escape [of r] Encode_seq [OF u(1)] by (auto simp: in_range_def)
  then show ?thesis using ne u(3) reads_as_seq [OF u(1,2)] u(4) [symmetric] by (auto simp: quote_rune_def)
qed

lemma ToValid_ascii: "byte_nat c < 0x80 \<Longrightarrow> ToValidUTF8 (c # cs) = c # ToValidUTF8 cs"
  by (subst ToValidUTF8.simps) (simp add: DecodeRune_def RuneError_def)

lemma quote_json_step:
  "reads_as q u \<Longrightarrow> reads_as q' u' \<Longrightarrow> reads_as (q @ q') (u @ u')"
  by (simp add: reads_as_def option.map_comp comp_def apfst_def map_prod_def split_def)

lemma reads_as_quote: "reads_as (quote_json s) (ToValidUTF8 s)"
proof (induction s rule: quote_json.induct)
  case (1 s)
  show ?case
  proof (cases s)
    case Nil
    then show ?thesis
      by (simp add: reads_as_def quote_json.simps ToValidUTF8.simps apfst_def map_prod_def option.map_id)
  next
    case (Cons c cs)
    show ?thesis
    proof (cases "byte_nat c < 0x80")
      case True
      have "quote_json s = quote_byte c @ quote_json cs" using Cons True by (subst quote_json.simps) simp
      moreover have "ToValidUTF8 s = [c] @ ToValidUTF8 cs" using Cons True ToValid_ascii by simp
      ultimately show ?thesis using quote_json_step [OF reads_as_byte [OF True] "1.IH"(1) [OF Cons True]] by simp
    next
      case False
      let ?d = "drop (max 1 (snd (DecodeRune s))) s"
      have "quote_json s = quote_rune s @ quote_json ?d" using Cons False by (subst quote_json.simps) simp
      moreover have "ToValidUTF8 s = (if DecodeRune s = (RuneError, 1) then EncodeRune RuneError else take (snd (DecodeRune s)) s) @ ToValidUTF8 ?d"
        using Cons by (subst ToValidUTF8.simps) (simp split: prod.split)
      moreover have "reads_as (quote_json ?d) (ToValidUTF8 ?d)" using "1.IH"(2) [OF Cons False] Cons by simp
      ultimately show ?thesis using quote_json_step [OF reads_as_rune [of c cs]] False unfolding Cons by simp
    qed
  qed
qed

lemma scan_string_quote: "scan_string (quote_json s @ dquote # t) = Some (quote_json s, t)"
  using reads_as_quote [of s] by (simp add: reads_as_def scan_string.simps)

lemma unquote_quote_json: "unquote_json (quote_json s) = ToValidUTF8 s"
proof -
  have "unquote_json (quote_json s @ []) = ToValidUTF8 s @ unquote_json []" using reads_as_quote [of s] unfolding reads_as_def by blast
  then show ?thesis by (simp add: unquote_json.simps)
qed

lemma ToValid_valid: "valid_utf8 s \<Longrightarrow> ToValidUTF8 s = s"
proof (induction s rule: valid_utf8.induct)
  case (1 s)
  obtain r w where d: "DecodeRune s = (r, w)" by fastforce
  show ?case
  proof (cases "s = []")
    case False
    have v: "DecodeRune s \<noteq> (RuneError, 1)" "valid_utf8 (drop (max 1 w) s)"
      using "1.prems" False unfolding valid_utf8.simps [of s] d by simp_all
    have "utf8_seq r (take w s)" using DecodeRune_seq [OF False d] v(1) d by simp
    then have "1 \<le> w" using utf8_seq_bytes [of r "take w s"] by (cases w) auto
    then have "max 1 w = w" by simp
    moreover have "ToValidUTF8 (drop (max 1 w) s) = drop (max 1 w) s" using "1.IH" [OF False] v(2) unfolding d by simp
    ultimately show ?thesis using v(1) False unfolding ToValidUTF8.simps [of s] d by auto
  qed (simp add: ToValidUTF8.simps)
qed

lemma quote_plain: "list_all htmlSafe s \<Longrightarrow> quote_json s = s"
proof (induction s)
  case (Cons c s)
  then have "byte_nat c < 0x80" by (simp add: htmlSafe_def in_range_def)
  then show ?case using Cons by (subst quote_json.simps) (simp add: quote_byte_def)
qed (simp add: quote_json.simps)

end
