(* ===== verification/Events.thy ===== *)
theory Events
  imports Float64 GoText
begin

text \<open>
  The published events of \<^verbatim>\<open>src/model/event.go\<close>: each struct as a record, a Go pointer as an
  option, and its JSON form as a tree. The JSON functions follow the struct tags: the key names, the
  order of the fields, \<^verbatim>\<open>omitempty\<close> (a nil pointer, an empty string, a zero integer and an
  empty list are left out) and the fields of embedded structs inlined where the struct stands.

  \<^verbatim>\<open>json.Marshal\<close> fails on these types only where a float is infinite or not a number, so the
  event that carries parsed floats has a partial JSON function.
\<close>

datatype json =
    JStr bytes
  | JInt int
  | JFloat rat
  | JBool bool
  | JArr "json list"
  | JObj "(string \<times> json) list"

type_synonym fields = "(string \<times> json) list"

section \<open>Field encoders\<close>

abbreviation j_u64 :: "u64 \<Rightarrow> json" where
  "j_u64 w \<equiv> JInt (uint w)"

definition omit_empty_string :: "string \<Rightarrow> bytes \<Rightarrow> fields" where
  "omit_empty_string k s = (if s = [] then [] else [(k, JStr s)])"

definition omit_zero_int :: "string \<Rightarrow> int \<Rightarrow> fields" where
  "omit_zero_int k i = (if i = 0 then [] else [(k, JInt i)])"

definition omit_nil :: "string \<Rightarrow> ('a \<Rightarrow> json) \<Rightarrow> 'a option \<Rightarrow> fields" where
  "omit_nil k enc p = (case p of None \<Rightarrow> [] | Some v \<Rightarrow> [(k, enc v)])"

definition omit_empty_list :: "string \<Rightarrow> bytes list \<Rightarrow> fields" where
  "omit_empty_list k xs = (if xs = [] then [] else [(k, JArr (map JStr xs))])"

text \<open>A parsed float: \<^verbatim>\<open>json.Marshal\<close> refuses what is not finite.\<close>

fun f64_json :: "f64 \<Rightarrow> json option" where
  "f64_json (Fin q) = Some (JFloat q)"
| "f64_json (Inf _) = None"
| "f64_json NaN = None"

definition omit_nil_f64 :: "string \<Rightarrow> f64 option \<Rightarrow> fields option" where
  "omit_nil_f64 k p =
     (case p of None \<Rightarrow> Some [] | Some v \<Rightarrow> map_option (\<lambda>j. [(k, j)]) (f64_json v))"

fun obj_keys :: "json \<Rightarrow> string set" where
  "obj_keys (JObj fs) = fst ` set fs"
| "obj_keys _ = {}"

fun obj_field :: "json \<Rightarrow> string \<Rightarrow> json option" where
  "obj_field (JObj fs) k = map_of fs k"
| "obj_field _ k = None"

section \<open>Log and heartbeat events\<close>

record LogEvent =
  le_ServerID :: bytes
  le_Path :: bytes
  le_Channel :: bytes
  le_Timestamp :: bytes
  le_Message :: bytes

definition LogEvent_json :: "LogEvent \<Rightarrow> json option" where
  "LogEvent_json e = Some (JObj
     [(''serverId'', JStr (le_ServerID e)), (''path'', JStr (le_Path e)),
      (''channel'', JStr (le_Channel e)), (''timestamp'', JStr (le_Timestamp e)),
      (''message'', JStr (le_Message e))])"

record HeartbeatEvent =
  he_ServerID :: bytes

definition HeartbeatEvent_json :: "HeartbeatEvent \<Rightarrow> json option" where
  "HeartbeatEvent_json e = Some (JObj [(''serverId'', JStr (he_ServerID e))])"

section \<open>Resources event\<close>

record CPUGroup =
  cg_Count :: "int option"
  cg_UsedPercent :: "rat option"
  cg_Load1 :: "f64 option"
  cg_Load5 :: "f64 option"
  cg_Load15 :: "f64 option"

definition CPUGroup_json :: "CPUGroup \<Rightarrow> json option" where
  "CPUGroup_json g =
     (case (omit_nil_f64 ''load1'' (cg_Load1 g), omit_nil_f64 ''load5'' (cg_Load5 g),
            omit_nil_f64 ''load15'' (cg_Load15 g)) of
        (Some l1, Some l5, Some l15) \<Rightarrow>
          Some (JObj (omit_nil ''count'' JInt (cg_Count g)
            @ omit_nil ''usedPercent'' JFloat (cg_UsedPercent g) @ l1 @ l5 @ l15))
      | _ \<Rightarrow> None)"

record MemoryGroup =
  mg_TotalBytes :: u64
  mg_UsedBytes :: u64
  mg_AvailableBytes :: u64
  mg_UsedPercent :: rat
  mg_Estimated :: bool

definition MemoryGroup_json :: "MemoryGroup \<Rightarrow> json" where
  "MemoryGroup_json g = JObj
     [(''totalBytes'', j_u64 (mg_TotalBytes g)), (''usedBytes'', j_u64 (mg_UsedBytes g)),
      (''availableBytes'', j_u64 (mg_AvailableBytes g)), (''usedPercent'', JFloat (mg_UsedPercent g)),
      (''estimated'', JBool (mg_Estimated g))]"

record SwapGroup =
  sg_TotalBytes :: u64
  sg_UsedBytes :: u64
  sg_UsedPercent :: rat

definition SwapGroup_json :: "SwapGroup \<Rightarrow> json" where
  "SwapGroup_json g = JObj
     [(''totalBytes'', j_u64 (sg_TotalBytes g)), (''usedBytes'', j_u64 (sg_UsedBytes g)),
      (''usedPercent'', JFloat (sg_UsedPercent g))]"

record NetworkGroup =
  ng_RxBytesPerSec :: rat
  ng_TxBytesPerSec :: rat

definition NetworkGroup_json :: "NetworkGroup \<Rightarrow> json" where
  "NetworkGroup_json g = JObj
     [(''rxBytesPerSec'', JFloat (ng_RxBytesPerSec g)), (''txBytesPerSec'', JFloat (ng_TxBytesPerSec g))]"

record ResourcesEvent =
  re_ServerID :: bytes
  re_Timestamp :: bytes
  re_UptimeSeconds :: "int option"
  re_CPU :: "CPUGroup option"
  re_Memory :: "MemoryGroup option"
  re_Swap :: "SwapGroup option"
  re_Network :: "NetworkGroup option"

definition ResourcesEvent_json :: "ResourcesEvent \<Rightarrow> json option" where
  "ResourcesEvent_json e =
     (case (case re_CPU e of None \<Rightarrow> Some []
            | Some g \<Rightarrow> map_option (\<lambda>j. [(''cpu'', j)]) (CPUGroup_json g)) of
        None \<Rightarrow> None
      | Some cpu \<Rightarrow> Some (JObj
          ([(''serverId'', JStr (re_ServerID e)), (''timestamp'', JStr (re_Timestamp e))]
           @ omit_nil ''uptimeSeconds'' JInt (re_UptimeSeconds e) @ cpu
           @ omit_nil ''memory'' MemoryGroup_json (re_Memory e)
           @ omit_nil ''swap'' SwapGroup_json (re_Swap e)
           @ omit_nil ''network'' NetworkGroup_json (re_Network e))))"

section \<open>Storage event\<close>

record DiskUsage =
  du_TotalBytes :: u64
  du_UsedBytes :: u64
  du_FreeBytes :: u64
  du_ReservedBytes :: u64
  du_UsedPercent :: rat

definition DiskUsage_fields :: "DiskUsage \<Rightarrow> fields" where
  "DiskUsage_fields d =
     [(''totalBytes'', j_u64 (du_TotalBytes d)), (''usedBytes'', j_u64 (du_UsedBytes d)),
      (''freeBytes'', j_u64 (du_FreeBytes d)), (''reservedBytes'', j_u64 (du_ReservedBytes d)),
      (''usedPercent'', JFloat (du_UsedPercent d))]"

record ServerStorage =
  ss_DiskUsage :: DiskUsage
  ss_Partial :: bool
  ss_MissingPaths :: "bytes list"

definition ServerStorage_json :: "ServerStorage \<Rightarrow> json" where
  "ServerStorage_json s = JObj (DiskUsage_fields (ss_DiskUsage s)
     @ [(''partial'', JBool (ss_Partial s))] @ omit_empty_list ''missingPaths'' (ss_MissingPaths s))"

record MountUsage =
  mu_Path :: bytes
  mu_Device :: bytes
  mu_FSType :: bytes
  mu_Pattern :: bytes
  mu_DiskUsage :: "DiskUsage option"
  mu_Error :: bytes

definition MountUsage_json :: "MountUsage \<Rightarrow> json" where
  "MountUsage_json m = JObj ([(''path'', JStr (mu_Path m))]
     @ omit_empty_string ''device'' (mu_Device m) @ omit_empty_string ''fsType'' (mu_FSType m)
     @ omit_empty_string ''pattern'' (mu_Pattern m)
     @ (case mu_DiskUsage m of None \<Rightarrow> [] | Some d \<Rightarrow> DiskUsage_fields d)
     @ omit_empty_string ''error'' (mu_Error m))"

record StorageEvent =
  se_ServerID :: bytes
  se_Timestamp :: bytes
  se_Server :: "ServerStorage option"
  se_Mounts :: "MountUsage list"

definition StorageEvent_json :: "StorageEvent \<Rightarrow> json option" where
  "StorageEvent_json e = Some (JObj
     ([(''serverId'', JStr (se_ServerID e)), (''timestamp'', JStr (se_Timestamp e))]
      @ omit_nil ''server'' ServerStorage_json (se_Server e)
      @ [(''mounts'', JArr (map MountUsage_json (se_Mounts e)))]))"

section \<open>Docker event\<close>

record DockerMemory =
  dm_UsedBytes :: u64
  dm_LimitBytes :: u64
  dm_UsedPercent :: rat

definition DockerMemory_json :: "DockerMemory \<Rightarrow> json" where
  "DockerMemory_json m = JObj
     [(''usedBytes'', j_u64 (dm_UsedBytes m)), (''limitBytes'', j_u64 (dm_LimitBytes m)),
      (''usedPercent'', JFloat (dm_UsedPercent m))]"

record DockerNetwork =
  dn_RxBytes :: u64
  dn_TxBytes :: u64

definition DockerNetwork_json :: "DockerNetwork \<Rightarrow> json" where
  "DockerNetwork_json n = JObj
     [(''rxBytes'', j_u64 (dn_RxBytes n)), (''txBytes'', j_u64 (dn_TxBytes n))]"

record DockerBlockIO =
  db_ReadBytes :: u64
  db_WriteBytes :: u64

definition DockerBlockIO_json :: "DockerBlockIO \<Rightarrow> json" where
  "DockerBlockIO_json b = JObj
     [(''readBytes'', j_u64 (db_ReadBytes b)), (''writeBytes'', j_u64 (db_WriteBytes b))]"

record DockerContainer =
  dc_ID :: bytes
  dc_Name :: bytes
  dc_Image :: bytes
  dc_State :: bytes
  dc_CPUPercent :: "rat option"
  dc_Memory :: "DockerMemory option"
  dc_Network :: "DockerNetwork option"
  dc_BlockIO :: "DockerBlockIO option"
  dc_PIDs :: "u64 option"
  dc_ExitCode :: "int option"
  dc_FinishedAt :: bytes
  dc_Error :: bytes

definition DockerContainer_json :: "DockerContainer \<Rightarrow> json" where
  "DockerContainer_json c = JObj
     ([(''id'', JStr (dc_ID c)), (''name'', JStr (dc_Name c)), (''image'', JStr (dc_Image c)),
       (''state'', JStr (dc_State c))]
      @ omit_nil ''cpuPercent'' JFloat (dc_CPUPercent c)
      @ omit_nil ''memory'' DockerMemory_json (dc_Memory c)
      @ omit_nil ''network'' DockerNetwork_json (dc_Network c)
      @ omit_nil ''blockIO'' DockerBlockIO_json (dc_BlockIO c)
      @ omit_nil ''pids'' j_u64 (dc_PIDs c)
      @ omit_nil ''exitCode'' JInt (dc_ExitCode c)
      @ omit_empty_string ''finishedAt'' (dc_FinishedAt c)
      @ omit_empty_string ''error'' (dc_Error c))"

record DockerEvent =
  de_ServerID :: bytes
  de_Timestamp :: bytes
  de_CgroupVersion :: int
  de_Containers :: "DockerContainer list"
  de_Error :: bytes

definition DockerEvent_json :: "DockerEvent \<Rightarrow> json option" where
  "DockerEvent_json e = Some (JObj
     ([(''serverId'', JStr (de_ServerID e)), (''timestamp'', JStr (de_Timestamp e))]
      @ omit_zero_int ''cgroupVersion'' (de_CgroupVersion e)
      @ [(''containers'', JArr (map DockerContainer_json (de_Containers e)))]
      @ omit_empty_string ''error'' (de_Error e)))"

section \<open>Lemmas\<close>

lemma omit_nil_keys [simp]: "fst ` set (omit_nil k enc p) = (if p = None then {} else {k})"
  by (cases p) (simp_all add: omit_nil_def)

lemma omit_empty_string_keys [simp]: "fst ` set (omit_empty_string k s) = (if s = [] then {} else {k})"
  by (simp add: omit_empty_string_def)

text \<open>Marshalling the resources event fails only on a load figure that is not finite.\<close>

definition finite_load :: "CPUGroup \<Rightarrow> bool" where
  "finite_load g \<longleftrightarrow>
     (\<forall>l \<in> set_option (cg_Load1 g) \<union> set_option (cg_Load5 g) \<union> set_option (cg_Load15 g).
        \<exists>q. l = Fin q)"

lemma omit_nil_f64_None: "omit_nil_f64 k p = None \<longleftrightarrow> (\<exists>v. p = Some v \<and> (\<nexists>q. v = Fin q))"
proof -
  have "f64_json v = None \<longleftrightarrow> (\<nexists>q. v = Fin q)" for v by (cases v) auto
  then show ?thesis by (auto simp: omit_nil_f64_def split: option.splits)
qed

lemma CPUGroup_json_None: "CPUGroup_json g = None \<longleftrightarrow> \<not> finite_load g"
proof -
  have "CPUGroup_json g = None \<longleftrightarrow> omit_nil_f64 ''load1'' (cg_Load1 g) = None
      \<or> omit_nil_f64 ''load5'' (cg_Load5 g) = None \<or> omit_nil_f64 ''load15'' (cg_Load15 g) = None"
    by (auto simp: CPUGroup_json_def split: option.splits)
  then show ?thesis by (simp add: omit_nil_f64_None finite_load_def) (auto simp: Bex_def)
qed

lemma ResourcesEvent_json_None:
  "ResourcesEvent_json e = None \<longleftrightarrow> (\<exists>g. re_CPU e = Some g \<and> \<not> finite_load g)"
  by (cases "re_CPU e") (simp_all add: ResourcesEvent_json_def CPUGroup_json_None [symmetric] split: option.split)

end
