(* ===== verification/GoMarshal.thy ===== *)
theory GoMarshal
  imports GoFloat GoQuote Events
begin

text \<open>
  The bytes of \<^verbatim>\<open>json.Marshal\<close>: an event's tree written without white space, its strings quoted and its numbers
  in decimal. A tree is \<open>typed\<close> when its integers fit the 64 bits of the Go types, its floats are \<open>float64\<close> values,
  the keys of each object are distinct and it is not nested too deep; the bytes of such a
  tree are a JSON text, and a reader gets from it what was written, up to the bytes that are not UTF-8.
\<close>

definition show_int :: "int \<Rightarrow> bytes" where
  "show_int i = (if i < 0 then ''-'' else []) @ show_nat (nat \<bar>i\<bar>)"

fun to_jval :: "json \<Rightarrow> jval" where
  "to_jval (JStr s) = VStr (quote_json s)"
| "to_jval (JInt i) = VNum (show_int i)"
| "to_jval (JFloat q) = VNum (float_text q)"
| "to_jval (JBool b) = VBool b"
| "to_jval (JArr js) = VArr (map to_jval js)"
| "to_jval (JObj fs) = VObj (map (\<lambda>(k, j). (quote_json k, to_jval j)) fs)"

definition Marshal :: "json \<Rightarrow> bytes" where
  "Marshal j = json_print (to_jval j)"

fun typed :: "nat \<Rightarrow> json \<Rightarrow> bool" where
  "typed n (JStr s) = True"
| "typed n (JInt i) = (- (2 ^ 63) \<le> i \<and> i < 2 ^ 64)"
| "typed n (JFloat q) = is_float64 q"
| "typed n (JBool b) = True"
| "typed n (JArr js) = (case n of 0 \<Rightarrow> False | Suc k \<Rightarrow> list_all (typed k) js)"
| "typed n (JObj fs) = (case n of 0 \<Rightarrow> False | Suc k \<Rightarrow> distinct (map fst fs) \<and> list_all (\<lambda>(_, j). typed k j) fs)"

text \<open>The value read for what was written, by the readers of each kind.\<close>

fun reads :: "json \<Rightarrow> jval \<Rightarrow> bool" where
  "reads (JStr s) v = (dec_string v [] = Some (ToValidUTF8 s))"
| "reads (JInt i) v = (if 0 \<le> i then dec_uint64 v 0 = Some (of_int i) else dec_int v 0 = Some i)"
| "reads (JFloat q) v = (case v of VNum n \<Rightarrow> ParseFloat n = Inr (Fin q) | _ \<Rightarrow> False)"
| "reads (JBool b) v = (dec_bool v False = Some b)"
| "reads (JArr js) v = (case v of VArr vs \<Rightarrow> list_all2 reads js vs | _ \<Rightarrow> False)"
| "reads (JObj fs) v =
     (case v of VObj ps \<Rightarrow> list_all2 (\<lambda>f p. unquote_json (fst p) = ToValidUTF8 (fst f) \<and> reads (snd f) (snd p)) fs ps | _ \<Rightarrow> False)"

section \<open>Integers\<close>

lemma show_nat_decimal: "show_nat n = decimal (show_nat n) [] None \<and> decimal_ok (show_nat n) [] None \<and> lead_ok (show_nat n)"
  using list_all_digit_show_nat [of n] show_nat_lead [of n]
  by (cases "n = 0") (auto simp: decimal_def exp_part_def decimal_ok_def lead_ok_def show_nat.simps [of 0])

lemma scan_number_show_int: "scan_number (show_int i) = Some (show_int i, [])"
  using scan_number_decimal [of "show_nat (nat \<bar>i\<bar>)" "[]" None] show_nat_decimal [of "nat \<bar>i\<bar>"]
  by (auto simp: show_int_def)

lemma ParseUint_small: "n < 2 ^ 64 \<Longrightarrow> ParseUint (show_nat n) = Inr (of_nat n)"
  using ParseUint_show_nat [of "of_nat n"] by (simp add: unat_of_nat)

lemma reads_int: "- (2 ^ 63) \<le> i \<Longrightarrow> i < 2 ^ 64 \<Longrightarrow> reads (JInt i) (VNum (show_int i))"
proof -
  assume i: "- (2 ^ 63) \<le> i" "i < 2 ^ 64"
  let ?n = "nat \<bar>i\<bar>"
  have n: "?n < 2 ^ 64" using i by (simp add: nat_less_iff)
  note u = ParseUint_small [OF n]
  show ?thesis
  proof (cases "0 \<le> i")
    case True
    then show ?thesis using u by (simp add: show_int_def dec_uint64_def)
  next
    case False
    have "unat (of_nat m :: u64) = m" if "m < 2 ^ 64" for m using that by (simp add: unat_of_nat)
    from this [OF n] have "unat (of_nat ?n :: u64) = ?n" .
    moreover have "?n \<le> 2 ^ 63" using i False by (simp add: nat_le_iff)
    ultimately show ?thesis using u False by (simp add: show_int_def dec_int_def ParseInt_def Let_def)
  qed
qed

section \<open>Every tree is read back\<close>

lemma list_all_jtoks_arr: "P Comma \<Longrightarrow> \<forall>v \<in> set vs. list_all P (jtoks v) \<Longrightarrow> list_all P (jtoks_arr vs)"
  by (induction vs) auto

lemma list_all_jtoks_obj:
  "P Comma \<Longrightarrow> P Colon \<Longrightarrow> \<forall>p \<in> set ps. P (TStr (fst p)) \<and> list_all P (jtoks (snd p)) \<Longrightarrow> list_all P (jtoks_obj ps)"
proof (induction ps)
  case (Cons p ps)
  then show ?case by (cases p) auto
qed simp

lemma tok_ok_quote: "tok_ok (TStr (quote_json s))"
  using scan_string_quote [of s "[]"] by (simp add: tok_ok_def)

definition marshals :: "nat \<Rightarrow> json \<Rightarrow> bool" where
  "marshals n j \<longleftrightarrow> list_all tok_ok (jtoks (to_jval j)) \<and> depth (to_jval j) \<le> n \<and> reads j (to_jval j)"

lemma marshals_arr:
  assumes "\<And>j. j \<in> set js \<Longrightarrow> marshals k j"
  shows "marshals (Suc k) (JArr js)"
proof -
  have "list_all tok_ok (jtoks_arr (map to_jval js))"
    using assms by (intro list_all_jtoks_arr) (auto simp: tok_ok_marks marshals_def)
  moreover have "depth (VArr (map to_jval js)) \<le> Suc k"
    using depth_le(1) [of 0 "map to_jval js" "Suc k"] assms by (auto simp: marshals_def)
  moreover have "list_all2 reads js (map to_jval js)" using assms by (auto simp: list_all2_conv_all_nth marshals_def)
  ultimately show ?thesis by (simp add: marshals_def tok_ok_marks)
qed

lemma marshals_obj:
  assumes "\<And>f. f \<in> set fs \<Longrightarrow> marshals k (snd f)"
  shows "marshals (Suc k) (JObj fs)"
proof -
  let ?ps = "map (\<lambda>(k, j). (quote_json k, to_jval j)) fs"
  have "list_all tok_ok (jtoks_obj ?ps)"
    using assms by (intro list_all_jtoks_obj) (auto simp: tok_ok_marks tok_ok_quote marshals_def dest!: assms)
  moreover have "depth (VObj ?ps) \<le> Suc k"
    using depth_le(2) [of 0 ?ps "Suc k"] assms by (auto simp: marshals_def dest!: assms)
  moreover have "list_all2 (\<lambda>f p. unquote_json (fst p) = ToValidUTF8 (fst f) \<and> reads (snd f) (snd p)) fs ?ps"
    using assms by (simp add: list_all2_conv_all_nth unquote_quote_json split_def marshals_def)
  ultimately show ?thesis by (simp add: marshals_def tok_ok_marks)
qed

lemma typed_marshals: "typed n j \<Longrightarrow> marshals n j"
proof (induction n j rule: typed.induct)
  case (1 n s)
  then show ?case by (simp add: marshals_def tok_ok_quote dec_string_def unquote_quote_json)
next
  case (2 n i)
  then show ?case using reads_int [of i] by (simp add: marshals_def tok_ok_def scan_number_show_int)
next
  case (3 n q)
  then show ?case by (simp add: marshals_def tok_ok_def scan_number_float_text ParseFloat_float_text)
next
  case (4 n b)
  then show ?case by (simp add: marshals_def tok_ok_marks dec_bool_def)
next
  case (5 n js)
  then show ?case by (cases n) (auto simp: list_all_iff intro!: marshals_arr)
next
  case (6 n fs)
  then show ?case by (cases n) (auto simp: list_all_iff intro!: marshals_obj)
qed

lemma Marshal_parse:
  assumes "typed n j" "n \<le> maxNestingDepth"
  shows "json_parse (Marshal j) = Some (to_jval j) \<and> reads j (to_jval j)"
proof -
  have "jval_ok (to_jval j)" using typed_marshals [OF assms(1)] assms(2) by (simp add: jval_ok_def marshals_def)
  then show ?thesis using json_parse_text [OF json_text_print] typed_marshals [OF assms(1)] by (simp add: Marshal_def marshals_def)
qed

end
