(* ===== verification/EventTypes.thy ===== *)
theory EventTypes
  imports GoMarshal Prelude
begin

text \<open>
  The typing of the published events: which floats of an event have to be \<open>float64\<close> values, which integers
  have to fit 64 bits, for its JSON tree to be \<open>typed\<close>. The keys of every object are distinct, whichever
  of its optional fields are left out. The rules are collected in \<open>typed_intros\<close>.
\<close>

named_theorems typed_intros

text \<open>The fields of an object, with the keys they may have, in order.\<close>

definition fields_typed :: "nat \<Rightarrow> string list \<Rightarrow> fields \<Rightarrow> bool" where
  "fields_typed n ks fs \<longleftrightarrow> subseq (map fst fs) ks \<and> list_all (\<lambda>(_, j). typed n j) fs"

lemma typed_objI: "fields_typed n ks fs \<Longrightarrow> distinct ks \<Longrightarrow> typed (Suc n) (JObj fs)"
  by (auto simp: fields_typed_def dest!: subseq_conv_nths [THEN iffD1] intro: distinct_nthsI)

lemma typed_arrI: "(\<And>j. j \<in> set js \<Longrightarrow> typed n j) \<Longrightarrow> typed (Suc n) (JArr js)"
  by (simp add: list_all_iff)

lemma typed_arr_map [typed_intros]: "(\<And>x. x \<in> set xs \<Longrightarrow> typed n (enc x)) \<Longrightarrow> typed (Suc n) (JArr (map enc xs))"
  by (rule typed_arrI) auto

lemma fields_append [typed_intros]:
  "fields_typed n ks fs \<Longrightarrow> fields_typed n ks' fs' \<Longrightarrow> fields_typed n (ks @ ks') (fs @ fs')"
  by (simp add: fields_typed_def list_emb_append_mono)

lemma fields_Cons [typed_intros]: "typed n j \<Longrightarrow> fields_typed n ks fs \<Longrightarrow> fields_typed n (k # ks) ((k, j) # fs)"
  by (simp add: fields_typed_def)

lemma fields_Nil [typed_intros]: "fields_typed n [] []"
  by (simp add: fields_typed_def)

lemma fields_omit_nil [typed_intros]:
  "(\<And>v. p = Some v \<Longrightarrow> typed n (enc v)) \<Longrightarrow> fields_typed n [k] (omit_nil k enc p)"
  by (simp add: fields_typed_def omit_nil_def split: option.split)

lemma fields_omit_string [typed_intros]: "fields_typed n [k] (omit_empty_string k s)"
  by (simp add: fields_typed_def omit_empty_string_def)

lemma fields_omit_zero [typed_intros]: "typed n (JInt i) \<Longrightarrow> fields_typed n [k] (omit_zero_int k i)"
  by (simp add: fields_typed_def omit_zero_int_def)

lemma fields_omit_list [typed_intros]: "fields_typed (Suc n) [k] (omit_empty_list k xs)"
  by (simp add: fields_typed_def omit_empty_list_def list_all_iff)

lemma fields_omit_f64:
  "omit_nil_f64 k p = Some fs \<Longrightarrow> (\<And>q. p = Some (Fin q) \<Longrightarrow> is_float64 q) \<Longrightarrow> fields_typed n [k] fs"
  by (cases p; cases "the p") (auto simp: fields_typed_def omit_nil_f64_def)

lemma typed_u64 [typed_intros]: "typed n (j_u64 w)"
proof -
  have "uint w < 2 ^ 64" using uint_lt2p [of w] by simp
  moreover have "- (2 ^ 63) \<le> uint w" by (rule order_trans [OF _ uint_ge_0]) simp
  ultimately show ?thesis by (simp only: typed.simps)
qed

lemma typed_str [typed_intros]: "typed n (JStr s)" and typed_bool [typed_intros]: "typed n (JBool b)"
  and typed_float [typed_intros]: "is_float64 q \<Longrightarrow> typed n (JFloat q)"
  and typed_int [typed_intros]: "- (2 ^ 63) \<le> i \<Longrightarrow> i < 2 ^ 63 \<Longrightarrow> typed n (JInt i)"
  by simp_all

section \<open>The events\<close>

lemma LogEvent_typed: "LogEvent_json e = Some j \<Longrightarrow> typed (Suc n) j"
  by (auto simp: LogEvent_json_def)

lemma HeartbeatEvent_typed: "HeartbeatEvent_json e = Some j \<Longrightarrow> typed (Suc n) j"
  by (auto simp: HeartbeatEvent_json_def)

lemma MemoryGroup_typed [typed_intros]: "is_float64 (mg_UsedPercent g) \<Longrightarrow> typed (Suc n) (MemoryGroup_json g)"
  unfolding MemoryGroup_json_def by (rule typed_objI, (rule typed_intros | assumption)+, simp)

lemma SwapGroup_typed [typed_intros]: "is_float64 (sg_UsedPercent g) \<Longrightarrow> typed (Suc n) (SwapGroup_json g)"
  unfolding SwapGroup_json_def by (rule typed_objI, (rule typed_intros | assumption)+, simp)

lemma NetworkGroup_typed [typed_intros]:
  "is_float64 (ng_RxBytesPerSec g) \<Longrightarrow> is_float64 (ng_TxBytesPerSec g) \<Longrightarrow> typed (Suc n) (NetworkGroup_json g)"
  unfolding NetworkGroup_json_def by (rule typed_objI, (rule typed_intros | assumption)+, simp)

definition cpu_group_ok :: "CPUGroup \<Rightarrow> bool" where
  "cpu_group_ok g \<longleftrightarrow> (\<forall>i \<in> set_option (cg_Count g). - (2 ^ 63) \<le> i \<and> i < 2 ^ 63)
     \<and> (\<forall>q \<in> set_option (cg_UsedPercent g). is_float64 q)
     \<and> (\<forall>q. Some (Fin q) \<in> {cg_Load1 g, cg_Load5 g, cg_Load15 g} \<longrightarrow> is_float64 q)"

lemma CPUGroup_typed: "CPUGroup_json g = Some j \<Longrightarrow> cpu_group_ok g \<Longrightarrow> typed (Suc n) j"
proof -
  assume j: "CPUGroup_json g = Some j" and ok: "cpu_group_ok g"
  obtain l1 l5 l15 where l: "omit_nil_f64 ''load1'' (cg_Load1 g) = Some l1" "omit_nil_f64 ''load5'' (cg_Load5 g) = Some l5"
    "omit_nil_f64 ''load15'' (cg_Load15 g) = Some l15"
    and jj: "j = JObj (omit_nil ''count'' JInt (cg_Count g) @ omit_nil ''usedPercent'' JFloat (cg_UsedPercent g) @ l1 @ l5 @ l15)"
    using j by (auto simp: CPUGroup_json_def split: option.splits)
  have f: "fields_typed n [''load1''] l1" "fields_typed n [''load5''] l5" "fields_typed n [''load15''] l15"
    using ok by (auto intro!: fields_omit_f64 [OF l(1)] fields_omit_f64 [OF l(2)] fields_omit_f64 [OF l(3)] simp: cpu_group_ok_def)
  have c: "typed n (JInt i)" if "cg_Count g = Some i" for i using ok that by (simp add: cpu_group_ok_def)
  have p: "typed n (JFloat q)" if "cg_UsedPercent g = Some q" for q using ok that by (simp add: cpu_group_ok_def)
  show ?thesis unfolding jj by (rule typed_objI, (erule c | erule p | rule f typed_intros)+, simp)
qed

definition resources_ok :: "ResourcesEvent \<Rightarrow> bool" where
  "resources_ok e \<longleftrightarrow> (\<forall>i \<in> set_option (re_UptimeSeconds e). - (2 ^ 63) \<le> i \<and> i < 2 ^ 63)
     \<and> (\<forall>g \<in> set_option (re_CPU e). cpu_group_ok g) \<and> (\<forall>g \<in> set_option (re_Memory e). is_float64 (mg_UsedPercent g))
     \<and> (\<forall>g \<in> set_option (re_Swap e). is_float64 (sg_UsedPercent g))
     \<and> (\<forall>g \<in> set_option (re_Network e). is_float64 (ng_RxBytesPerSec g) \<and> is_float64 (ng_TxBytesPerSec g))"

lemma ResourcesEvent_typed: "ResourcesEvent_json e = Some j \<Longrightarrow> resources_ok e \<Longrightarrow> typed (Suc (Suc n)) j"
proof -
  assume j: "ResourcesEvent_json e = Some j" and ok: "resources_ok e"
  obtain cpu where cpu: "(case re_CPU e of None \<Rightarrow> Some [] | Some g \<Rightarrow> map_option (\<lambda>j. [(''cpu'', j)]) (CPUGroup_json g)) = Some cpu"
    and jj: "j = JObj ([(''serverId'', JStr (re_ServerID e)), (''timestamp'', JStr (re_Timestamp e))]
           @ omit_nil ''uptimeSeconds'' JInt (re_UptimeSeconds e) @ cpu
           @ omit_nil ''memory'' MemoryGroup_json (re_Memory e)
           @ omit_nil ''swap'' SwapGroup_json (re_Swap e)
           @ omit_nil ''network'' NetworkGroup_json (re_Network e))"
    using j unfolding ResourcesEvent_json_def by (simp split: option.split_asm)
  have f: "fields_typed (Suc n) [''cpu''] cpu"
  proof (cases "re_CPU e")
    case (Some g)
    then obtain c where c: "CPUGroup_json g = Some c" "cpu = [(''cpu'', c)]" using cpu by auto
    moreover have "cpu_group_ok g" using ok Some by (simp add: resources_ok_def)
    ultimately show ?thesis using CPUGroup_typed [of g c n] by (simp add: fields_typed_def)
  qed (use cpu in \<open>simp add: fields_typed_def\<close>)
  have u: "typed (Suc n) (JInt i)" if "re_UptimeSeconds e = Some i" for i using ok that by (simp add: resources_ok_def)
  have g: "re_Memory e = Some m \<Longrightarrow> typed (Suc n) (MemoryGroup_json m)" "re_Swap e = Some s \<Longrightarrow> typed (Suc n) (SwapGroup_json s)"
    "re_Network e = Some w \<Longrightarrow> typed (Suc n) (NetworkGroup_json w)" for m s w
    using ok by (simp_all add: resources_ok_def typed_intros del: typed.simps)
  show ?thesis unfolding jj by (rule typed_objI, (erule u | erule g | rule f typed_intros)+, simp)
qed

lemma DiskUsage_typed: "is_float64 (du_UsedPercent d) \<Longrightarrow>
    fields_typed n [''totalBytes'', ''usedBytes'', ''freeBytes'', ''reservedBytes'', ''usedPercent''] (DiskUsage_fields d)"
  unfolding DiskUsage_fields_def by (rule typed_intros | assumption)+

definition disk_ok :: "DiskUsage \<Rightarrow> bool" where
  "disk_ok d \<longleftrightarrow> is_float64 (du_UsedPercent d)"

lemma ServerStorage_typed [typed_intros]: "disk_ok (ss_DiskUsage s) \<Longrightarrow> typed (Suc (Suc n)) (ServerStorage_json s)"
  unfolding ServerStorage_json_def disk_ok_def
  by (rule typed_objI, (erule DiskUsage_typed | rule typed_intros)+, simp)

lemma MountUsage_typed [typed_intros]:
  assumes "\<And>d. mu_DiskUsage m = Some d \<Longrightarrow> disk_ok d"
  shows "typed (Suc n) (MountUsage_json m)"
proof -
  have d: "fields_typed n [''totalBytes'', ''usedBytes'', ''freeBytes'', ''reservedBytes'', ''usedPercent'']
      (case mu_DiskUsage m of None \<Rightarrow> [] | Some d \<Rightarrow> DiskUsage_fields d)"
    using assms DiskUsage_typed by (auto simp: disk_ok_def fields_typed_def [of _ _ "[]"] split: option.split)
  show ?thesis unfolding MountUsage_json_def by (rule typed_objI, (rule d typed_intros)+, simp)
qed

definition storage_ok :: "StorageEvent \<Rightarrow> bool" where
  "storage_ok e \<longleftrightarrow> (\<forall>s \<in> set_option (se_Server e). disk_ok (ss_DiskUsage s))
     \<and> (\<forall>m \<in> set (se_Mounts e). \<forall>d \<in> set_option (mu_DiskUsage m). disk_ok d)"

lemma StorageEvent_typed: "StorageEvent_json e = Some j \<Longrightarrow> storage_ok e \<Longrightarrow> typed (Suc (Suc (Suc n))) j"
proof -
  assume j: "StorageEvent_json e = Some j" and ok: "storage_ok e"
  have s: "typed (Suc (Suc n)) (ServerStorage_json s)" if "se_Server e = Some s" for s
    using ok that by (intro typed_intros) (simp add: storage_ok_def)
  have m: "typed (Suc n) (MountUsage_json m)" if "m \<in> set (se_Mounts e)" for m
    using ok that by (intro typed_intros) (simp add: storage_ok_def)
  have "typed (Suc (Suc (Suc n))) (JObj ([(''serverId'', JStr (se_ServerID e)), (''timestamp'', JStr (se_Timestamp e))]
      @ omit_nil ''server'' ServerStorage_json (se_Server e) @ [(''mounts'', JArr (map MountUsage_json (se_Mounts e)))]))"
    by (rule typed_objI, (erule s | erule m | rule typed_intros)+, simp)
  then show ?thesis using j unfolding StorageEvent_json_def option.inject by (simp only:)
qed

lemma DockerMemory_typed [typed_intros]: "is_float64 (dm_UsedPercent m) \<Longrightarrow> typed (Suc n) (DockerMemory_json m)"
  unfolding DockerMemory_json_def by (rule typed_objI, (rule typed_intros | assumption)+, simp)

lemma DockerNetwork_typed [typed_intros]: "typed (Suc n) (DockerNetwork_json m)"
  unfolding DockerNetwork_json_def by (rule typed_objI, (rule typed_intros)+, simp)

lemma DockerBlockIO_typed [typed_intros]: "typed (Suc n) (DockerBlockIO_json m)"
  unfolding DockerBlockIO_json_def by (rule typed_objI, (rule typed_intros)+, simp)

definition container_ok :: "DockerContainer \<Rightarrow> bool" where
  "container_ok c \<longleftrightarrow> (\<forall>q \<in> set_option (dc_CPUPercent c). is_float64 q)
     \<and> (\<forall>m \<in> set_option (dc_Memory c). is_float64 (dm_UsedPercent m))
     \<and> (\<forall>i \<in> set_option (dc_ExitCode c). - (2 ^ 63) \<le> i \<and> i < 2 ^ 63)"

lemma DockerContainer_typed: "container_ok c \<Longrightarrow> typed (Suc (Suc n)) (DockerContainer_json c)"
proof -
  assume ok: "container_ok c"
  have p: "typed (Suc n) (JFloat q)" if "dc_CPUPercent c = Some q" for q using ok that by (simp add: container_ok_def)
  have m: "typed (Suc n) (DockerMemory_json m)" if "dc_Memory c = Some m" for m
    using ok that by (intro typed_intros) (simp add: container_ok_def)
  have x: "typed (Suc n) (JInt i)" if "dc_ExitCode c = Some i" for i using ok that by (simp add: container_ok_def)
  show ?thesis unfolding DockerContainer_json_def by (rule typed_objI, (erule p | erule m | erule x | rule typed_intros)+, simp)
qed

lemma DockerEvent_typed:
  assumes "DockerEvent_json e = Some j" "list_all container_ok (de_Containers e)" "de_CgroupVersion e \<in> {0, 1, 2}"
  shows "typed (Suc (Suc (Suc (Suc n)))) j"
proof -
  have c: "typed (Suc (Suc n)) (DockerContainer_json c)" if "c \<in> set (de_Containers e)" for c
    using assms(2) that by (simp add: DockerContainer_typed list_all_iff del: typed.simps)
  have v: "typed (Suc (Suc (Suc n))) (JInt (de_CgroupVersion e))" using assms(3) by auto
  have "typed (Suc (Suc (Suc (Suc n)))) (JObj ([(''serverId'', JStr (de_ServerID e)), (''timestamp'', JStr (de_Timestamp e))]
      @ omit_zero_int ''cgroupVersion'' (de_CgroupVersion e)
      @ [(''containers'', JArr (map DockerContainer_json (de_Containers e)))] @ omit_empty_string ''error'' (de_Error e)))"
    by (rule typed_objI, (erule c | rule v typed_intros)+, simp)
  then show ?thesis using assms(1) unfolding DockerEvent_json_def option.inject by (simp only:)
qed

end
