(* ===== verification/PgEvents.thy ===== *)
theory PgEvents
  imports Events
begin

text \<open>
  The postgres event of \<^verbatim>\<open>src/model/event.go\<close>, as records and as JSON. Times and lags come from the
  database as floats, so they can be values JSON cannot carry, and the JSON functions are partial. A Go
  map from strings is a list of pairs in which each key occurs once; \<^verbatim>\<open>json.Marshal\<close> writes its keys in
  order.
\<close>

type_synonym errors = "(bytes \<times> bytes) list"

definition map_put :: "bytes \<Rightarrow> 'v \<Rightarrow> (bytes \<times> 'v) list \<Rightarrow> (bytes \<times> 'v) list" where
  "map_put k v m = filter (\<lambda>p. fst p \<noteq> k) m @ [(k, v)]"

record PostgresConnections =
  pc_Max :: int
  pc_Used :: int
  pc_ByState :: "(bytes \<times> int) list"

record PostgresSession =
  ps_PID :: int
  ps_Database :: bytes
  ps_User :: bytes
  ps_Application :: bytes
  ps_State :: bytes
  ps_QuerySeconds :: "f64 option"
  ps_TransactionSeconds :: "f64 option"

record PostgresBlocked =
  pb_PID :: int
  pb_Database :: bytes
  pb_User :: bytes
  pb_Application :: bytes
  pb_QuerySeconds :: "f64 option"
  pb_BlockedBy :: "int list"

record PostgresReplica =
  pr_Application :: bytes
  pr_ClientAddr :: bytes
  pr_State :: bytes
  pr_ReplayLagSeconds :: "f64 option"
  pr_ReplayLagBytes :: "int option"

record PostgresActivity =
  pa_Seconds :: rat
  pa_Commits :: int
  pa_Rollbacks :: int
  pa_Deadlocks :: int
  pa_TempFiles :: int
  pa_TempBytes :: int

record PostgresTableSize =
  pt_Schema :: bytes
  pt_Table :: bytes
  pt_TotalBytes :: int

record PostgresDeadTuples =
  pd_Schema :: bytes
  pd_Table :: bytes
  pd_LiveTuples :: int
  pd_DeadTuples :: int
  pd_LastAutovacuum :: bytes

record PostgresDatabase =
  da_Name :: bytes
  da_SizeBytes :: "int option"
  da_XIDAge :: int
  da_CacheHitPercent :: "rat option"
  da_Activity :: "PostgresActivity option"
  da_LargestTables :: "PostgresTableSize list"
  da_DeadTuples :: "PostgresDeadTuples list"
  da_Errors :: errors

record PostgresEvent =
  pe_ServerID :: bytes
  pe_Timestamp :: bytes
  pe_Up :: bool
  pe_Error :: bytes
  pe_StartedAt :: bytes
  pe_UptimeSeconds :: "int option"
  pe_Role :: bytes
  pe_Connections :: "PostgresConnections option"
  pe_LongRunning :: "PostgresSession list"
  pe_Blocked :: "PostgresBlocked list"
  pe_Replicas :: "PostgresReplica list"
  pe_ReplayDelaySeconds :: "f64 option"
  pe_UnreplayedBytes :: "int option"
  pe_Databases :: "PostgresDatabase list"
  pe_Errors :: errors

section \<open>JSON\<close>

text \<open>An object from its groups of fields, and an array from its elements, where each may fail.\<close>

definition obj :: "fields option list \<Rightarrow> json option" where
  "obj fss = map_option (\<lambda>fs. JObj (concat fs)) (those fss)"

definition arr :: "('a \<Rightarrow> json option) \<Rightarrow> 'a list \<Rightarrow> json option" where
  "arr enc xs = map_option JArr (those (map enc xs))"

definition field :: "string \<Rightarrow> json option \<Rightarrow> fields option" where
  "field k j = map_option (\<lambda>v. [(k, v)]) j"

definition map_json :: "('v \<Rightarrow> json) \<Rightarrow> (bytes \<times> 'v) list \<Rightarrow> json" where
  "map_json enc m = JObj (map (\<lambda>(k, v). (k, enc v)) (sort_key fst m))"

definition omit_empty_map :: "string \<Rightarrow> errors \<Rightarrow> fields" where
  "omit_empty_map k m = (if m = [] then [] else [(k, map_json JStr m)])"

definition PostgresConnections_json :: "PostgresConnections \<Rightarrow> json" where
  "PostgresConnections_json c = JObj
     [(''max'', JInt (pc_Max c)), (''used'', JInt (pc_Used c)), (''byState'', map_json JInt (pc_ByState c))]"

definition PostgresSession_json :: "PostgresSession \<Rightarrow> json option" where
  "PostgresSession_json s = obj
     [Some ([(''pid'', JInt (ps_PID s))] @ omit_empty_string ''database'' (ps_Database s)
        @ omit_empty_string ''user'' (ps_User s) @ omit_empty_string ''application'' (ps_Application s)
        @ [(''state'', JStr (ps_State s))]),
      omit_nil_f64 ''querySeconds'' (ps_QuerySeconds s),
      omit_nil_f64 ''transactionSeconds'' (ps_TransactionSeconds s)]"

definition PostgresBlocked_json :: "PostgresBlocked \<Rightarrow> json option" where
  "PostgresBlocked_json b = obj
     [Some ([(''pid'', JInt (pb_PID b))] @ omit_empty_string ''database'' (pb_Database b)
        @ omit_empty_string ''user'' (pb_User b) @ omit_empty_string ''application'' (pb_Application b)),
      omit_nil_f64 ''querySeconds'' (pb_QuerySeconds b),
      Some [(''blockedBy'', JArr (map JInt (pb_BlockedBy b)))]]"

definition PostgresReplica_json :: "PostgresReplica \<Rightarrow> json option" where
  "PostgresReplica_json r = obj
     [Some (omit_empty_string ''application'' (pr_Application r) @ omit_empty_string ''clientAddr'' (pr_ClientAddr r)
        @ [(''state'', JStr (pr_State r))]),
      omit_nil_f64 ''replayLagSeconds'' (pr_ReplayLagSeconds r),
      Some (omit_nil ''replayLagBytes'' JInt (pr_ReplayLagBytes r))]"

definition PostgresActivity_json :: "PostgresActivity \<Rightarrow> json" where
  "PostgresActivity_json a = JObj
     [(''seconds'', JFloat (pa_Seconds a)), (''commits'', JInt (pa_Commits a)), (''rollbacks'', JInt (pa_Rollbacks a)),
      (''deadlocks'', JInt (pa_Deadlocks a)), (''tempFiles'', JInt (pa_TempFiles a)), (''tempBytes'', JInt (pa_TempBytes a))]"

definition PostgresTableSize_json :: "PostgresTableSize \<Rightarrow> json" where
  "PostgresTableSize_json t = JObj
     [(''schema'', JStr (pt_Schema t)), (''table'', JStr (pt_Table t)), (''totalBytes'', JInt (pt_TotalBytes t))]"

definition PostgresDeadTuples_json :: "PostgresDeadTuples \<Rightarrow> json" where
  "PostgresDeadTuples_json t = JObj
     ([(''schema'', JStr (pd_Schema t)), (''table'', JStr (pd_Table t)), (''liveTuples'', JInt (pd_LiveTuples t)),
       (''deadTuples'', JInt (pd_DeadTuples t))] @ omit_empty_string ''lastAutovacuum'' (pd_LastAutovacuum t))"

definition PostgresDatabase_json :: "PostgresDatabase \<Rightarrow> json" where
  "PostgresDatabase_json d = JObj
     ([(''name'', JStr (da_Name d))] @ omit_nil ''sizeBytes'' JInt (da_SizeBytes d)
      @ [(''xidAge'', JInt (da_XIDAge d))]
      @ omit_nil ''cacheHitPercent'' JFloat (da_CacheHitPercent d)
      @ omit_nil ''activity'' PostgresActivity_json (da_Activity d)
      @ [(''largestTables'', JArr (map PostgresTableSize_json (da_LargestTables d))),
         (''deadTuples'', JArr (map PostgresDeadTuples_json (da_DeadTuples d)))]
      @ omit_empty_map ''errors'' (da_Errors d))"

definition PostgresEvent_json :: "PostgresEvent \<Rightarrow> json option" where
  "PostgresEvent_json e = obj
     [Some ([(''serverId'', JStr (pe_ServerID e)), (''timestamp'', JStr (pe_Timestamp e)), (''up'', JBool (pe_Up e))]
        @ omit_empty_string ''error'' (pe_Error e) @ omit_empty_string ''startedAt'' (pe_StartedAt e)
        @ omit_nil ''uptimeSeconds'' JInt (pe_UptimeSeconds e) @ omit_empty_string ''role'' (pe_Role e)
        @ omit_nil ''connections'' PostgresConnections_json (pe_Connections e)),
      field ''longRunning'' (arr PostgresSession_json (pe_LongRunning e)),
      field ''blocked'' (arr PostgresBlocked_json (pe_Blocked e)),
      field ''replicas'' (arr PostgresReplica_json (pe_Replicas e)),
      omit_nil_f64 ''replayDelaySeconds'' (pe_ReplayDelaySeconds e),
      Some (omit_nil ''unreplayedBytes'' JInt (pe_UnreplayedBytes e)
        @ [(''databases'', JArr (map PostgresDatabase_json (pe_Databases e)))]
        @ omit_empty_map ''errors'' (pe_Errors e))]"

section \<open>When the event can be written\<close>

text \<open>Every float the database gave is a finite one.\<close>

definition finite_opt :: "f64 option \<Rightarrow> bool" where
  "finite_opt p = (case p of Some (Inf _) \<Rightarrow> False | Some NaN \<Rightarrow> False | _ \<Rightarrow> True)"

definition finite_event :: "PostgresEvent \<Rightarrow> bool" where
  "finite_event e \<longleftrightarrow>
     list_all (\<lambda>s. finite_opt (ps_QuerySeconds s) \<and> finite_opt (ps_TransactionSeconds s)) (pe_LongRunning e)
     \<and> list_all (\<lambda>b. finite_opt (pb_QuerySeconds b)) (pe_Blocked e)
     \<and> list_all (\<lambda>r. finite_opt (pr_ReplayLagSeconds r)) (pe_Replicas e)
     \<and> finite_opt (pe_ReplayDelaySeconds e)"

lemma map_of_map_put [simp]: "map_of (map_put k v m) = (map_of m)(k \<mapsto> v)"
proof
  fix x
  have "map_of (filter (\<lambda>p. fst p \<noteq> k) m) x = (if x = k then None else map_of m x)"
    by (induction m) auto
  then show "map_of (map_put k v m) x = ((map_of m)(k \<mapsto> v)) x" by (simp add: map_put_def map_add_def split: option.split)
qed

lemma distinct_map_put: "distinct (map fst m) \<Longrightarrow> distinct (map fst (map_put k v m))"
  by (auto simp: map_put_def distinct_map_filter)

lemma those_None: "those xs = None \<longleftrightarrow> list_ex (\<lambda>x. x = None) xs"
  by (induction xs) (auto split: option.split)

lemma finite_opt_json: "omit_nil_f64 k p \<noteq> None \<longleftrightarrow> finite_opt p"
  by (auto simp: omit_nil_f64_def finite_opt_def split: option.split f64.split)

lemma obj_None: "obj fss = None \<longleftrightarrow> list_ex (\<lambda>f. f = None) fss"
  by (simp add: obj_def those_None)

lemma arr_None: "arr enc xs = None \<longleftrightarrow> (\<exists>x \<in> set xs. enc x = None)"
proof -
  have "list_ex (\<lambda>x. x = None) (map enc xs) \<longleftrightarrow> (\<exists>x \<in> set xs. enc x = None)" by (induction xs) auto
  then show ?thesis by (simp add: arr_def those_None)
qed

lemma field_None: "field k j = None \<longleftrightarrow> j = None"
  by (simp add: field_def)

lemma PostgresEvent_json_None: "PostgresEvent_json e = None \<longleftrightarrow> \<not> finite_event e"
proof -
  have "PostgresSession_json s = None \<longleftrightarrow> \<not> (finite_opt (ps_QuerySeconds s) \<and> finite_opt (ps_TransactionSeconds s))" for s
    using finite_opt_json [of "''querySeconds''" "ps_QuerySeconds s"] finite_opt_json [of "''transactionSeconds''" "ps_TransactionSeconds s"]
    by (auto simp: PostgresSession_json_def obj_None)
  moreover have "PostgresBlocked_json b = None \<longleftrightarrow> \<not> finite_opt (pb_QuerySeconds b)" for b
    using finite_opt_json [of "''querySeconds''" "pb_QuerySeconds b"] by (auto simp: PostgresBlocked_json_def obj_None)
  moreover have "PostgresReplica_json r = None \<longleftrightarrow> \<not> finite_opt (pr_ReplayLagSeconds r)" for r
    using finite_opt_json [of "''replayLagSeconds''" "pr_ReplayLagSeconds r"] by (auto simp: PostgresReplica_json_def obj_None)
  ultimately show ?thesis
    using finite_opt_json [of "''replayDelaySeconds''" "pe_ReplayDelaySeconds e"]
    by (auto simp: PostgresEvent_json_def obj_None arr_None field_None finite_event_def list_all_iff)
qed

lemma PostgresEvent_serverId:
  "PostgresEvent_json e = Some j \<Longrightarrow> obj_field j ''serverId'' = Some (JStr (pe_ServerID e))"
  by (auto simp: PostgresEvent_json_def obj_def split: option.splits)

end
