(* ===== verification/DecodeBounds.thy ===== *)
theory DecodeBounds
  imports GoDecode
begin

text \<open>
  Bounds on what a decoder makes of a text: a JSON value has no more nodes than its text has bytes, so a
  decoded slice is no longer than the text, and what every field of a struct keeps, the decoder of the struct keeps.
\<close>

section \<open>The nodes of a value\<close>

fun nodes :: "jval \<Rightarrow> nat" where
  "nodes (VArr vs) = Suc (sum_list (map nodes vs))"
| "nodes (VObj ps) = Suc (sum_list (map (nodes \<circ> snd) ps))"
| "nodes _ = 1"

fun frame_nodes :: "jframe \<Rightarrow> nat" where
  "frame_nodes (FArr vs) = Suc (sum_list (map nodes vs))"
| "frame_nodes (FObj ps) = Suc (sum_list (map (nodes \<circ> snd) ps))"
| "frame_nodes (FKey ps k) = Suc (sum_list (map (nodes \<circ> snd) ps))"

fun state_nodes :: "jstate \<Rightarrow> nat" where
  "state_nodes (PDone v, st) = nodes v + sum_list (map frame_nodes st)"
| "state_nodes (m, st) = sum_list (map frame_nodes st)"

lemma state_nodes_ge: "sum_list (map frame_nodes st) \<le> state_nodes (m, st)"
  by (cases m) auto

lemma put_nodes: "put v st = Some s \<Longrightarrow> state_nodes s = nodes v + sum_list (map frame_nodes st)"
  by (induction v st rule: put.induct) auto

lemma begin_value_nodes: "begin_value t st = Some s \<Longrightarrow> state_nodes s \<le> Suc (sum_list (map frame_nodes st))"
  by (cases t) (auto simp: push_def dest!: put_nodes split: if_splits)

lemma begin_key_nodes: "begin_key t st = Some s \<Longrightarrow> state_nodes s = sum_list (map frame_nodes st)"
  by (induction t st rule: begin_key.induct) auto

lemma end_value_nodes: "end_value t st = Some s \<Longrightarrow> state_nodes s = sum_list (map frame_nodes st)"
  by (induction t st rule: end_value.induct) (auto dest!: put_nodes)

lemma json_step_nodes: "json_step t s = Some s' \<Longrightarrow> state_nodes s' \<le> Suc (state_nodes s)"
  by (induction t s rule: json_step.induct) (auto dest: begin_value_nodes begin_key_nodes end_value_nodes split: if_splits)

lemma json_steps_nodes: "json_steps ts s = Some s' \<Longrightarrow> state_nodes s' \<le> state_nodes s + length ts"
proof (induction ts arbitrary: s)
  case (Cons t ts)
  then obtain s1 where "json_step t s = Some s1" "json_steps ts s1 = Some s'" by (auto split: option.splits)
  then show ?case using Cons.IH json_step_nodes by fastforce
qed simp

lemma tokens_length: "tokens s = Some ts \<Longrightarrow> length ts \<le> length s"
proof (induction s arbitrary: ts rule: tokens.induct)
  case (2 c cs)
  show ?case
  proof (cases "json_space c")
    case True
    then show ?thesis using "2.IH"(1) "2.prems" by (fastforce simp: tokens.simps)
  next
    case False
    then obtain t rest us where "scan_token c cs = Some (t, rest)" "tokens rest = Some us" "ts = t # us"
      using "2.prems" by (auto simp: tokens.simps split: option.splits)
    then show ?thesis using "2.IH"(2) [OF False] scan_token_shorter by fastforce
  qed
qed (simp add: tokens.simps)

lemma json_parse_nodes: "json_parse s = Some v \<Longrightarrow> nodes v \<le> length s"
proof -
  assume "json_parse s = Some v"
  then obtain ts st where ts: "tokens s = Some ts" "json_steps ts (PValue, []) = Some (PDone v, st)"
    by (auto simp: json_parse_def parse_tokens_def split: option.splits prod.splits jmode.splits)
  then show ?thesis using json_steps_nodes [OF ts(2)] tokens_length [OF ts(1)] by simp
qed

section \<open>What a decoder keeps\<close>

definition keeps :: "nat \<Rightarrow> ('r \<Rightarrow> bool) \<Rightarrow> 'r dec \<Rightarrow> bool" where
  "keeps n P d \<longleftrightarrow> (\<forall>v r r'. nodes v \<le> n \<longrightarrow> P r \<longrightarrow> d v r = Some r' \<longrightarrow> P r')"

lemma keepsD: "keeps n P d \<Longrightarrow> nodes v \<le> n \<Longrightarrow> P r \<Longrightarrow> d v r = Some r' \<Longrightarrow> P r'"
  by (auto simp: keeps_def)

lemma keeps_fields:
  "sum_list (map (nodes \<circ> snd) ps) \<le> n \<Longrightarrow> P r \<Longrightarrow> dec_fields fs ps r = Some r' \<Longrightarrow> (\<And>k d. (k, d) \<in> set fs \<Longrightarrow> keeps n P d) \<Longrightarrow> P r'"
proof (induction fs ps r arbitrary: r' rule: dec_fields.induct)
  case (2 fs k v ps r)
  show ?case
  proof (cases "field_of fs (unquote_json k)")
    case None
    then show ?thesis using "2.IH"(1) "2.prems" by simp
  next
    case (Some u)
    then obtain r1 where r1: "u v r = Some r1" "dec_fields fs ps r1 = Some r'" using "2.prems"(3) by (auto split: option.splits)
    obtain m where "(m, u) \<in> set fs" using field_of_fold [OF Some] by blast
    then have "keeps n P u" by (rule "2.prems"(4))
    moreover have "nodes v \<le> n" using "2.prems"(1) by simp
    ultimately have "P r1" using "2.prems"(2) r1(1) unfolding keeps_def by blast
    then show ?thesis using "2.IH"(2) [OF Some r1(1)] r1(2) "2.prems"(1,4) by simp
  qed
qed simp

lemma keeps_struct: "(\<And>k d. (k, d) \<in> set fs \<Longrightarrow> keeps n P d) \<Longrightarrow> keeps n P (dec_struct fs)"
  unfolding keeps_def [of n P "dec_struct fs"]
proof (intro allI impI)
  fix v r r'
  assume k: "\<And>k d. (k, d) \<in> set fs \<Longrightarrow> keeps n P d" and v: "nodes v \<le> n" "P r" "dec_struct fs v r = Some r'"
  show "P r'"
  proof (cases v)
    case (VObj ps)
    then have "dec_fields fs ps r = Some r'" "sum_list (map (nodes \<circ> snd) ps) \<le> n" using v by (simp_all add: dec_struct_def)
    then show ?thesis using keeps_fields [of ps n P r fs r'] k v(2) by blast
  qed (use v in \<open>simp_all add: dec_struct_def\<close>)
qed

lemma keeps_structI: "list_all (\<lambda>p. keeps n P (snd p)) fs \<Longrightarrow> keeps n P (dec_struct fs)"
  by (rule keeps_struct) (auto simp: list_all_iff)

lemma keeps_sub:
  "(\<And>v x r. nodes v \<le> n \<Longrightarrow> P r \<Longrightarrow> d v (get r) = Some x \<Longrightarrow> P (upd (\<lambda>_. x) r)) \<Longrightarrow> keeps n P (sub get upd d)"
  by (auto simp: keeps_def sub_def)

lemma keeps_other: "(\<And>x r. P (upd (\<lambda>_. x) r) = P r) \<Longrightarrow> keeps n P (sub get upd d)"
  by (rule keeps_sub) simp

lemma nodes_pos: "1 \<le> nodes v"
  by (cases v) auto

lemma dec_elems_length: "dec_elems z d vs old = Some xs \<Longrightarrow> length xs = length vs"
  by (induction z d vs old arbitrary: xs rule: dec_elems.induct) (auto split: option.splits)

lemma length_nodes: "length vs \<le> sum_list (map nodes vs)"
  using sum_list_mono [of vs "\<lambda>_. 1" nodes] nodes_pos by (simp add: sum_list_triv)

lemma dec_slice_length: "dec_slice z d v old = Some xs \<Longrightarrow> length xs \<le> nodes v \<or> xs = []"
proof (cases v)
  case (VArr vs)
  assume "dec_slice z d v old = Some xs"
  then show ?thesis using VArr dec_elems_length length_nodes [of vs] by (fastforce simp: dec_slice_def)
qed (auto simp: dec_slice_def)

definition int64 :: "int \<Rightarrow> bool" where
  "int64 i \<longleftrightarrow> - (2 ^ 63) \<le> i \<and> i < 2 ^ 63"

lemma int64_zero [simp]: "int64 0"
  by (simp add: int64_def)

lemma int64_of_nat: "n < 2 ^ 63 \<Longrightarrow> int64 (int n)" "n \<le> 2 ^ 63 \<Longrightarrow> int64 (- int n)"
  by (simp_all add: int64_def)

lemma ParseInt_int64: "ParseInt s = Some i \<Longrightarrow> int64 i"
  by (auto simp: ParseInt_def Let_def simp del: of_nat_unat intro!: int64_of_nat split: sum.splits if_splits)

lemma dec_int_int64: "dec_int v old = Some i \<Longrightarrow> int64 old \<Longrightarrow> int64 i"
  by (auto simp: dec_int_def intro: ParseInt_int64 split: jval.splits)

lemma Unmarshal_keeps:
  assumes "keeps (length data) P d" "P z" "Unmarshal d z data = Some x"
  shows "P x"
proof -
  obtain v where "json_parse data = Some v" "d v z = Some x" using assms(3) by (auto simp: Unmarshal_def split: option.splits)
  then show ?thesis using keepsD [OF assms(1)] json_parse_nodes assms(2) by blast
qed

end
