(* ===== verification/PgTypes.thy ===== *)
theory PgTypes
  imports EventTypes PgEvents DecodeBounds
begin

text \<open>
  The typing of the postgres event: as in \<open>EventTypes\<close>, the integers that have to fit 64 bits and the floats that have
  to be \<open>float64\<close> values for its JSON tree to be \<open>typed\<close>. Objects here are made of groups of fields that may fail,
  and maps are objects with the keys of the map in order.
\<close>

section \<open>Objects and arrays that may fail\<close>

lemma typed_groups:
  assumes "obj fss = Some j" "list_all2 (\<lambda>g ks. \<forall>fs. g = Some fs \<longrightarrow> fields_typed n ks fs) fss kss" "distinct (concat kss)"
  shows "typed (Suc n) j"
proof -
  obtain fs where fs: "those fss = Some fs" "j = JObj (concat fs)" using assms(1) by (auto simp: obj_def)
  from assms(2) fs(1) have "fields_typed n (concat kss) (concat fs)"
  proof (induction fss kss arbitrary: fs rule: list_all2_induct)
    case Nil
    then show ?case by (simp add: fields_typed_def)
  next
    case (Cons g gs ks kss)
    then obtain f fs' where "g = Some f" "those gs = Some fs'" "fs = f # fs'" by (auto split: option.splits)
    then show ?case using Cons by (simp add: fields_append)
  qed
  then show ?thesis unfolding fs(2) using assms(3) by (rule typed_objI)
qed

lemma those_set: "those xs = Some ys \<Longrightarrow> y \<in> set ys \<Longrightarrow> Some y \<in> set xs"
  by (induction xs arbitrary: ys) (auto split: option.splits)

lemma typed_arr:
  assumes "arr enc xs = Some j" "\<And>x v. x \<in> set xs \<Longrightarrow> enc x = Some v \<Longrightarrow> typed n v"
  shows "typed (Suc n) j"
proof -
  obtain js where js: "those (map enc xs) = Some js" "j = JArr js" using assms(1) by (auto simp: arr_def)
  show ?thesis unfolding js(2)
  proof (rule typed_arrI)
    fix v assume "v \<in> set js"
    then have "Some v \<in> enc ` set xs" using those_set [OF js(1)] by simp
    then obtain x where "x \<in> set xs" "enc x = Some v" by (metis imageE)
    then show "typed n v" by (rule assms(2))
  qed
qed

lemma fields_field: "field k p = Some fs \<Longrightarrow> (\<And>j. p = Some j \<Longrightarrow> typed n j) \<Longrightarrow> fields_typed n [k] fs"
  by (auto simp: field_def fields_typed_def)

lemma typed_map:
  assumes "distinct (map fst m)" "\<And>k v. (k, v) \<in> set m \<Longrightarrow> typed n (enc v)"
  shows "typed (Suc n) (map_json enc m)"
proof -
  have keys: "map fst (map (\<lambda>(k, v). (k, enc v)) (sort_key fst m)) = map fst (sort_key fst m)"
    by (simp add: comp_def split_def)
  have "distinct (map fst (sort_key fst m))" using assms(1) by (simp add: distinct_map)
  moreover have "fields_typed n (map fst (sort_key fst m)) (map (\<lambda>(k, v). (k, enc v)) (sort_key fst m))"
    unfolding fields_typed_def keys using assms(2) by (auto simp: list_all_iff)
  ultimately show ?thesis unfolding map_json_def by (intro typed_objI)
qed

lemma fields_omit_map [typed_intros]: "distinct (map fst m) \<Longrightarrow> fields_typed (Suc n) [k] (omit_empty_map k m)"
  using typed_map [of m n JStr] by (simp add: omit_empty_map_def fields_typed_def)

section \<open>The parts of the event\<close>

definition f64_fits :: "f64 option \<Rightarrow> bool" where
  "f64_fits p \<longleftrightarrow> (case p of Some (Fin q) \<Rightarrow> is_float64 q | _ \<Rightarrow> True)"

abbreviation opt_int64 :: "int option \<Rightarrow> bool" where
  "opt_int64 p \<equiv> \<forall>i \<in> set_option p. int64 i"

lemma fields_f64: "f64_fits p \<Longrightarrow> omit_nil_f64 k p = Some fs \<Longrightarrow> fields_typed n [k] fs"
  by (erule fields_omit_f64) (simp add: f64_fits_def)

lemma typed_int64 [typed_intros]: "int64 i \<Longrightarrow> typed n (JInt i)"
  by (simp add: int64_def)

lemma opt_int64D: "opt_int64 p \<Longrightarrow> p = Some i \<Longrightarrow> int64 i"
  by simp

definition connections_fit :: "PostgresConnections \<Rightarrow> bool" where
  "connections_fit c \<longleftrightarrow> int64 (pc_Max c) \<and> int64 (pc_Used c) \<and> distinct (map fst (pc_ByState c))
     \<and> (\<forall>(_, i) \<in> set (pc_ByState c). int64 i)"

lemma Connections_typed: "connections_fit c \<Longrightarrow> typed (Suc (Suc n)) (PostgresConnections_json c)"
proof -
  assume c: "connections_fit c"
  have "int64 i" if "(k, i) \<in> set (pc_ByState c)" for k i using c that by (auto simp: connections_fit_def)
  then have m: "typed (Suc n) (map_json JInt (pc_ByState c))"
    using c by (intro typed_map typed_int64) (simp_all add: connections_fit_def)
  have i: "int64 (pc_Max c)" "int64 (pc_Used c)" using c by (simp_all add: connections_fit_def)
  show ?thesis unfolding PostgresConnections_json_def by (rule typed_objI, (rule m i typed_intros)+, simp)
qed

definition session_fits :: "PostgresSession \<Rightarrow> bool" where
  "session_fits s \<longleftrightarrow> int64 (ps_PID s) \<and> f64_fits (ps_QuerySeconds s) \<and> f64_fits (ps_TransactionSeconds s)"

lemma Session_typed: "PostgresSession_json s = Some j \<Longrightarrow> session_fits s \<Longrightarrow> typed (Suc n) j"
proof -
  assume j: "PostgresSession_json s = Some j" and ok: "session_fits s"
  have i: "int64 (ps_PID s)" and f: "f64_fits (ps_QuerySeconds s)" "f64_fits (ps_TransactionSeconds s)"
    using ok by (simp_all add: session_fits_def)
  have "fields_typed n ([''pid''] @ [''database''] @ [''user''] @ [''application''] @ [''state''])
     ([(''pid'', JInt (ps_PID s))] @ omit_empty_string ''database'' (ps_Database s)
        @ omit_empty_string ''user'' (ps_User s) @ omit_empty_string ''application'' (ps_Application s)
        @ [(''state'', JStr (ps_State s))])" by (rule i typed_intros)+
  then show ?thesis
    by (intro typed_groups [OF j [unfolded PostgresSession_json_def],
          where kss = "[[''pid'', ''database'', ''user'', ''application'', ''state''], [''querySeconds''], [''transactionSeconds'']]"]
        list_all2_Cons [THEN iffD2] conjI)
      (simp_all add: fields_f64 [OF f(1)] fields_f64 [OF f(2)])
qed

definition blocked_fits :: "PostgresBlocked \<Rightarrow> bool" where
  "blocked_fits b \<longleftrightarrow> int64 (pb_PID b) \<and> f64_fits (pb_QuerySeconds b) \<and> (\<forall>i \<in> set (pb_BlockedBy b). int64 i)"

lemma Blocked_typed: "PostgresBlocked_json b = Some j \<Longrightarrow> blocked_fits b \<Longrightarrow> typed (Suc (Suc n)) j"
proof -
  assume j: "PostgresBlocked_json b = Some j" and ok: "blocked_fits b"
  have i: "int64 (pb_PID b)" "\<And>i. i \<in> set (pb_BlockedBy b) \<Longrightarrow> int64 i" and f: "f64_fits (pb_QuerySeconds b)"
    using ok by (simp_all add: blocked_fits_def)
  have "fields_typed (Suc n) ([''pid''] @ [''database''] @ [''user''] @ [''application''])
     ([(''pid'', JInt (pb_PID b))] @ omit_empty_string ''database'' (pb_Database b)
        @ omit_empty_string ''user'' (pb_User b) @ omit_empty_string ''application'' (pb_Application b))" by (rule i typed_intros)+
  moreover have "fields_typed (Suc n) [''blockedBy''] [(''blockedBy'', JArr (map JInt (pb_BlockedBy b)))]"
    by (rule fields_Cons [OF _ fields_Nil], rule typed_arr_map, rule typed_int64, erule i)
  ultimately show ?thesis
    by (intro typed_groups [OF j [unfolded PostgresBlocked_json_def],
          where kss = "[[''pid'', ''database'', ''user'', ''application''], [''querySeconds''], [''blockedBy'']]"]
        list_all2_Cons [THEN iffD2] conjI)
      (simp_all add: fields_f64 [OF f])
qed

definition replica_fits :: "PostgresReplica \<Rightarrow> bool" where
  "replica_fits r \<longleftrightarrow> f64_fits (pr_ReplayLagSeconds r) \<and> opt_int64 (pr_ReplayLagBytes r)"

lemma Replica_typed: "PostgresReplica_json r = Some j \<Longrightarrow> replica_fits r \<Longrightarrow> typed (Suc n) j"
proof -
  assume j: "PostgresReplica_json r = Some j" and ok: "replica_fits r"
  have f: "f64_fits (pr_ReplayLagSeconds r)" and i: "opt_int64 (pr_ReplayLagBytes r)" using ok by (simp_all add: replica_fits_def)
  have "fields_typed n ([''application''] @ [''clientAddr''] @ [''state''])
     (omit_empty_string ''application'' (pr_Application r) @ omit_empty_string ''clientAddr'' (pr_ClientAddr r)
        @ [(''state'', JStr (pr_State r))])" by (rule typed_intros)+
  moreover have "fields_typed n [''replayLagBytes''] (omit_nil ''replayLagBytes'' JInt (pr_ReplayLagBytes r))"
    by (rule fields_omit_nil, rule typed_int64, erule opt_int64D [OF i])
  ultimately show ?thesis
    by (intro typed_groups [OF j [unfolded PostgresReplica_json_def],
          where kss = "[[''application'', ''clientAddr'', ''state''], [''replayLagSeconds''], [''replayLagBytes'']]"]
        list_all2_Cons [THEN iffD2] conjI)
      (simp_all add: fields_f64 [OF f])
qed

definition activity_fits :: "PostgresActivity \<Rightarrow> bool" where
  "activity_fits a \<longleftrightarrow> is_float64 (pa_Seconds a)
     \<and> (\<forall>i \<in> {pa_Commits a, pa_Rollbacks a, pa_Deadlocks a, pa_TempFiles a, pa_TempBytes a}. int64 i)"

lemma Activity_typed: "activity_fits a \<Longrightarrow> typed (Suc n) (PostgresActivity_json a)"
proof -
  assume a: "activity_fits a"
  then have i: "int64 (pa_Commits a)" "int64 (pa_Rollbacks a)" "int64 (pa_Deadlocks a)" "int64 (pa_TempFiles a)" "int64 (pa_TempBytes a)"
    and f: "is_float64 (pa_Seconds a)" by (simp_all add: activity_fits_def)
  show ?thesis unfolding PostgresActivity_json_def by (rule typed_objI, (rule i f typed_intros)+, simp)
qed

lemma TableSize_typed: "int64 (pt_TotalBytes t) \<Longrightarrow> typed (Suc n) (PostgresTableSize_json t)"
  unfolding PostgresTableSize_json_def by (rule typed_objI, (assumption | rule typed_intros)+, simp)

lemma DeadTuples_typed: "int64 (pd_LiveTuples t) \<Longrightarrow> int64 (pd_DeadTuples t) \<Longrightarrow> typed (Suc n) (PostgresDeadTuples_json t)"
  unfolding PostgresDeadTuples_json_def by (rule typed_objI, (assumption | rule typed_intros)+, simp)

definition database_fits :: "PostgresDatabase \<Rightarrow> bool" where
  "database_fits d \<longleftrightarrow> opt_int64 (da_SizeBytes d) \<and> int64 (da_XIDAge d) \<and> (\<forall>q \<in> set_option (da_CacheHitPercent d). is_float64 q)
     \<and> (\<forall>a \<in> set_option (da_Activity d). activity_fits a) \<and> (\<forall>t \<in> set (da_LargestTables d). int64 (pt_TotalBytes t))
     \<and> (\<forall>t \<in> set (da_DeadTuples d). int64 (pd_LiveTuples t) \<and> int64 (pd_DeadTuples t)) \<and> distinct (map fst (da_Errors d))"

lemma Database_typed: "database_fits d \<Longrightarrow> typed (Suc (Suc (Suc n))) (PostgresDatabase_json d)"
proof -
  assume d: "database_fits d"
  have i: "opt_int64 (da_SizeBytes d)" "int64 (da_XIDAge d)" "distinct (map fst (da_Errors d))"
    and q: "\<And>q. da_CacheHitPercent d = Some q \<Longrightarrow> is_float64 q"
    and a: "\<And>a. da_Activity d = Some a \<Longrightarrow> activity_fits a"
    and t: "\<And>t. t \<in> set (da_LargestTables d) \<Longrightarrow> int64 (pt_TotalBytes t)"
    and u: "\<And>t. t \<in> set (da_DeadTuples d) \<Longrightarrow> int64 (pd_LiveTuples t)" "\<And>t. t \<in> set (da_DeadTuples d) \<Longrightarrow> int64 (pd_DeadTuples t)"
    using d by (simp_all add: database_fits_def)
  show ?thesis unfolding PostgresDatabase_json_def
    by (rule typed_objI, (erule opt_int64D [OF i(1)] q a t u | rule i(2) i(3) Activity_typed TableSize_typed DeadTuples_typed typed_intros)+, simp)
qed

definition event_fits :: "PostgresEvent \<Rightarrow> bool" where
  "event_fits e \<longleftrightarrow> opt_int64 (pe_UptimeSeconds e) \<and> (\<forall>c \<in> set_option (pe_Connections e). connections_fit c)
     \<and> (\<forall>s \<in> set (pe_LongRunning e). session_fits s) \<and> (\<forall>b \<in> set (pe_Blocked e). blocked_fits b)
     \<and> (\<forall>r \<in> set (pe_Replicas e). replica_fits r) \<and> f64_fits (pe_ReplayDelaySeconds e) \<and> opt_int64 (pe_UnreplayedBytes e)
     \<and> (\<forall>d \<in> set (pe_Databases e). database_fits d) \<and> distinct (map fst (pe_Errors e))"

lemma PostgresEvent_typed:
  assumes j: "PostgresEvent_json e = Some j" and ok: "event_fits e"
  shows "typed (Suc (Suc (Suc (Suc (Suc n))))) j"
proof -
  let ?n = "Suc (Suc (Suc (Suc n)))"
  have i: "opt_int64 (pe_UptimeSeconds e)" "opt_int64 (pe_UnreplayedBytes e)" "distinct (map fst (pe_Errors e))"
    and f: "f64_fits (pe_ReplayDelaySeconds e)"
    and c: "\<And>c. pe_Connections e = Some c \<Longrightarrow> connections_fit c"
    and s: "\<And>s. s \<in> set (pe_LongRunning e) \<Longrightarrow> session_fits s"
    and b: "\<And>b. b \<in> set (pe_Blocked e) \<Longrightarrow> blocked_fits b"
    and r: "\<And>r. r \<in> set (pe_Replicas e) \<Longrightarrow> replica_fits r"
    and d: "\<And>d. d \<in> set (pe_Databases e) \<Longrightarrow> database_fits d"
    using ok by (simp_all add: event_fits_def)
  have "fields_typed ?n ([''serverId'', ''timestamp'', ''up''] @ [''error''] @ [''startedAt''] @ [''uptimeSeconds''] @ [''role''] @ [''connections''])
     ([(''serverId'', JStr (pe_ServerID e)), (''timestamp'', JStr (pe_Timestamp e)), (''up'', JBool (pe_Up e))]
        @ omit_empty_string ''error'' (pe_Error e) @ omit_empty_string ''startedAt'' (pe_StartedAt e)
        @ omit_nil ''uptimeSeconds'' JInt (pe_UptimeSeconds e) @ omit_empty_string ''role'' (pe_Role e)
        @ omit_nil ''connections'' PostgresConnections_json (pe_Connections e))"
    by (erule opt_int64D [OF i(1)] c | rule Connections_typed typed_intros)+
  moreover have "fields_typed ?n ([''unreplayedBytes''] @ [''databases''] @ [''errors''])
     (omit_nil ''unreplayedBytes'' JInt (pe_UnreplayedBytes e)
        @ [(''databases'', JArr (map PostgresDatabase_json (pe_Databases e)))] @ omit_empty_map ''errors'' (pe_Errors e))"
    by (erule opt_int64D [OF i(2)] d | rule i(3) Database_typed typed_intros)+
  moreover have "fields_typed ?n [''longRunning''] fs" if "field ''longRunning'' (arr PostgresSession_json (pe_LongRunning e)) = Some fs" for fs
    using that by (rule fields_field) (erule typed_arr, erule Session_typed, erule s)
  moreover have "fields_typed ?n [''blocked''] fs" if "field ''blocked'' (arr PostgresBlocked_json (pe_Blocked e)) = Some fs" for fs
    using that by (rule fields_field) (erule typed_arr, erule Blocked_typed, erule b)
  moreover have "fields_typed ?n [''replicas''] fs" if "field ''replicas'' (arr PostgresReplica_json (pe_Replicas e)) = Some fs" for fs
    using that by (rule fields_field) (erule typed_arr, erule Replica_typed, erule r)
  ultimately show ?thesis
    by (intro typed_groups [OF j [unfolded PostgresEvent_json_def],
          where kss = "[[''serverId'', ''timestamp'', ''up'', ''error'', ''startedAt'', ''uptimeSeconds'', ''role'', ''connections''],
            [''longRunning''], [''blocked''], [''replicas''], [''replayDelaySeconds''], [''unreplayedBytes'', ''databases'', ''errors'']]"]
        list_all2_Cons [THEN iffD2] conjI)
      (simp_all add: fields_f64 [OF f])
qed

end
