(* ===== verification/Interfaces.thy ===== *)
theory Interfaces
  imports Events
begin

text \<open>
  The interfaces the components share, as locales, with what every client gets from them.

  \<^item> \<open>publisher\<close>: the Go interface \<^verbatim>\<open>Publisher\<close> that the tailer, the collectors and the heartbeat
    each declare with the one method \<^verbatim>\<open>PublishBatch\<close>. The Redis publisher is its interpretation.
  \<^item> \<open>failure_log\<close>: the "logged when it starts and when it clears" discipline that the storage,
    docker and postgres collectors keep with a map of what failed on the previous tick.
  \<^item> \<open>ticking\<close>: a component whose tick publishes exactly one event, driven by the select loop
    that every \<^verbatim>\<open>Run\<close> method ends in.
\<close>

section \<open>Publishing\<close>

text \<open>
  \<open>PublishBatch w ch ps\<close> sends \<open>ps\<close> to channel \<open>ch\<close> in the world \<open>w\<close> and returns the new world and
  how many payloads were accepted. \<open>sent\<close> is what has been handed to the transport, in order.
\<close>

type_synonym 'w publish = "'w \<Rightarrow> bytes \<Rightarrow> json list \<Rightarrow> 'w \<times> int"

locale publisher =
  fixes PublishBatch :: "'w publish"
    and sent :: "'w \<Rightarrow> (bytes \<times> json) list"
  assumes accepted_nonneg: "0 \<le> snd (PublishBatch w ch ps)"
    and accepted_le: "snd (PublishBatch w ch ps) \<le> int (length ps)"
    and sent_append: "sent (fst (PublishBatch w ch ps)) = sent w @ map (Pair ch) ps"
begin

lemma sent_one: "sent (fst (PublishBatch w ch [p])) = sent w @ [(ch, p)]"
  by (simp add: sent_append)

lemma sent_length: "length (sent (fst (PublishBatch w ch ps))) = length (sent w) + length ps"
  by (simp add: sent_append)

end

section \<open>Edge-triggered failure logging\<close>

text \<open>The changes in a sequence of outcomes, from a previous state.\<close>

fun edges :: "bool \<Rightarrow> bool list \<Rightarrow> bool list" where
  "edges prev [] = []"
| "edges prev (ok # oks) = (if ok = prev then edges prev oks else ok # edges ok oks)"

fun alternating :: "bool list \<Rightarrow> bool" where
  "alternating (a # b # xs) = (a \<noteq> b \<and> alternating (b # xs))"
| "alternating _ = True"

fun reports :: "('k \<Rightarrow> bool \<Rightarrow> 's \<Rightarrow> 's \<times> 'l list) \<Rightarrow> ('k \<times> bool) list \<Rightarrow> 's \<Rightarrow> 's \<times> 'l list" where
  "reports rep [] s = (s, [])"
| "reports rep ((k, ok) # rs) s =
     (let (s1, l1) = rep k ok s; (s2, l2) = reports rep rs s1 in (s2, l1 @ l2))"

definition outcomes_of :: "'k \<Rightarrow> ('k \<times> bool) list \<Rightarrow> bool list" where
  "outcomes_of k rs = map snd (filter (\<lambda>r. fst r = k) rs)"

lemma edges_not_prev: "edges prev oks = x # xs \<Longrightarrow> x \<noteq> prev"
  by (induction prev oks rule: edges.induct) (auto split: if_splits)

lemma alternating_edges: "alternating (edges prev oks)"
proof (induction prev oks rule: edges.induct)
  case (2 prev ok oks)
  show ?case
  proof (cases "edges ok oks")
    case (Cons x xs)
    with edges_not_prev [OF Cons] "2.IH" show ?thesis by auto
  qed (use "2.IH" in auto)
qed simp

lemma edges_constant: "edges prev (replicate n prev) = []"
  by (induction n) auto

lemma snd_reports_Cons:
  "snd (reports rep ((k, ok) # rs) s) = snd (rep k ok s) @ snd (reports rep rs (fst (rep k ok s)))"
  by (simp add: split_beta)

lemma fst_reports_Cons: "fst (reports rep ((k, ok) # rs) s) = fst (reports rep rs (fst (rep k ok s)))"
  by (simp add: split_beta)

lemma outcomes_of_append [simp]: "outcomes_of k (xs @ ys) = outcomes_of k xs @ outcomes_of k ys"
  by (simp add: outcomes_of_def)

lemma outcomes_of_Cons [simp]:
  "outcomes_of k ((k', ok) # xs) = (if k' = k then ok # outcomes_of k xs else outcomes_of k xs)"
  by (simp add: outcomes_of_def)

lemma outcomes_of_Nil [simp]: "outcomes_of k [] = []"
  by (simp add: outcomes_of_def)

locale failure_log =
  fixes failing :: "'s \<Rightarrow> 'k \<Rightarrow> bool"
    and report :: "'k \<Rightarrow> bool \<Rightarrow> 's \<Rightarrow> 's \<times> ('k \<times> bool) list"
  assumes failing_self: "failing (fst (report k ok s)) k = (\<not> ok)"
    and failing_other: "k' \<noteq> k \<Longrightarrow> failing (fst (report k ok s)) k' = failing s k'"
    and logged: "snd (report k ok s) = (if ok = failing s k then [(k, ok)] else [])"
begin

text \<open>
  However the reports on different keys interleave, the log of one key is exactly the changes of
  its own outcomes: one line when a failure starts and one when it clears.
\<close>

lemma log_is_edges:
  "outcomes_of k (snd (reports report rs s)) = edges (\<not> failing s k) (outcomes_of k rs)"
proof (induction rs arbitrary: s)
  case (Cons r rs)
  obtain k' ok where r: "r = (k', ok)" by (cases r)
  show ?case
    unfolding r snd_reports_Cons outcomes_of_append Cons.IH
    by (cases "k' = k") (auto simp: logged failing_self failing_other)
qed simp

lemma log_alternates: "alternating (outcomes_of k (snd (reports report rs s)))"
  by (simp add: log_is_edges alternating_edges)

text \<open>What is failing at the end is what the last line of its log says, or never changed.\<close>

lemma failing_last:
  "failing (fst (reports report rs s)) k =
     (if outcomes_of k (snd (reports report rs s)) = [] then failing s k
      else \<not> last (outcomes_of k (snd (reports report rs s))))"
proof (induction rs arbitrary: s)
  case (Cons r rs)
  obtain k' ok where r: "r = (k', ok)" by (cases r)
  let ?s = "fst (report k' ok s)"
  have "failing ?s k = (if outcomes_of k (snd (report k' ok s)) = [] then failing s k
      else \<not> last (outcomes_of k (snd (report k' ok s))))"
    by (cases "k' = k") (auto simp: logged failing_self failing_other)
  then show ?case using Cons.IH [of ?s] unfolding r snd_reports_Cons fst_reports_Cons outcomes_of_append by auto
qed simp

lemma steady_is_silent:
  "outcomes_of k rs = replicate n ok \<Longrightarrow> failing s k = (\<not> ok) \<Longrightarrow>
   outcomes_of k (snd (reports report rs s)) = []"
  using edges_constant [of ok n] by (simp add: log_is_edges)

end

text \<open>
  The code of every such report: a map from what is failing, one line when a key enters it and one
  when it leaves.
\<close>

definition edge_report :: "'k \<Rightarrow> bool \<Rightarrow> 'k set \<Rightarrow> 'k set \<times> ('k \<times> bool) list" where
  "edge_report k ok failing =
     (if ok then (if k \<in> failing then (failing - {k}, [(k, True)]) else (failing, []))
      else if k \<notin> failing then (insert k failing, [(k, False)]) else (failing, []))"

interpretation edge: failure_log "\<lambda>failing k. k \<in> failing" edge_report
  by unfold_locales (auto simp: edge_report_def)

lemma reports_append:
  "reports rep (xs @ ys) s =
     (let (s1, l1) = reports rep xs s; (s2, l2) = reports rep ys s1 in (s2, l1 @ l2))"
  by (induction xs arbitrary: s) (auto simp: split_beta Let_def)

lemma ex_reports_snoc:
  assumes "\<exists>rs. reports rep rs s = (s1, l1)"
  shows "\<exists>rs. reports rep rs s = (fst (rep k ok s1), l1 @ snd (rep k ok s1))"
proof -
  obtain rs where "reports rep rs s = (s1, l1)" using assms by blast
  then have "reports rep (rs @ [(k, ok)]) s = (fst (rep k ok s1), l1 @ snd (rep k ok s1))"
    by (simp add: reports_append split_beta)
  then show ?thesis by blast
qed

section \<open>The select loop of a collector\<close>

text \<open>
  One round of \<^verbatim>\<open>select { case <-ctx.Done(): ... case <-ticker.C: ... }\<close>: the context is
  cancelled, or the ticker fires, with what the tick then observes.
\<close>

datatype 'e select = CtxDone | Fire 'e

fun select_loop :: "('e \<Rightarrow> 's \<Rightarrow> 's) \<Rightarrow> 'e select list \<Rightarrow> 's \<Rightarrow> 's" where
  "select_loop tick [] s = s"
| "select_loop tick (CtxDone # _) s = s"
| "select_loop tick (Fire e # es) s = select_loop tick es (tick e s)"

fun fired :: "'e select list \<Rightarrow> 'e list" where
  "fired [] = []"
| "fired (CtxDone # _) = []"
| "fired (Fire e # es) = e # fired es"

lemma select_loop_stops: "select_loop tick (map Fire es @ CtxDone # rest) s = fold tick es s"
  by (induction es arbitrary: s) auto

lemma select_loop_fired: "select_loop tick es s = fold tick (fired es) s"
  by (induction es arbitrary: s rule: fired.induct) auto

text \<open>
  \<^verbatim>\<open>config.WaitForStartup\<close>: the wait is the startup delay or the interval, whichever is shorter, and
  it fails when the context is cancelled sooner. \<open>cancelled\<close> is how long after the call that happens,
  if ever.
\<close>

definition StartupDelay :: duration where
  "StartupDelay = second"

definition WaitForStartup :: "duration option \<Rightarrow> duration \<Rightarrow> bool" where
  "WaitForStartup cancelled interval =
     (let wait = (if interval < StartupDelay then interval else StartupDelay)
      in case cancelled of None \<Rightarrow> True | Some t \<Rightarrow> wait \<le> t)"

text \<open>What every \<^verbatim>\<open>Run\<close> method does: wait for startup, tick once, then tick until cancelled.\<close>

definition run_ticks :: "duration option \<Rightarrow> duration \<Rightarrow> ('e \<Rightarrow> 's \<Rightarrow> 's) \<Rightarrow> 'e \<Rightarrow> 'e select list \<Rightarrow> 's \<Rightarrow> 's" where
  "run_ticks cancelled interval tick first es s =
     (if \<not> WaitForStartup cancelled interval then s else select_loop tick es (tick first s))"

definition run_fired :: "duration option \<Rightarrow> duration \<Rightarrow> 'e \<Rightarrow> 'e select list \<Rightarrow> 'e list" where
  "run_fired cancelled interval first es =
     (if \<not> WaitForStartup cancelled interval then [] else first # fired es)"

lemma run_ticks_fired: "run_ticks cancelled interval tick first es s = fold tick (run_fired cancelled interval first es) s"
  by (simp add: run_ticks_def run_fired_def select_loop_fired)

text \<open>
  An event belongs to a channel and a server when it was sent to that channel and carries the
  server's id. \<open>good e\<close> is what a tick has to observe for its event to be published; a component
  whose event can always be serialised has no such condition.
\<close>

definition belongs :: "bytes \<times> bytes \<Rightarrow> bytes \<times> json \<Rightarrow> bool" where
  "belongs ident p \<longleftrightarrow> fst p = fst ident \<and> obj_field (snd p) ''serverId'' = Some (JStr (snd ident))"

locale ticking =
  fixes tick :: "'e \<Rightarrow> 's \<Rightarrow> 's"
    and published :: "'s \<Rightarrow> (bytes \<times> json) list"
    and ident :: "'s \<Rightarrow> bytes \<times> bytes"
    and good :: "'e \<Rightarrow> bool"
  assumes tick_one: "good e \<Longrightarrow> \<exists>p. published (tick e s) = published s @ [p] \<and> belongs (ident s) p"
    and tick_none: "\<not> good e \<Longrightarrow> published (tick e s) = published s"
    and tick_ident: "ident (tick e s) = ident s"
begin

lemma ticks_published:
  "\<exists>ps. published (fold tick es s) = published s @ ps \<and> length ps = length (filter good es)
     \<and> list_all (belongs (ident s)) ps"
proof (induction es arbitrary: s)
  case (Cons e es)
  obtain ps where ps: "published (fold tick es (tick e s)) = published (tick e s) @ ps"
    "length ps = length (filter good es)" "list_all (belongs (ident s)) ps"
    using Cons.IH [of "tick e s"] by (auto simp: tick_ident)
  show ?case
  proof (cases "good e")
    case True
    then obtain p where "published (tick e s) = published s @ [p]" "belongs (ident s) p"
      using tick_one by blast
    then show ?thesis using ps True by (intro exI [of _ "p # ps"]) simp
  next
    case False
    then show ?thesis using ps tick_none [OF False] by (intro exI [of _ ps]) simp
  qed
qed simp

lemma run_published:
  "\<exists>ps. published (run_ticks cancelled interval tick first es s) = published s @ ps
     \<and> length ps = length (filter good (run_fired cancelled interval first es))
     \<and> list_all (belongs (ident s)) ps"
  by (simp add: run_ticks_fired ticks_published)

end

end
