(* ===== verification/RedisPublisher.thy ===== *)
theory RedisPublisher
  imports Interfaces
begin

text \<open>
  \<^verbatim>\<open>src/redis/publisher.go\<close>: one pipelined round trip per batch, a tally of the replies, and the
  throttled failure and no-subscriber log lines.

  The Redis server and the clock are inputs: \<open>replies k\<close> is the answer to the \<open>k\<close>-th \<^verbatim>\<open>PUBLISH\<close> ever
  queued (an error text, or the number of subscribers that received it) and \<open>clock k\<close> the \<open>k\<close>-th reading
  of the clock. \<open>wire\<close> is every command queued so far and \<open>journal\<close> the log lines, each with the
  reading that let it through. The functions here are one call by itself; \<open>PublisherConc\<close> interleaves
  the calls of several goroutines.
\<close>

definition errLogInterval :: duration where
  "errLogInterval = 5 * second"

definition noSubLogInterval :: duration where
  "noSubLogInterval = 60 * second"

datatype redis_log =
    PublishFailing (log_time: time) bytes u64 bytes
  | NoSubscribers (log_time: time) bytes u64

record redis =
  failures :: u64
  lastErrLog :: time
  noSubs :: u64
  lastSubLog :: time
  wire :: "(bytes \<times> json) list"
  replies :: "nat \<Rightarrow> bytes + int"
  clock :: "nat \<Rightarrow> time"
  readings :: nat
  journal :: "redis_log list"

definition redis_New :: "(nat \<Rightarrow> bytes + int) \<Rightarrow> (nat \<Rightarrow> time) \<Rightarrow> redis" where
  "redis_New rep clk =
     \<lparr>failures = 0, lastErrLog = 0, noSubs = 0, lastSubLog = 0, wire = [], replies = rep,
      clock = clk, readings = 0, journal = []\<rparr>"

definition logFailure :: "bytes \<Rightarrow> u64 \<Rightarrow> bytes \<Rightarrow> redis \<Rightarrow> redis" where
  "logFailure channel count err p0 =
     (let p = p0\<lparr>failures := failures p0 + count\<rparr>;
          t = clock p (readings p)
      in if errLogInterval \<le> time_sub t (lastErrLog p)
         then p\<lparr>journal := journal p @ [PublishFailing t channel (failures p) err],
                lastErrLog := clock p (Suc (readings p)), readings := Suc (Suc (readings p)),
                failures := 0\<rparr>
         else p\<lparr>readings := Suc (readings p)\<rparr>)"

definition logNoSubscribers :: "bytes \<Rightarrow> u64 \<Rightarrow> redis \<Rightarrow> redis" where
  "logNoSubscribers channel count p0 =
     (let p = p0\<lparr>noSubs := noSubs p0 + count\<rparr>;
          t = clock p (readings p)
      in if noSubLogInterval \<le> time_sub t (lastSubLog p)
         then p\<lparr>journal := journal p @ [NoSubscribers t channel (noSubs p)],
                lastSubLog := clock p (Suc (readings p)), readings := Suc (Suc (readings p)),
                noSubs := 0\<rparr>
         else p\<lparr>readings := Suc (readings p)\<rparr>)"

record tally =
  shipped_n :: nat
  failed_n :: nat
  noSubs_n :: nat
  firstErr :: "bytes option"

definition tally_cmd :: "bytes + int \<Rightarrow> tally \<Rightarrow> tally" where
  "tally_cmd cmd t =
     (case cmd of
        Inl e \<Rightarrow> t\<lparr>failed_n := Suc (failed_n t),
                   firstErr := (case firstErr t of None \<Rightarrow> Some e | Some x \<Rightarrow> Some x)\<rparr>
      | Inr subs \<Rightarrow>
          let t = t\<lparr>shipped_n := Suc (shipped_n t)\<rparr>
          in if subs = 0 then t\<lparr>noSubs_n := Suc (noSubs_n t)\<rparr> else t)"

definition tally_cmds :: "(bytes + int) list \<Rightarrow> tally" where
  "tally_cmds cmds = fold tally_cmd cmds \<lparr>shipped_n = 0, failed_n = 0, noSubs_n = 0, firstErr = None\<rparr>"

definition PublishBatch :: "redis publish" where
  "PublishBatch p channel payloads =
     (let cmds = map (\<lambda>i. replies p (length (wire p) + i)) [0..<length payloads];
          p = p\<lparr>wire := wire p @ map (Pair channel) payloads\<rparr>;
          t = tally_cmds cmds;
          p = (if 0 < failed_n t
               then logFailure channel (of_nat (failed_n t)) (case firstErr t of None \<Rightarrow> [] | Some e \<Rightarrow> e) p
               else p);
          p = (if 0 < noSubs_n t then logNoSubscribers channel (of_nat (noSubs_n t)) p else p)
      in (p, int (shipped_n t)))"

fun publish_all :: "(bytes \<times> json list) list \<Rightarrow> redis \<Rightarrow> redis" where
  "publish_all [] p = p"
| "publish_all ((ch, ps) # bs) p = publish_all bs (fst (PublishBatch p ch ps))"

section \<open>The tally\<close>

lemma fold_tally:
  "shipped_n (fold tally_cmd cmds t) = shipped_n t + length (filter is_ok cmds)"
  "failed_n (fold tally_cmd cmds t) = failed_n t + length (filter (\<lambda>c. \<not> is_ok c) cmds)"
  "noSubs_n (fold tally_cmd cmds t) = noSubs_n t + length (filter (\<lambda>c. c = Inr 0) cmds)"
  by (induction cmds arbitrary: t) (auto simp: tally_cmd_def Let_def split: sum.splits)

lemma tally_counts:
  "shipped_n (tally_cmds cmds) = length (filter is_ok cmds)"
  "failed_n (tally_cmds cmds) = length (filter (\<lambda>c. \<not> is_ok c) cmds)"
  "noSubs_n (tally_cmds cmds) = length (filter (\<lambda>c. c = Inr 0) cmds)"
  by (simp_all add: tally_cmds_def fold_tally)

lemma tally_total: "shipped_n (tally_cmds cmds) + failed_n (tally_cmds cmds) = length cmds"
  by (simp add: tally_counts sum_length_filter_compl)

lemma firstErr_fold:
  "firstErr (fold tally_cmd cmds t) =
     (case firstErr t of Some e \<Rightarrow> Some e
      | None \<Rightarrow> (case filter (\<lambda>c. \<not> is_ok c) cmds of [] \<Rightarrow> None | c # _ \<Rightarrow> Some (projl c)))"
  by (induction cmds arbitrary: t)
     (auto simp: tally_cmd_def Let_def split: sum.splits option.splits)

section \<open>The interface\<close>

lemma logFailure_wire [simp]: "wire (logFailure ch n e p) = wire p"
  by (simp add: logFailure_def Let_def)

lemma logNoSubscribers_wire [simp]: "wire (logNoSubscribers ch n p) = wire p"
  by (simp add: logNoSubscribers_def Let_def)

lemma PublishBatch_wire [simp]: "wire (fst (PublishBatch p ch ps)) = wire p @ map (Pair ch) ps"
  by (simp add: PublishBatch_def Let_def)

lemma PublishBatch_accepted:
  "snd (PublishBatch p ch ps) =
     int (length (filter is_ok (map (\<lambda>i. replies p (length (wire p) + i)) [0..<length ps])))"
  by (simp add: PublishBatch_def Let_def tally_counts)

interpretation redis_publisher: publisher PublishBatch wire
proof
  fix w ch ps
  show "0 \<le> snd (PublishBatch w ch ps)" by (simp add: PublishBatch_accepted)
  show "snd (PublishBatch w ch ps) \<le> int (length ps)"
    unfolding PublishBatch_accepted by (metis diff_zero length_filter_le length_map length_upt of_nat_mono)
  show "wire (fst (PublishBatch w ch ps)) = wire w @ map (Pair ch) ps" by simp
qed

section \<open>Throttling\<close>

fun is_failing :: "redis_log \<Rightarrow> bool" where
  "is_failing (PublishFailing _ _ _ _) = True"
| "is_failing (NoSubscribers _ _ _) = False"

definition spaced :: "duration \<Rightarrow> time list \<Rightarrow> bool" where
  "spaced d ts \<longleftrightarrow> sorted_wrt (\<lambda>a b. a + d \<le> b) ts"

definition failing_times :: "redis \<Rightarrow> time list" where
  "failing_times p = map log_time (filter is_failing (journal p))"

definition no_sub_times :: "redis \<Rightarrow> time list" where
  "no_sub_times p = map log_time (filter (\<lambda>l. \<not> is_failing l) (journal p))"

text \<open>
  The invariant: the lines of each kind are at least its interval apart, and none is later than
  the time kept in \<^verbatim>\<open>lastErrLog\<close> or \<^verbatim>\<open>lastSubLog\<close>. The clock never goes backwards.
\<close>

definition throttled :: "redis \<Rightarrow> bool" where
  "throttled p \<longleftrightarrow> spaced errLogInterval (failing_times p) \<and> spaced noSubLogInterval (no_sub_times p)
     \<and> (\<forall>t \<in> set (failing_times p). t \<le> lastErrLog p)
     \<and> (\<forall>t \<in> set (no_sub_times p). t \<le> lastSubLog p) \<and> mono (clock p)"

lemma spaced_snoc: "spaced d (ts @ [t]) \<longleftrightarrow> spaced d ts \<and> (\<forall>u \<in> set ts. u + d \<le> t)"
  by (auto simp: spaced_def sorted_wrt_append)

lemma errLogInterval_le: "errLogInterval \<le> time_sub t u \<longleftrightarrow> u + errLogInterval \<le> t"
  by (rule time_sub_ge_iff) (simp_all add: errLogInterval_def)

lemma noSubLogInterval_le: "noSubLogInterval \<le> time_sub t u \<longleftrightarrow> u + noSubLogInterval \<le> t"
  by (rule time_sub_ge_iff) (simp_all add: noSubLogInterval_def)

lemma interval_pos: "0 < errLogInterval" "0 < noSubLogInterval"
  by (simp_all add: errLogInterval_def noSubLogInterval_def)

lemma logFailure_throttled [inv_intros]:
  assumes "throttled p"
  shows "throttled (logFailure ch n e p)"
proof (cases "lastErrLog p + errLogInterval \<le> clock p (readings p)")
  case True
  let ?t = "clock p (readings p)" and ?t' = "clock p (Suc (readings p))"
  have le: "?t \<le> ?t'" using assms by (simp add: throttled_def monoD)
  have old: "u + errLogInterval \<le> ?t \<and> u \<le> ?t'" if "u \<in> set (failing_times p)" for u
    using that assms True le interval_pos(1) by (fastforce simp: throttled_def)
  have j: "failing_times (logFailure ch n e p) = failing_times p @ [?t]"
    "no_sub_times (logFailure ch n e p) = no_sub_times p"
    using True by (simp_all add: logFailure_def Let_def errLogInterval_le failing_times_def no_sub_times_def)
  have l: "lastErrLog (logFailure ch n e p) = ?t'" "lastSubLog (logFailure ch n e p) = lastSubLog p"
    "clock (logFailure ch n e p) = clock p"
    using True by (simp_all add: logFailure_def Let_def errLogInterval_le)
  show ?thesis using assms le old unfolding throttled_def j l by (auto simp: spaced_snoc)
next
  case False
  then show ?thesis using assms
    by (simp add: logFailure_def Let_def errLogInterval_le throttled_def failing_times_def no_sub_times_def)
qed

lemma logNoSubscribers_throttled [inv_intros]:
  assumes "throttled p"
  shows "throttled (logNoSubscribers ch n p)"
proof (cases "lastSubLog p + noSubLogInterval \<le> clock p (readings p)")
  case True
  let ?t = "clock p (readings p)" and ?t' = "clock p (Suc (readings p))"
  have le: "?t \<le> ?t'" using assms by (simp add: throttled_def monoD)
  have old: "u + noSubLogInterval \<le> ?t \<and> u \<le> ?t'" if "u \<in> set (no_sub_times p)" for u
    using that assms True le interval_pos(2) by (fastforce simp: throttled_def)
  have j: "no_sub_times (logNoSubscribers ch n p) = no_sub_times p @ [?t]"
    "failing_times (logNoSubscribers ch n p) = failing_times p"
    using True by (simp_all add: logNoSubscribers_def Let_def noSubLogInterval_le failing_times_def no_sub_times_def)
  have l: "lastSubLog (logNoSubscribers ch n p) = ?t'" "lastErrLog (logNoSubscribers ch n p) = lastErrLog p"
    "clock (logNoSubscribers ch n p) = clock p"
    using True by (simp_all add: logNoSubscribers_def Let_def noSubLogInterval_le)
  show ?thesis using assms le old unfolding throttled_def j l by (auto simp: spaced_snoc)
next
  case False
  then show ?thesis using assms
    by (simp add: logNoSubscribers_def Let_def noSubLogInterval_le throttled_def failing_times_def no_sub_times_def)
qed

lemma throttled_wire [simp]: "throttled (p\<lparr>wire := w\<rparr>) = throttled p"
  by (simp add: throttled_def failing_times_def no_sub_times_def)

lemma PublishBatch_throttled [inv_intros]: "throttled p \<Longrightarrow> throttled (fst (PublishBatch p ch ps))"
  by (simp add: PublishBatch_def Let_def inv_intros)

lemma publish_all_throttled: "throttled p \<Longrightarrow> throttled (publish_all bs p)"
  by (induction bs p rule: publish_all.induct) (auto intro: inv_intros)

lemma redis_New_throttled: "mono clk \<Longrightarrow> throttled (redis_New rep clk)"
  by (simp add: throttled_def redis_New_def failing_times_def no_sub_times_def spaced_def)

section \<open>No failure goes uncounted\<close>

fun logged_failures :: "redis_log list \<Rightarrow> u64" where
  "logged_failures [] = 0"
| "logged_failures (PublishFailing _ _ n _ # ls) = n + logged_failures ls"
| "logged_failures (NoSubscribers _ _ _ # ls) = logged_failures ls"

lemma logged_failures_append [simp]:
  "logged_failures (xs @ ys) = logged_failures xs + logged_failures ys"
  by (induction xs rule: logged_failures.induct) (auto simp: add.assoc)

definition counted_failures :: "redis \<Rightarrow> u64" where
  "counted_failures p = logged_failures (journal p) + failures p"

lemma logFailure_counted: "counted_failures (logFailure ch n e p) = counted_failures p + n"
  by (simp add: counted_failures_def logFailure_def Let_def add.assoc)

lemma logNoSubscribers_counted: "counted_failures (logNoSubscribers ch n p) = counted_failures p"
  by (simp add: counted_failures_def logNoSubscribers_def Let_def)

lemma PublishBatch_counted:
  "counted_failures (fst (PublishBatch p ch ps)) =
     counted_failures p + of_nat (length ps) - of_int (snd (PublishBatch p ch ps))"
proof -
  let ?cmds = "map (\<lambda>i. replies p (length (wire p) + i)) [0..<length ps]"
  have "shipped_n (tally_cmds ?cmds) + failed_n (tally_cmds ?cmds) = length ps"
    by (simp add: tally_total)
  then have "of_nat (shipped_n (tally_cmds ?cmds) + failed_n (tally_cmds ?cmds)) = (of_nat (length ps) :: u64)"
    by (rule arg_cong)
  then have "of_nat (failed_n (tally_cmds ?cmds)) = (of_nat (length ps) - of_nat (shipped_n (tally_cmds ?cmds)) :: u64)"
    by (simp add: eq_diff_eq add.commute)
  moreover have "counted_failures (p\<lparr>wire := w\<rparr>) = counted_failures p" for w
    by (simp add: counted_failures_def)
  ultimately show ?thesis
    by (auto simp: PublishBatch_def Let_def logFailure_counted logNoSubscribers_counted algebra_simps)
qed

section \<open>Properties\<close>

text \<open>
  The failure and no-subscriber log lines are throttled: whatever is published and whatever
  Redis answers, two failure lines are at least five seconds apart and two no-subscriber lines at
  least a minute, on any clock that does not run backwards.
\<close>

theorem redis_log_throttled:
  assumes "mono clk"
  shows "spaced (5 * second) (failing_times (publish_all bs (redis_New rep clk)))
     \<and> spaced (60 * second) (no_sub_times (publish_all bs (redis_New rep clk)))"
  using publish_all_throttled [OF redis_New_throttled [OF assms, of rep], of bs]
  by (simp add: throttled_def errLogInterval_def noSubLogInterval_def)

theorem redis_log_throttled_witness:
  "spaced (5 * second) (failing_times (publish_all [(''ch'', [JBool True]), (''ch'', [JBool True])]
     (redis_New (\<lambda>_. Inl ''refused'') (\<lambda>k. 10 ^ 18 + 3 * second * int k))))"
proof -
  have "mono (\<lambda>k. 10 ^ 18 + 3 * second * int k)" by (rule monoI) simp
  from redis_log_throttled [OF this] show ?thesis by blast
qed

text \<open>
  A batch is accounted for exactly: the pipeline carries its payloads to the channel in order,
  the count returned is the number of replies without an error, and every payload that failed is
  added to the failures that have been logged or are still to be logged.
\<close>

theorem redis_batch_accounted:
  "wire (fst (PublishBatch p ch ps)) = wire p @ map (Pair ch) ps
   \<and> snd (PublishBatch p ch ps)
       = int (length (filter is_ok (map (\<lambda>i. replies p (length (wire p) + i)) [0..<length ps])))
   \<and> counted_failures (fst (PublishBatch p ch ps))
       = counted_failures p + of_nat (length ps) - of_int (snd (PublishBatch p ch ps))"
  using PublishBatch_counted [of p ch ps] PublishBatch_accepted [of p ch ps] by simp

end
