(* ===== verification/Tailer.thy ===== *)
theory Tailer
  imports RedisPublisher
begin

text \<open>
  \<^verbatim>\<open>src/logs/tailer.go\<close>: following one log file, or the newest file matching a pattern, and
  publishing each complete line.

  The kernel is an input. One iteration of the main loop of \<^verbatim>\<open>Run\<close> is given what each of its system
  calls answers (record \<open>env\<close>), every call separately, since the file system can change between
  any two of them; one round of the inner drain loop likewise (\<open>drain_env\<close>). A file handle is a
  number. \<^verbatim>\<open>sleep\<close> changes no state, so an iteration returns how long it would sleep.
  The read buffer \<^verbatim>\<open>buf\<close> is overwritten before each use and has no state of its own, and of the log
  lines only the heartbeat is kept, since it is the one that carries and resets state.
\<close>

definition maxLineBytes :: nat where
  "maxLineBytes = 1024 * 1024"

definition readBufSize :: nat where
  "readBufSize = 64 * 1024"

definition pollInterval :: duration where
  "pollInterval = 200000000"

definition rotationCheckEvery :: int where
  "rotationCheckEvery = 25"

definition retryDelay :: duration where
  "retryDelay = second"

definition waitForFileDelay :: duration where
  "waitForFileDelay = second"

definition heartbeatInterval :: duration where
  "heartbeatInterval = 5 * 60 * second"

section \<open>State\<close>

record 'w Tailer =
  t_pattern :: bytes
  t_glob :: bool
  t_path :: bytes
  t_left :: "u64 set"
  t_channel :: bytes
  t_serverID :: bytes
  t_world :: 'w
  t_batch :: "json list"
  t_shipped :: int

definition tailer_New :: "bytes \<Rightarrow> bytes \<Rightarrow> bytes \<Rightarrow> 'w \<Rightarrow> 'w Tailer" where
  "tailer_New path channel serverID w =
     \<lparr>t_pattern = path, t_glob = ContainsAny path ''*?['', t_path = path, t_left = {},
      t_channel = channel, t_serverID = serverID, t_world = w, t_batch = [], t_shipped = 0\<rparr>"

datatype syserr = ENOENT | EOther bytes

record finfo =
  fi_size :: int
  fi_mtime :: time
  fi_ino :: u64
  fi_regular :: bool

section \<open>Extracting and publishing lines\<close>

definition bom :: bytes where
  "bom = [CHR 0xEF, CHR 0xBB, CHR 0xBF]"

definition appendEvent :: "(nat \<Rightarrow> bytes) \<Rightarrow> bytes \<Rightarrow> 'w Tailer \<Rightarrow> 'w Tailer" where
  "appendEvent stamp line t =
     (case LogEvent_json \<lparr>le_ServerID = t_serverID t, le_Path = t_path t, le_Channel = t_channel t,
             le_Timestamp = stamp (length (t_batch t)), le_Message = line\<rparr> of
        None \<Rightarrow> t
      | Some payload \<Rightarrow> t\<lparr>t_batch := t_batch t @ [payload]\<rparr>)"

definition publishBatch :: "'w publish \<Rightarrow> 'w Tailer \<Rightarrow> 'w Tailer" where
  "publishBatch pb t =
     (if t_batch t = [] then t
      else let (w, n) = pb (t_world t) (t_channel t) (t_batch t)
           in t\<lparr>t_world := w, t_shipped := t_shipped t + n, t_batch := []\<rparr>)"

definition clean_line :: "bytes \<Rightarrow> bytes" where
  "clean_line line = ReplaceAll (ReplaceAll line bom []) [CHR 0x0D] []"

function flush_loop :: "(nat \<Rightarrow> bytes) \<Rightarrow> bytes \<Rightarrow> 'w Tailer \<Rightarrow> nat \<Rightarrow> 'w Tailer \<times> nat" where
  "flush_loop stamp data t consumed =
     (case IndexByte (drop consumed data) newline of
        None \<Rightarrow> (t, consumed)
      | Some idx \<Rightarrow>
          let line = clean_line (take idx (drop consumed data))
          in flush_loop stamp data (if line = [] then t else appendEvent stamp line t)
               (consumed + idx + 1))"
  by pat_completeness auto
termination
  by (relation "measure (\<lambda>(stamp, data, t, consumed). length data - consumed)")
     (auto dest!: IndexByte_Some)

declare flush_loop.simps [simp del]

definition flushCompleteLines ::
  "'w publish \<Rightarrow> (nat \<Rightarrow> bytes) \<Rightarrow> 'w Tailer \<Rightarrow> bytes \<Rightarrow> 'w Tailer \<times> bytes" where
  "flushCompleteLines pb stamp t data =
     (if maxLineBytes < length data
      then (publishBatch pb (appendEvent stamp (take maxLineBytes data) t), drop maxLineBytes data)
      else let (t, consumed) = flush_loop stamp data t 0
           in (publishBatch pb t, drop consumed data))"

section \<open>Choosing and opening a file\<close>

definition newest_step ::
  "(bytes \<Rightarrow> syserr + finfo) \<Rightarrow> u64 set \<Rightarrow> bytes \<Rightarrow> bytes \<times> time \<times> u64 set \<Rightarrow> bytes \<times> time \<times> u64 set" where
  "newest_step stat left m acc =
     (case acc of (newest, newestM, present) \<Rightarrow>
        (case stat m of
           Inl _ \<Rightarrow> (newest, newestM, present)
         | Inr info \<Rightarrow>
             if \<not> fi_regular info then (newest, newestM, present)
             else let present = insert (fi_ino info) present
                  in if fi_ino info \<in> left then (newest, newestM, present)
                     else if newest = [] \<or> newestM < fi_mtime info
                         \<or> (fi_mtime info = newestM \<and> newest < m)
                       then (m, fi_mtime info, present)
                       else (newest, newestM, present)))"

definition newestMatch ::
  "bytes list \<Rightarrow> (bytes \<Rightarrow> syserr + finfo) \<Rightarrow> 'w Tailer \<Rightarrow> 'w Tailer \<times> bytes \<times> time" where
  "newestMatch matches stat t =
     (case fold (newest_step stat (t_left t)) matches ([], 0, {}) of
        (newest, newestM, present) \<Rightarrow> (t\<lparr>t_left := t_left t \<inter> present\<rparr>, newest, newestM))"

definition hasNewerMatch ::
  "syserr + finfo \<Rightarrow> bytes list \<Rightarrow> (bytes \<Rightarrow> syserr + finfo) \<Rightarrow> 'w Tailer \<Rightarrow> 'w Tailer \<times> bool" where
  "hasNewerMatch fstat matches stat t =
     (case fstat of
        Inl _ \<Rightarrow> (t, False)
      | Inr info \<Rightarrow>
          (case newestMatch matches stat t of
             (t', newest, mtime) \<Rightarrow>
               (t', newest \<noteq> [] \<and> newest \<noteq> t_path t \<and> fi_mtime info < mtime)))"

definition hasBeenReplaced :: "syserr + u64 \<Rightarrow> u64 \<Rightarrow> bool \<times> syserr option" where
  "hasBeenReplaced ino knownIno =
     (case ino of
        Inl ENOENT \<Rightarrow> (False, None)
      | Inl err \<Rightarrow> (False, Some err)
      | Inr currentIno \<Rightarrow> (currentIno \<noteq> knownIno, None))"

definition openFile ::
  "syserr + u64 \<Rightarrow> syserr + nat \<Rightarrow> (nat \<Rightarrow> syserr + int) \<Rightarrow> bool \<Rightarrow> syserr + nat \<times> u64 \<times> int" where
  "openFile ino opened seekEnd startAtEnd =
     (case ino of
        Inl err \<Rightarrow> Inl err
      | Inr ino \<Rightarrow>
          (case opened of
             Inl err \<Rightarrow> Inl err
           | Inr f \<Rightarrow>
               if startAtEnd
               then (case seekEnd f of Inl err \<Rightarrow> Inl err | Inr offset \<Rightarrow> Inr (f, ino, offset))
               else Inr (f, ino, 0)))"

section \<open>The main loop\<close>

datatype tailer_log = TailerHeartbeat bytes bytes int

record 'w run =
  r_t :: "'w Tailer"
  r_f :: "nat option"
  r_fileIno :: u64
  r_offset :: int
  r_lineBuffer :: bytes
  r_startAtEnd :: bool
  r_cycle :: int
  r_switchPending :: bool
  r_lastHeartbeat :: time
  r_log :: "tailer_log list"

definition run_init :: "time \<Rightarrow> 'w Tailer \<Rightarrow> 'w run" where
  "run_init now t =
     \<lparr>r_t = t, r_f = None, r_fileIno = 0, r_offset = 0, r_lineBuffer = [], r_startAtEnd = True,
      r_cycle = 0, r_switchPending = False, r_lastHeartbeat = now, r_log = []\<rparr>"

text \<open>The closure \<^verbatim>\<open>heartbeat\<close>, with the two clock readings it takes.\<close>

definition heartbeat :: "time \<times> time \<Rightarrow> 'w run \<Rightarrow> 'w run" where
  "heartbeat clk s =
     (if heartbeatInterval \<le> time_sub (fst clk) (r_lastHeartbeat s)
      then s\<lparr>r_log := r_log s @ [TailerHeartbeat (t_path (r_t s)) (t_channel (r_t s)) (t_shipped (r_t s))],
             r_t := (r_t s)\<lparr>t_shipped := 0\<rparr>, r_lastHeartbeat := snd clk\<rparr>
      else s)"

definition close_file :: "'w run \<Rightarrow> 'w run" where
  "close_file s = s\<lparr>r_f := None, r_lineBuffer := []\<rparr>"

datatype read_err = NoErr | EOF | ReadErr bytes

record drain_env =
  d_ReadAt :: "nat \<Rightarrow> int \<Rightarrow> bytes \<times> read_err"
  d_Stat :: "nat \<Rightarrow> syserr + finfo"
  d_ctxErr :: bool
  d_clock :: "time \<times> time"
  d_stamp :: "nat \<Rightarrow> bytes"

datatype drained = Drained | DrainErr | DrainReturn | DrainMore

text \<open>The first half of a drain round: read, and flush what was read.\<close>

definition drain_read :: "'w publish \<Rightarrow> (nat \<Rightarrow> bytes) \<Rightarrow> bytes \<Rightarrow> 'w run \<Rightarrow> 'w run" where
  "drain_read pb stamp data s =
     (if data = [] then s
      else case flushCompleteLines pb stamp (r_t s) (r_lineBuffer s @ data) of
        (t, rest) \<Rightarrow>
          s\<lparr>r_offset := r_offset s + int (length data), r_t := t, r_lineBuffer := rest\<rparr>)"

text \<open>
  The drain loop \<^verbatim>\<open>for size > offset\<close>. Its rounds are given as a list; \<open>DrainMore\<close> means that the
  list ended while the loop was still running.
\<close>

fun drain :: "'w publish \<Rightarrow> nat \<Rightarrow> drain_env list \<Rightarrow> 'w run \<Rightarrow> int \<Rightarrow> drained \<times> 'w run" where
  "drain pb f [] s sz = (if r_offset s < sz then DrainMore else Drained, s)"
| "drain pb f (d # ds) s sz =
     (if \<not> r_offset s < sz then (Drained, s)
      else case d_ReadAt d f (r_offset s) of
        (data, err) \<Rightarrow>
          let s = drain_read pb (d_stamp d) data s
          in case err of
               ReadErr _ \<Rightarrow> (DrainErr, close_file s)
             | _ \<Rightarrow>
                 (case d_Stat d f of
                    Inl _ \<Rightarrow> (Drained, s)
                  | Inr info \<Rightarrow>
                      if d_ctxErr d then (DrainReturn, s)
                      else drain pb f ds (heartbeat (d_clock d) s) (fi_size info)))"

record env =
  e_ctxErr :: bool
  e_clock :: "time \<times> time"
  e_glob :: "bytes list"
  e_stat :: "bytes \<Rightarrow> syserr + finfo"
  e_ino :: "bytes \<Rightarrow> syserr + u64"
  e_open :: "bytes \<Rightarrow> syserr + nat"
  e_seekEnd :: "nat \<Rightarrow> syserr + int"
  e_rotStat :: "bytes \<Rightarrow> syserr + finfo"
  e_rotIno :: "bytes \<Rightarrow> syserr + u64"
  e_newerFstat :: "nat \<Rightarrow> syserr + finfo"
  e_newerGlob :: "bytes list"
  e_newerStat :: "bytes \<Rightarrow> syserr + finfo"
  e_fstat :: "nat \<Rightarrow> syserr + finfo"
  e_drain :: "drain_env list"

text \<open>\<^verbatim>\<open>if f == nil { ... }\<close>: the open file and its handle, or a sleep and another iteration.\<close>

definition find_file :: "env \<Rightarrow> 'w run \<Rightarrow> 'w run \<times> bool" where
  "find_file e s =
     (if t_glob (r_t s)
      then case newestMatch (e_glob e) (e_stat e) (r_t s) of
        (t, newest, _) \<Rightarrow>
          if newest = [] then (s\<lparr>r_t := t\<rparr>, False) else (s\<lparr>r_t := t\<lparr>t_path := newest\<rparr>\<rparr>, True)
      else (s, e_stat e (t_path (r_t s)) \<noteq> Inl ENOENT))"

definition open_phase :: "env \<Rightarrow> 'w run \<Rightarrow> duration \<times> 'w run + nat \<times> 'w run" where
  "open_phase e s =
     (case r_f s of
        Some f \<Rightarrow> Inr (f, s)
      | None \<Rightarrow>
          (case find_file e (s\<lparr>r_switchPending := False\<rparr>) of
             (s, False) \<Rightarrow> Inl (waitForFileDelay, s)
           | (s, True) \<Rightarrow>
               let path = t_path (r_t s)
               in case openFile (e_ino e path) (e_open e path) (e_seekEnd e) (r_startAtEnd s) of
                    Inl _ \<Rightarrow> Inl (retryDelay, s\<lparr>r_f := None, r_fileIno := 0, r_offset := 0\<rparr>)
                  | Inr (f, ino, offset) \<Rightarrow>
                      Inr (f, s\<lparr>r_f := Some f, r_fileIno := ino, r_offset := offset,
                               r_startAtEnd := False\<rparr>)))"

text \<open>The rotation check: \<open>None\<close> where the file was closed and the loop continues.\<close>

definition rotation_phase :: "env \<Rightarrow> nat \<Rightarrow> 'w run \<Rightarrow> 'w run \<times> bool" where
  "rotation_phase e f s =
     (if r_cycle s mod rotationCheckEvery \<noteq> 0 then (s, True)
      else let path = t_path (r_t s)
        in if e_rotStat e path = Inl ENOENT then (close_file s, False)
           else if fst (hasBeenReplaced (e_rotIno e path) (r_fileIno s)) then (close_file s, False)
           else if t_glob (r_t s) \<and> \<not> r_switchPending s
             then case hasNewerMatch (e_newerFstat e f) (e_newerGlob e) (e_newerStat e) (r_t s) of
               (t, newer) \<Rightarrow> (s\<lparr>r_t := t, r_switchPending := newer\<rparr>, True)
           else (s, True))"

datatype iter = Return | Continue "duration option" | Pending

definition read_phase :: "'w publish \<Rightarrow> env \<Rightarrow> nat \<Rightarrow> 'w run \<Rightarrow> iter \<times> 'w run" where
  "read_phase pb e f s =
     (case e_fstat e f of
        Inl _ \<Rightarrow> (Continue (Some retryDelay), close_file s)
      | Inr info \<Rightarrow>
          if fi_size info < r_offset s then (Continue None, close_file s)
          else case drain pb f (e_drain e) s (fi_size info) of
            (DrainReturn, s) \<Rightarrow> (Return, s)
          | (DrainErr, s) \<Rightarrow> (Continue (Some retryDelay), s)
          | (DrainMore, s) \<Rightarrow> (Pending, s)
          | (Drained, s) \<Rightarrow>
              if r_switchPending s
              then (Continue None,
                    close_file (s\<lparr>r_t := (r_t s)\<lparr>t_left := insert (r_fileIno s) (t_left (r_t s))\<rparr>\<rparr>))
              else (Continue (Some pollInterval), s))"

definition run_iter :: "'w publish \<Rightarrow> env \<Rightarrow> 'w run \<Rightarrow> iter \<times> 'w run" where
  "run_iter pb e s =
     (if e_ctxErr e then (Return, s)
      else case open_phase e (heartbeat (e_clock e) s) of
        Inl (d, s) \<Rightarrow> (Continue (Some d), s)
      | Inr (f, s) \<Rightarrow>
          (case rotation_phase e f (s\<lparr>r_cycle := r_cycle s + 1\<rparr>) of
             (s, False) \<Rightarrow> (Continue None, s)
           | (s, True) \<Rightarrow> read_phase pb e f s))"

fun tailer_Run :: "'w publish \<Rightarrow> env list \<Rightarrow> 'w run \<Rightarrow> 'w run" where
  "tailer_Run pb [] s = s"
| "tailer_Run pb (e # es) s =
     (case run_iter pb e s of
        (Continue _, s') \<Rightarrow> tailer_Run pb es s'
      | (_, s') \<Rightarrow> s')"

section \<open>Lines of a byte stream\<close>

definition complete_lines :: "bytes \<Rightarrow> bytes list" where
  "complete_lines data = butlast (Split newline data)"

definition partial_line :: "bytes \<Rightarrow> bytes" where
  "partial_line data = last (Split newline data)"

definition messages :: "bytes \<Rightarrow> bytes list" where
  "messages data = filter (\<lambda>l. l \<noteq> []) (map clean_line (complete_lines data))"

lemma Split_append:
  "Split sep (a @ b) = butlast (Split sep a) @ Split sep (last (Split sep a) @ b)"
proof (induction a)
  case (Cons c a)
  obtain l ls where l: "Split sep a = l # ls" by (cases "Split sep a") auto
  show ?case
  proof (cases "ls = []")
    case True
    then show ?thesis using Cons l by (cases "c = sep") auto
  next
    case False
    then show ?thesis using Cons l by (cases "c = sep") auto
  qed
qed simp

lemma newline_not_in_partial [simp]: "newline \<notin> set (partial_line data)"
  unfolding partial_line_def by (rule sep_not_in_Split [where s = data]) simp

lemma messages_append: "messages (a @ b) = messages a @ messages (partial_line a @ b)"
  by (simp add: messages_def complete_lines_def partial_line_def Split_append [of _ a] butlast_append)

lemma partial_line_append: "partial_line (a @ b) = partial_line (partial_line a @ b)"
  by (simp add: partial_line_def Split_append [of _ a])

lemma no_newline_lines:
  assumes "newline \<notin> set p"
  shows "messages p = []" "partial_line p = p"
  using assms by (simp_all add: messages_def complete_lines_def partial_line_def text_simps)

lemma line_lines:
  assumes "newline \<notin> set l"
  shows "messages (l @ newline # s) = (if clean_line l = [] then [] else [clean_line l]) @ messages s"
    "partial_line (l @ newline # s) = partial_line s"
  using assms by (simp_all add: messages_def complete_lines_def partial_line_def text_simps)

lemma messages_Nil [simp]: "messages [] = []" "partial_line [] = []"
  by (simp_all add: no_newline_lines)

lemma suffix_partial_line: "suffix (partial_line data) data"
proof (induction data rule: length_induct)
  case (1 data)
  show ?case
  proof (cases "newline \<in> set data")
    case True
    then obtain l s where d: "data = l @ newline # s" "newline \<notin> set l" by (metis split_list_first)
    then have "suffix (partial_line s) s" using 1 by simp
    then show ?thesis by (simp add: d line_lines suffix_append suffix_Cons)
  qed (simp add: no_newline_lines)
qed

lemma drop_to_partial_line: "drop (length data - length (partial_line data)) data = partial_line data"
proof -
  obtain zs where zs: "data = zs @ partial_line data" using suffix_partial_line by (auto simp: suffix_def)
  then have "length data - length (partial_line data) = length zs" by (metis add_diff_cancel_right' length_append)
  with zs show ?thesis by (metis append_eq_conv_conj)
qed

lemma partial_line_take_bound:
  "\<exists>l \<in> set (Split newline x). length (partial_line (take n x)) \<le> length l"
proof -
  let ?p = "partial_line (take n x)"
  have hd: "length p \<le> length (hd (Split newline (p @ y)))" if "newline \<notin> set p" for p y
    using that by (induction p) auto
  have "Split newline x = butlast (Split newline (take n x)) @ Split newline (?p @ drop n x)"
    using Split_append [of newline "take n x" "drop n x"] by (simp add: partial_line_def)
  moreover have "hd (Split newline (?p @ drop n x)) \<in> set (Split newline (?p @ drop n x))" by simp
  ultimately show ?thesis using hd [of ?p "drop n x"] by (metis Un_iff newline_not_in_partial set_append)
qed

section \<open>Flushing\<close>

definition message_of :: "json \<Rightarrow> bytes" where
  "message_of j = (case obj_field j ''message'' of Some (JStr m) \<Rightarrow> m | _ \<Rightarrow> [])"

lemma appendEvent_simps [simp]:
  "t_world (appendEvent stamp l t) = t_world t" "t_channel (appendEvent stamp l t) = t_channel t"
  "t_path (appendEvent stamp l t) = t_path t" "t_shipped (appendEvent stamp l t) = t_shipped t"
  "t_left (appendEvent stamp l t) = t_left t" "t_glob (appendEvent stamp l t) = t_glob t"
  "length (t_batch (appendEvent stamp l t)) = Suc (length (t_batch t))"
  "map message_of (t_batch (appendEvent stamp l t)) = map message_of (t_batch t) @ [l]"
  by (simp_all add: appendEvent_def LogEvent_json_def message_of_def)

lemma fold_appendEvent [simp]:
  "t_world (fold (appendEvent stamp) ls t) = t_world t"
  "t_channel (fold (appendEvent stamp) ls t) = t_channel t"
  "t_path (fold (appendEvent stamp) ls t) = t_path t"
  "t_left (fold (appendEvent stamp) ls t) = t_left t"
  "t_glob (fold (appendEvent stamp) ls t) = t_glob t"
  "t_shipped (fold (appendEvent stamp) ls t) = t_shipped t"
  "length (t_batch (fold (appendEvent stamp) ls t)) = length (t_batch t) + length ls"
  "map message_of (t_batch (fold (appendEvent stamp) ls t)) = map message_of (t_batch t) @ ls"
  by (induction ls arbitrary: t) auto

lemma flush_loop_eq:
  "consumed \<le> length data \<Longrightarrow>
   flush_loop stamp data t consumed =
     (fold (appendEvent stamp) (messages (drop consumed data)) t,
      length data - length (partial_line (drop consumed data)))"
proof (induction stamp data t consumed rule: flush_loop.induct)
  case (1 stamp data t consumed)
  let ?rest = "drop consumed data"
  show ?case
  proof (cases "IndexByte ?rest newline")
    case None
    then have nl: "newline \<notin> set ?rest" by (metis IndexByte_None)
    show ?thesis using "1.prems"
      by (subst flush_loop.simps) (simp add: no_newline_lines [OF nl] IndexByte_None [THEN iffD2, OF nl])
  next
    case (Some idx)
    note i = IndexByte_Some [OF Some]
    then have rest: "?rest = take idx ?rest @ newline # drop (consumed + idx + 1) data"
      by (metis add.commute add_Suc_right drop_drop plus_1_eq_Suc)
    have le: "consumed + idx + 1 \<le> length data" using conjunct1 [OF i] by simp
    have "newline \<notin> set (take idx ?rest)" using i by simp
    note l = line_lines [OF this, of "drop (consumed + idx + 1) data", folded rest]
    show ?thesis
      using "1.IH" [OF Some refl le] Some l by (subst flush_loop.simps) (auto simp: Let_def)
  qed
qed

lemma flushCompleteLines_lines:
  assumes "length data \<le> maxLineBytes"
  shows "flushCompleteLines pb stamp t data =
     (publishBatch pb (fold (appendEvent stamp) (messages data) t), partial_line data)"
  using assms flush_loop_eq [of 0 data stamp t] drop_to_partial_line [of data]
  by (simp add: flushCompleteLines_def)

lemma flushCompleteLines_oversized:
  assumes "maxLineBytes < length data"
  shows "flushCompleteLines pb stamp t data =
     (publishBatch pb (appendEvent stamp (take maxLineBytes data) t), drop maxLineBytes data)"
  using assms by (simp add: flushCompleteLines_def)

lemma publishBatch_simps [simp]:
  "t_batch (publishBatch pb t) = []" "t_channel (publishBatch pb t) = t_channel t"
  "t_path (publishBatch pb t) = t_path t" "t_left (publishBatch pb t) = t_left t"
  "t_glob (publishBatch pb t) = t_glob t"
  by (auto simp: publishBatch_def split: prod.splits)

text \<open>What the buffer keeps never exceeds one maximal line.\<close>

lemma flushCompleteLines_rest_bound:
  assumes "length data \<le> maxLineBytes + readBufSize"
  shows "length (snd (flushCompleteLines pb stamp t data)) \<le> maxLineBytes"
proof (cases "maxLineBytes < length data")
  case True
  then show ?thesis using assms
    by (simp add: flushCompleteLines_oversized) (simp add: maxLineBytes_def readBufSize_def)
next
  case False
  then show ?thesis using suffix_length_le [OF suffix_partial_line [of data]]
    by (simp add: flushCompleteLines_lines)
qed

section \<open>Delivery\<close>

definition sent_messages :: "('w \<Rightarrow> (bytes \<times> json) list) \<Rightarrow> 'w run \<Rightarrow> bytes list" where
  "sent_messages snt s = map (\<lambda>p. message_of (snd p)) (snt (t_world (r_t s)))"

text \<open>
  The state of a tailer that has been fed the bytes \<open>input\<close> since it had sent \<open>old\<close>: every complete
  line of \<open>input\<close> has been sent and its incomplete last line is in the buffer.
\<close>

definition delivered ::
  "('w \<Rightarrow> (bytes \<times> json) list) \<Rightarrow> bytes list \<Rightarrow> bytes \<Rightarrow> 'w run \<Rightarrow> bool" where
  "delivered snt old input s \<longleftrightarrow> t_batch (r_t s) = []
     \<and> sent_messages snt s = old @ messages input \<and> r_lineBuffer s = partial_line input"

text \<open>Lines short enough that a partial one and a whole read chunk fit the buffer limit.\<close>

definition short_lines :: "bytes \<Rightarrow> bool" where
  "short_lines data \<longleftrightarrow> (\<forall>l \<in> set (Split newline data). length l + readBufSize \<le> maxLineBytes)"

lemma short_lines_partial: "short_lines data \<Longrightarrow> length (partial_line (take n data)) + readBufSize \<le> maxLineBytes"
  using partial_line_take_bound [of data n] by (fastforce simp: short_lines_def)

lemma Split_prefix_short:
  "(\<And>l. l \<in> set (Split sep (a @ b)) \<Longrightarrow> length l \<le> n) \<Longrightarrow> l \<in> set (Split sep a) \<Longrightarrow> length l \<le> n"
proof -
  assume all: "\<And>l. l \<in> set (Split sep (a @ b)) \<Longrightarrow> length l \<le> n" and l: "l \<in> set (Split sep a)"
  have hd: "length p \<le> length (hd (Split sep (p @ y)))" if "sep \<notin> set p" for p y
    using that by (induction p) auto
  have last: "sep \<notin> set (last (Split sep a))" by (rule sep_not_in_Split [where s = a]) simp
  have "l \<in> set (butlast (Split sep a)) \<or> l = last (Split sep a)"
    using l by (metis append_butlast_last_id in_set_conv_decomp Split_not_Nil set_ConsD rotate1.simps(2) set_rotate1)
  then show ?thesis
  proof
    assume "l \<in> set (butlast (Split sep a))"
    then show ?thesis using all by (simp add: Split_append [of sep a b])
  next
    assume "l = last (Split sep a)"
    moreover have "hd (Split sep (last (Split sep a) @ b)) \<in> set (Split sep (a @ b))"
      by (simp add: Split_append [of sep a b])
    ultimately show ?thesis using all hd [OF last, of b] by (meson le_trans)
  qed
qed

lemma short_lines_prefix:
  assumes "short_lines (drop start c')" "prefix c c'"
  shows "short_lines (drop start c)"
proof -
  obtain x where "drop start c' = drop start c @ x"
    using assms(2) by (auto simp: prefix_def)
  then have all: "length l \<le> maxLineBytes - readBufSize" if "l \<in> set (Split newline (drop start c @ x))" for l
    using assms(1) that by (fastforce simp: short_lines_def)
  have "length l \<le> maxLineBytes - readBufSize" if "l \<in> set (Split newline (drop start c))" for l
    using Split_prefix_short [OF all that] .
  then show ?thesis
    by (auto simp: short_lines_def maxLineBytes_def readBufSize_def)
qed

lemma heartbeat_simps [simp]:
  "r_offset (heartbeat clk s) = r_offset s" "r_lineBuffer (heartbeat clk s) = r_lineBuffer s"
  "r_f (heartbeat clk s) = r_f s" "r_startAtEnd (heartbeat clk s) = r_startAtEnd s"
  "r_fileIno (heartbeat clk s) = r_fileIno s" "r_switchPending (heartbeat clk s) = r_switchPending s"
  "r_cycle (heartbeat clk s) = r_cycle s"
  "t_world (r_t (heartbeat clk s)) = t_world (r_t s)" "t_batch (r_t (heartbeat clk s)) = t_batch (r_t s)"
  "t_left (r_t (heartbeat clk s)) = t_left (r_t s)" "t_path (r_t (heartbeat clk s)) = t_path (r_t s)"
  "t_glob (r_t (heartbeat clk s)) = t_glob (r_t s)"
  "sent_messages snt (heartbeat clk s) = sent_messages snt s"
  by (simp_all add: heartbeat_def sent_messages_def)

lemma delivered_heartbeat [simp]: "delivered snt old input (heartbeat clk s) = delivered snt old input s"
  by (simp add: delivered_def)

lemma drain_read_offset [simp]: "r_offset (drain_read pb stamp data s) = r_offset s + int (length data)"
  by (simp add: drain_read_def split: prod.splits)

lemma sent_close_file [simp]: "sent_messages snt (close_file s) = sent_messages snt s"
  by (simp add: close_file_def sent_messages_def)

lemma close_file_offset [simp]: "r_offset (close_file s) = r_offset s"
  by (simp add: close_file_def)

context publisher
begin

lemma publishBatch_sent:
  "map (\<lambda>p. message_of (snd p)) (sent (t_world (publishBatch PublishBatch t))) =
     map (\<lambda>p. message_of (snd p)) (sent (t_world t)) @ map message_of (t_batch t)"
  using sent_append [of "t_world t" "t_channel t" "t_batch t"]
  by (auto simp: publishBatch_def split: prod.splits)

lemma shipped_bounds:
  "t_shipped t \<le> t_shipped (publishBatch PublishBatch t)
   \<and> t_shipped (publishBatch PublishBatch t) \<le> t_shipped t + int (length (t_batch t))"
  using accepted_nonneg [of "t_world t" "t_channel t" "t_batch t"]
    accepted_le [of "t_world t" "t_channel t" "t_batch t"]
  by (auto simp: publishBatch_def split: prod.splits)

text \<open>One read chunk: the complete lines it finishes are sent, in order, and nothing else.\<close>

lemma drain_read_delivers:
  assumes "delivered sent old input s" and "length (partial_line input) + readBufSize \<le> maxLineBytes"
    and "length data \<le> readBufSize"
  shows "delivered sent old (input @ data) (drain_read PublishBatch stamp data s)"
proof (cases "data = []")
  case True
  with assms(1) show ?thesis by (simp add: drain_read_def)
next
  case False
  have buf: "r_lineBuffer s = partial_line input" "t_batch (r_t s) = []"
    "sent_messages sent s = old @ messages input"
    using assms(1) by (simp_all add: delivered_def)
  have "length (partial_line input @ data) \<le> maxLineBytes" using assms(2,3) by simp
  note f = flushCompleteLines_lines [OF this, of PublishBatch stamp "r_t s"]
  have "sent_messages sent (drain_read PublishBatch stamp data s) = old @ messages (input @ data)"
    using False buf f
    by (simp add: drain_read_def sent_messages_def publishBatch_sent messages_append [of input data])
  moreover have "r_lineBuffer (drain_read PublishBatch stamp data s) = partial_line (input @ data)"
    using False buf f by (simp add: drain_read_def partial_line_append [of input data])
  moreover have "t_batch (r_t (drain_read PublishBatch stamp data s)) = []"
    using False buf f by (simp add: drain_read_def)
  ultimately show ?thesis by (simp add: delivered_def)
qed

end

section \<open>Draining an append-only file\<close>

text \<open>
  Every read of round \<open>d\<close> returns bytes of the file with content \<open>c\<close> at the offset asked for, at most
  a buffer of them: what \<^verbatim>\<open>ReadAt\<close> promises of a file that is only appended to.
\<close>

definition reads_from :: "bytes \<Rightarrow> nat \<Rightarrow> drain_env \<Rightarrow> bool" where
  "reads_from c f d \<longleftrightarrow>
     (\<forall>off \<ge> 0. length (fst (d_ReadAt d f off)) \<le> readBufSize
        \<and> fst (d_ReadAt d f off) = take (length (fst (d_ReadAt d f off))) (drop (nat off) c))"

definition window :: "bytes \<Rightarrow> nat \<Rightarrow> int \<Rightarrow> bytes" where
  "window c start off = take (nat off - start) (drop start c)"

lemma window_extend:
  assumes "int start \<le> off" "data = take (length data) (drop (nat off) c)"
  shows "window c start (off + int (length data)) = window c start off @ data"
proof -
  have n: "nat (off + int (length data)) - start = (nat off - start) + length data"
    using assms(1) by simp
  have "drop (nat off - start) (drop start c) = drop (nat off) c" using assms(1) by simp
  then show ?thesis using assms(2) unfolding window_def n by (simp add: take_add)
qed

lemma take_length_bound: "data = take (length data) (drop n c) \<Longrightarrow> n \<le> length c \<Longrightarrow> n + length data \<le> length c"
  by (metis add.commute le_diff_conv2 length_drop length_take min.cobounded1)

definition at_offset ::
  "('w \<Rightarrow> (bytes \<times> json) list) \<Rightarrow> bytes \<Rightarrow> nat \<Rightarrow> bytes list \<Rightarrow> 'w run \<Rightarrow> bool" where
  "at_offset snt c start old s \<longleftrightarrow> int start \<le> r_offset s \<and> r_offset s \<le> int (length c)
     \<and> delivered snt old (window c start (r_offset s)) s"

context publisher
begin

lemma drain_read_at_offset:
  assumes "at_offset sent c start old s" "short_lines (drop start c)" "reads_from c f d"
  shows "at_offset sent c start old (drain_read PublishBatch stamp (fst (d_ReadAt d f (r_offset s))) s)"
proof -
  let ?data = "fst (d_ReadAt d f (r_offset s))"
  have off: "int start \<le> r_offset s" "r_offset s \<le> int (length c)"
    and del: "delivered sent old (window c start (r_offset s)) s"
    using assms(1) by (simp_all add: at_offset_def)
  have data: "length ?data \<le> readBufSize" "?data = take (length ?data) (drop (nat (r_offset s)) c)"
    using assms(3) off by (simp_all add: reads_from_def)
  have short: "length (partial_line (window c start (r_offset s))) + readBufSize \<le> maxLineBytes"
    unfolding window_def by (rule short_lines_partial [OF assms(2)])
  have "nat (r_offset s) + length ?data \<le> length c"
    using data(2) by (rule take_length_bound) (use off in simp)
  then show ?thesis
    using off drain_read_delivers [OF del short data(1)]
    by (simp add: at_offset_def window_extend [OF off(1) data(2)])
qed

text \<open>
  However the drain loop ends, what has been sent is exactly the complete lines up to the offset
  reached; unless a read failed, the incomplete last line is kept for the next read.
\<close>

lemma drain_delivers:
  assumes "at_offset sent c start old s" "short_lines (drop start c)" "\<forall>d \<in> set ds. reads_from c f d"
    "drain PublishBatch f ds s sz = (res, s')"
  shows "sent_messages sent s' = old @ messages (window c start (r_offset s'))
     \<and> (res \<noteq> DrainErr \<longrightarrow> at_offset sent c start old s')"
  using assms
proof (induction ds arbitrary: s sz)
  case Nil
  then show ?case by (auto simp: at_offset_def delivered_def)
next
  case (Cons d ds)
  let ?s = "drain_read PublishBatch (d_stamp d) (fst (d_ReadAt d f (r_offset s))) s"
  have s: "at_offset sent c start old ?s"
    using drain_read_at_offset Cons.prems by simp
  then have hb: "at_offset sent c start old (heartbeat clk ?s)" for clk
    by (simp add: at_offset_def)
  have fin: "sent_messages sent x = old @ messages (window c start (r_offset x))"
    if "at_offset sent c start old x" for x
    using that by (simp add: at_offset_def delivered_def)
  obtain data err where r: "d_ReadAt d f (r_offset s) = (data, err)" by (cases "d_ReadAt d f (r_offset s)")
  show ?case
  proof (cases "\<not> r_offset s < sz \<or> (\<exists>e. err = ReadErr e) \<or> (\<exists>e. d_Stat d f = Inl e) \<or> d_ctxErr d")
    case True
    then show ?thesis using Cons.prems s r fin [OF s] fin [OF Cons.prems(1)]
      by (auto simp: Let_def split: if_splits read_err.splits sum.splits)
  next
    case False
    then obtain info where "d_Stat d f = Inr info" by (cases "d_Stat d f") auto
    with False Cons.prems r
    have "drain PublishBatch f ds (heartbeat (d_clock d) ?s) (fi_size info) = (res, s')"
      by (cases err) auto
    then show ?thesis using Cons.IH [OF hb] Cons.prems by simp
  qed
qed

end

text \<open>A round on a file that does not change while it is drained.\<close>

definition quiet_round :: "bytes \<Rightarrow> nat \<Rightarrow> drain_env \<Rightarrow> bool" where
  "quiet_round c f d \<longleftrightarrow> \<not> d_ctxErr d
     \<and> (\<exists>info. d_Stat d f = Inr info \<and> fi_size info = int (length c))
     \<and> (\<forall>off \<ge> 0. fst (d_ReadAt d f off) = take readBufSize (drop (nat off) c)
          \<and> (\<nexists>e. snd (d_ReadAt d f off) = ReadErr e))"

lemma quiet_round_reads: "quiet_round c f d \<Longrightarrow> reads_from c f d"
  by (auto simp: quiet_round_def reads_from_def min_def)

text \<open>Draining such a file ends, after at most one round per buffer of unread bytes.\<close>

lemma drain_completes:
  assumes "\<forall>d \<in> set ds. quiet_round c f d" "0 \<le> r_offset s" "r_offset s \<le> int (length c)"
    "int (length c) - r_offset s \<le> int (length ds * readBufSize)"
  shows "\<exists>s'. drain pb f ds s (int (length c)) = (Drained, s') \<and> r_offset s' = int (length c)"
  using assms
proof (induction ds arbitrary: s)
  case (Cons d ds)
  show ?case
  proof (cases "r_offset s < int (length c)")
    case True
    have q: "quiet_round c f d" using Cons.prems by simp
    obtain data err where r: "d_ReadAt d f (r_offset s) = (data, err)" by (cases "d_ReadAt d f (r_offset s)")
    have data: "data = take readBufSize (drop (nat (r_offset s)) c)" and err: "\<nexists>e. err = ReadErr e"
      using q r Cons.prems(2) by (auto simp: quiet_round_def)
    obtain info where info: "d_Stat d f = Inr info" "fi_size info = int (length c)" "\<not> d_ctxErr d"
      using q by (auto simp: quiet_round_def)
    let ?s = "heartbeat (d_clock d) (drain_read pb (d_stamp d) data s)"
    have len: "int (length data) = min (int readBufSize) (int (length c) - r_offset s)"
      using data Cons.prems(2,3) by auto
    have "\<exists>s'. drain pb f ds ?s (int (length c)) = (Drained, s') \<and> r_offset s' = int (length c)"
    proof (rule Cons.IH)
      show "\<forall>d \<in> set ds. quiet_round c f d" using Cons.prems(1) by simp
      show "0 \<le> r_offset ?s" "r_offset ?s \<le> int (length c)" using len Cons.prems(2,3) by auto
      show "int (length c) - r_offset ?s \<le> int (length ds * readBufSize)"
        using len Cons.prems(4) True by (auto simp: algebra_simps min_def split: if_splits)
    qed
    then show ?thesis using True r err info by (cases err) auto
  next
    case False
    then show ?thesis using Cons.prems(3) by auto
  qed
qed auto

section \<open>Following one file\<close>

text \<open>
  What one iteration observes of an exact-path file that keeps existing under its name: its content
  \<open>c\<close> is stable during the iteration, and the script of drain rounds is long enough to read it.
\<close>

definition quiet_env :: "bytes \<Rightarrow> nat \<Rightarrow> bytes \<Rightarrow> u64 \<Rightarrow> env \<Rightarrow> bool" where
  "quiet_env c f path ino e \<longleftrightarrow> \<not> e_ctxErr e
     \<and> e_rotStat e path \<noteq> Inl ENOENT \<and> e_rotIno e path = Inr ino
     \<and> (\<exists>info. e_fstat e f = Inr info \<and> fi_size info = int (length c))
     \<and> (\<forall>d \<in> set (e_drain e). quiet_round c f d)
     \<and> length c \<le> length (e_drain e) * readBufSize"

definition following :: "nat \<Rightarrow> bytes \<Rightarrow> u64 \<Rightarrow> 'w run \<Rightarrow> bool" where
  "following f path ino s \<longleftrightarrow> r_f s = Some f \<and> t_path (r_t s) = path \<and> r_fileIno s = ino
     \<and> \<not> t_glob (r_t s) \<and> \<not> r_switchPending s"

lemma flushCompleteLines_keeps [simp]:
  "t_path (fst (flushCompleteLines pb stamp t data)) = t_path t"
  "t_glob (fst (flushCompleteLines pb stamp t data)) = t_glob t"
  "t_left (fst (flushCompleteLines pb stamp t data)) = t_left t"
  "t_batch (fst (flushCompleteLines pb stamp t data)) = []"
  by (cases "maxLineBytes < length data";
      simp add: flushCompleteLines_lines flushCompleteLines_oversized)+

lemma drain_read_keeps [simp]:
  "r_f (drain_read pb stamp data s) = r_f s" "r_fileIno (drain_read pb stamp data s) = r_fileIno s"
  "r_switchPending (drain_read pb stamp data s) = r_switchPending s"
  "r_startAtEnd (drain_read pb stamp data s) = r_startAtEnd s"
  "t_path (r_t (drain_read pb stamp data s)) = t_path (r_t s)"
  "t_glob (r_t (drain_read pb stamp data s)) = t_glob (r_t s)"
  "t_left (r_t (drain_read pb stamp data s)) = t_left (r_t s)"
  by (simp_all add: drain_read_def split_beta)

lemma drain_keeps:
  "drain pb f ds s sz = (res, s') \<Longrightarrow>
   r_fileIno s' = r_fileIno s \<and> r_switchPending s' = r_switchPending s \<and> r_startAtEnd s' = r_startAtEnd s
   \<and> t_path (r_t s') = t_path (r_t s) \<and> t_glob (r_t s') = t_glob (r_t s) \<and> t_left (r_t s') = t_left (r_t s)
   \<and> (res \<noteq> DrainErr \<longrightarrow> r_f s' = r_f s) \<and> (res = DrainErr \<longrightarrow> r_f s' = None \<and> r_lineBuffer s' = [])"
proof (induction ds arbitrary: s sz)
  case (Cons d ds)
  obtain data err where r: "d_ReadAt d f (r_offset s) = (data, err)" by (cases "d_ReadAt d f (r_offset s)")
  let ?s = "drain_read pb (d_stamp d) data s"
  show ?case
  proof (cases "\<not> r_offset s < sz \<or> (\<exists>e. err = ReadErr e) \<or> (\<exists>e. d_Stat d f = Inl e) \<or> d_ctxErr d")
    case True
    then show ?thesis using Cons.prems r
      by (auto simp: Let_def close_file_def split: if_splits read_err.splits sum.splits)
  next
    case False
    then obtain info where "d_Stat d f = Inr info" by (cases "d_Stat d f") auto
    with False Cons.prems r have "drain pb f ds (heartbeat (d_clock d) ?s) (fi_size info) = (res, s')"
      by (cases err) auto
    from Cons.IH [OF this] show ?thesis by simp
  qed
qed (auto split: if_splits)

lemma at_offset_extend:
  "at_offset snt c start old s \<Longrightarrow> prefix c c' \<Longrightarrow> at_offset snt c' start old s"
  by (auto simp: at_offset_def window_def prefix_def)

lemma at_offset_heartbeat [simp]: "at_offset snt c start old (heartbeat clk s) = at_offset snt c start old s"
  by (simp add: at_offset_def)

lemma at_offset_cycle [simp]:
  "at_offset snt c start old (s\<lparr>r_cycle := n\<rparr>) = at_offset snt c start old s"
  by (simp add: at_offset_def delivered_def sent_messages_def)

lemma hasBeenReplaced_same [simp]: "hasBeenReplaced (Inr ino) ino = (False, None)"
  by (simp add: hasBeenReplaced_def)

lemma rotation_phase_quiet:
  assumes "quiet_env c f path ino e" "following f path ino s"
  shows "rotation_phase e f s = (s, True)"
  using assms by (auto simp: rotation_phase_def quiet_env_def following_def Let_def)

context publisher
begin

lemma read_phase_quiet:
  assumes env: "quiet_env c f path ino e" and s: "at_offset sent c start old s"
    and short: "short_lines (drop start c)"
  obtains s' where "drain PublishBatch f (e_drain e) s (int (length c)) = (Drained, s')"
    "at_offset sent c start old s'" "r_offset s' = int (length c)"
proof -
  have off: "0 \<le> r_offset s" "r_offset s \<le> int (length c)" using s by (auto simp: at_offset_def)
  have q: "\<forall>d \<in> set (e_drain e). quiet_round c f d" and n: "length c \<le> length (e_drain e) * readBufSize"
    using env by (auto simp: quiet_env_def)
  have "int (length c) - r_offset s \<le> int (length (e_drain e) * readBufSize)"
    using off n by (smt (verit) of_nat_mono)
  then obtain s' where d: "drain PublishBatch f (e_drain e) s (int (length c)) = (Drained, s')"
    "r_offset s' = int (length c)"
    using drain_completes [OF q off] by blast
  moreover have "at_offset sent c start old s'"
    using drain_delivers [OF s short _ d(1)] q quiet_round_reads by auto
  ultimately show thesis using that by blast
qed

lemma quiet_iteration_open:
  assumes env: "quiet_env c f path ino e" and "open": "open_phase e (heartbeat (e_clock e) s) = Inr (f, s0)"
    and fol: "following f path ino s0" and s: "at_offset sent c start old s0"
    and short: "short_lines (drop start c)"
  shows "\<exists>s'. run_iter PublishBatch e s = (Continue (Some pollInterval), s') \<and> following f path ino s'
     \<and> at_offset sent c start old s' \<and> r_offset s' = int (length c)"
proof -
  let ?s = "s0\<lparr>r_cycle := r_cycle s0 + 1\<rparr>"
  have s1: "following f path ino ?s" "at_offset sent c start old ?s"
    using fol s by (simp_all add: following_def)
  obtain s' where d: "drain PublishBatch f (e_drain e) ?s (int (length c)) = (Drained, s')"
    "at_offset sent c start old s'" "r_offset s' = int (length c)"
    using read_phase_quiet [OF env s1(2) short] by blast
  have fol': "following f path ino s'"
    using drain_keeps [OF d(1)] s1(1) by (simp add: following_def)
  have "read_phase PublishBatch e f ?s = (Continue (Some pollInterval), s')"
    using env d fol' s1(2) by (auto simp: read_phase_def quiet_env_def following_def at_offset_def)
  then have "run_iter PublishBatch e s = (Continue (Some pollInterval), s')"
    using env "open" rotation_phase_quiet [OF env s1(1)] by (simp add: run_iter_def quiet_env_def)
  then show ?thesis using d fol' by blast
qed

lemma quiet_iteration:
  assumes "quiet_env c f path ino e" "following f path ino s" "at_offset sent c start old s"
    "short_lines (drop start c)"
  shows "\<exists>s'. run_iter PublishBatch e s = (Continue (Some pollInterval), s') \<and> following f path ino s'
     \<and> at_offset sent c start old s' \<and> r_offset s' = int (length c)"
  using assms
  by (intro quiet_iteration_open [where ?s0.0 = "heartbeat (e_clock e) s"])
     (simp_all add: open_phase_def following_def)

text \<open>
  A run over a growing file: \<open>cs\<close> are its contents at the iterations, each an extension of the one
  before.
\<close>

lemma follow_run:
  assumes "list_all2 (\<lambda>c e. quiet_env c f path ino e) cs es" "following f path ino s"
    "at_offset sent c0 start old s" "sorted_wrt prefix (c0 # cs)" "short_lines (drop start (last (c0 # cs)))"
  shows "following f path ino (tailer_Run PublishBatch es s)
     \<and> at_offset sent (last (c0 # cs)) start old (tailer_Run PublishBatch es s)
     \<and> (cs \<noteq> [] \<longrightarrow> r_offset (tailer_Run PublishBatch es s) = int (length (last cs)))"
  using assms
proof (induction cs es arbitrary: c0 s rule: list_all2_induct)
  case (Cons c cs e es)
  have pre: "prefix c (last (c # cs))" using Cons.prems(3) by (auto simp: last_in_set)
  have short: "short_lines (drop start c)"
    using short_lines_prefix pre Cons.prems(4) by simp
  have s: "at_offset sent c start old s" using Cons.prems(2,3) by (auto intro: at_offset_extend)
  obtain s' where s': "run_iter PublishBatch e s = (Continue (Some pollInterval), s')"
    "following f path ino s'" "at_offset sent c start old s'" "r_offset s' = int (length c)"
    using quiet_iteration [OF Cons.hyps(1) Cons.prems(1) s short] by blast
  show ?case using Cons.IH [OF s'(2,3)] Cons.prems(3,4) Cons.hyps(2) s' by (cases cs) auto
qed simp

end

section \<open>From startup\<close>

text \<open>The first iteration finds the file and opens it at its end, when its content is \<open>c\<close>.\<close>

definition opens_at_end :: "bytes \<Rightarrow> nat \<Rightarrow> bytes \<Rightarrow> u64 \<Rightarrow> env \<Rightarrow> bool" where
  "opens_at_end c f path ino e \<longleftrightarrow> e_stat e path \<noteq> Inl ENOENT \<and> e_ino e path = Inr ino
     \<and> e_open e path = Inr f \<and> e_seekEnd e f = Inr (int (length c))"

lemma open_phase_start:
  assumes "opens_at_end c f path ino e" "r_f s = None" "r_startAtEnd s" "\<not> t_glob (r_t s)"
    "t_path (r_t s) = path"
  shows "open_phase e s = Inr (f, s\<lparr>r_switchPending := False, r_f := Some f, r_fileIno := ino,
     r_offset := int (length c), r_startAtEnd := False\<rparr>)"
  using assms by (simp add: opens_at_end_def open_phase_def find_file_def openFile_def)

lemma window_whole: "start \<le> length c \<Longrightarrow> window c start (int (length c)) = drop start c"
  by (simp add: window_def)

lemma window_empty: "window c start (int start) = []"
  by (simp add: window_def)

context publisher
begin

lemma run_delivers:
  fixes w :: 'w and now :: time and path ch sid :: bytes
  defines "s0 \<equiv> run_init now (tailer_New path ch sid w)"
  assumes exact: "\<not> ContainsAny path ''*?[''"
    and e0: "opens_at_end c0 f path ino e0" "quiet_env c1 f path ino e0"
    and es: "list_all2 (\<lambda>c e. quiet_env c f path ino e) cs es"
    and grow: "sorted_wrt prefix (c0 # c1 # cs)"
    and short: "short_lines (drop (length c0) (last (c1 # cs)))"
  shows "sent_messages sent (tailer_Run PublishBatch (e0 # es) s0)
     = sent_messages sent s0 @ messages (drop (length c0) (last (c1 # cs)))"
proof -
  let ?h = "heartbeat (e_clock e0) s0"
  let ?s = "?h\<lparr>r_switchPending := False, r_f := Some f, r_fileIno := ino, r_offset := int (length c0), r_startAtEnd := False\<rparr>"
  have s0: "r_f s0 = None" "r_startAtEnd s0" "\<not> t_glob (r_t s0)" "t_path (r_t s0) = path"
    "t_batch (r_t s0) = []" "r_lineBuffer s0 = []"
    using exact by (simp_all add: s0_def run_init_def tailer_New_def)
  have "open": "open_phase e0 ?h = Inr (f, ?s)"
    by (rule open_phase_start [OF e0(1)]) (use s0 in simp_all)
  have fol: "following f path ino ?s" using s0 by (simp add: following_def)
  have len: "length c0 \<le> length c1" using grow by (simp add: prefix_length_le)
  have sm: "sent_messages sent ?s = sent_messages sent s0"
    by (simp add: sent_messages_def)
  have at: "at_offset sent c1 (length c0) (sent_messages sent s0) ?s"
    using s0 len sm by (simp add: at_offset_def delivered_def window_empty)
  have "prefix c1 (last (c1 # cs))" using grow by (auto simp: last_in_set)
  then have short1: "short_lines (drop (length c0) c1)" using short short_lines_prefix by blast
  obtain s1 where s1: "run_iter PublishBatch e0 s0 = (Continue (Some pollInterval), s1)"
    "following f path ino s1" "at_offset sent c1 (length c0) (sent_messages sent s0) s1"
    "r_offset s1 = int (length c1)"
    using quiet_iteration_open [OF e0(2) "open" fol at short1] by blast
  have run: "at_offset sent (last (c1 # cs)) (length c0) (sent_messages sent s0) (tailer_Run PublishBatch es s1)
      \<and> r_offset (tailer_Run PublishBatch es s1) = int (length (last (c1 # cs)))"
    using follow_run [OF es s1(2,3) _ short] grow s1(4) es by (cases cs) auto
  have "length c0 \<le> length (last (c1 # cs))"
    using grow by (auto intro: prefix_length_le simp: last_in_set)
  with run have "sent_messages sent (tailer_Run PublishBatch es s1) =
      sent_messages sent s0 @ messages (drop (length c0) (last (c1 # cs)))"
    by (simp add: at_offset_def delivered_def window_whole)
  then show ?thesis using s1(1) by simp
qed

end

section \<open>Invariant of the main loop\<close>

text \<open>
  Between iterations the buffer holds at most one maximal line and the pending batch is empty;
  and with no file open the buffer is empty, so bytes of two files never meet in one line.
\<close>

definition run_inv :: "'w run \<Rightarrow> bool" where
  "run_inv s \<longleftrightarrow> length (r_lineBuffer s) \<le> maxLineBytes \<and> t_batch (r_t s) = []
     \<and> (r_f s = None \<longrightarrow> r_lineBuffer s = []) \<and> 0 \<le> r_offset s"

definition os_bounds :: "env \<Rightarrow> bool" where
  "os_bounds e \<longleftrightarrow> (\<forall>d \<in> set (e_drain e). \<forall>f off. length (fst (d_ReadAt d f off)) \<le> readBufSize)
     \<and> (\<forall>f off. e_seekEnd e f = Inr off \<longrightarrow> 0 \<le> off)"

lemma run_inv_heartbeat [inv_intros]: "run_inv s \<Longrightarrow> run_inv (heartbeat clk s)"
  by (simp add: run_inv_def)

lemma run_inv_close [inv_intros]: "run_inv s \<Longrightarrow> run_inv (close_file s)"
  by (simp add: run_inv_def close_file_def)

lemma drain_read_inv [inv_intros]:
  assumes "run_inv s" "r_f s \<noteq> None" "length data \<le> readBufSize"
  shows "run_inv (drain_read pb stamp data s)"
proof (cases "data = []")
  case False
  have "length (r_lineBuffer s @ data) \<le> maxLineBytes + readBufSize"
    using assms(1,3) by (simp add: run_inv_def)
  from flushCompleteLines_rest_bound [OF this, of pb stamp "r_t s"] show ?thesis
    using assms False by (auto simp: run_inv_def drain_read_def split_beta)
qed (use assms(1) in \<open>simp add: drain_read_def\<close>)

lemma drain_inv:
  assumes "run_inv s" "r_f s \<noteq> None" "\<forall>d \<in> set ds. \<forall>f off. length (fst (d_ReadAt d f off)) \<le> readBufSize"
    "drain pb f ds s sz = (res, s')"
  shows "run_inv s'"
  using assms
proof (induction ds arbitrary: s sz)
  case (Cons d ds)
  obtain data err where r: "d_ReadAt d f (r_offset s) = (data, err)" by (cases "d_ReadAt d f (r_offset s)")
  have "length data \<le> readBufSize" using Cons.prems(3) r by (metis fst_conv list.set_intros(1))
  then have s: "run_inv (drain_read pb (d_stamp d) data s)" using Cons.prems by (intro inv_intros)
  show ?case
  proof (cases "\<not> r_offset s < sz \<or> (\<exists>e. err = ReadErr e) \<or> (\<exists>e. d_Stat d f = Inl e) \<or> d_ctxErr d")
    case True
    then show ?thesis using Cons.prems r s
      by (auto simp: Let_def intro: inv_intros split: if_splits read_err.splits sum.splits)
  next
    case False
    then obtain info where "d_Stat d f = Inr info" by (cases "d_Stat d f") auto
    with False Cons.prems r
    have "drain pb f ds (heartbeat (d_clock d) (drain_read pb (d_stamp d) data s)) (fi_size info) = (res, s')"
      by (cases err) auto
    from Cons.IH [OF _ _ _ this] show ?thesis using Cons.prems s by (simp add: inv_intros)
  qed
qed auto

lemma newestMatch_keeps:
  assumes "newestMatch ms stat t = (t', n, m)"
  shows "t_batch t' = t_batch t" "t_world t' = t_world t" "t_path t' = t_path t" "t_glob t' = t_glob t"
    "t_channel t' = t_channel t" "t_serverID t' = t_serverID t"
  using assms by (auto simp: newestMatch_def split: prod.splits)

lemma hasNewerMatch_keeps:
  assumes "hasNewerMatch fs ms stat t = (t', b)"
  shows "t_batch t' = t_batch t" "t_world t' = t_world t" "t_path t' = t_path t" "t_glob t' = t_glob t"
proof -
  obtain u n m where u: "newestMatch ms stat t = (u, n, m)" by (metis prod_cases3)
  then have "t' = t \<or> t' = u" using assms by (auto simp: hasNewerMatch_def split: sum.splits)
  then show "t_batch t' = t_batch t" "t_world t' = t_world t" "t_path t' = t_path t" "t_glob t' = t_glob t"
    using newestMatch_keeps [OF u] by auto
qed

lemma find_file_inv: "run_inv s \<Longrightarrow> find_file e s = (s', b) \<Longrightarrow> run_inv s' \<and> r_f s' = r_f s
    \<and> r_startAtEnd s' = r_startAtEnd s \<and> r_lineBuffer s' = r_lineBuffer s"
  by (auto simp: find_file_def run_inv_def dest: newestMatch_keeps split: if_splits prod.splits)

lemma openFile_offset:
  "openFile ino opn seek startAtEnd = Inr (f, i, off) \<Longrightarrow> (startAtEnd \<longrightarrow> seek f = Inr off) \<and> (\<not> startAtEnd \<longrightarrow> off = 0)"
  by (auto simp: openFile_def split: sum.splits if_splits)

lemma open_phase_Inr:
  assumes "open_phase e s = Inr (f, s')"
  shows "r_f s = Some f \<and> s' = s
     \<or> r_f s = None \<and> r_f s' = Some f \<and> \<not> r_startAtEnd s' \<and> r_lineBuffer s' = r_lineBuffer s
       \<and> t_batch (r_t s') = t_batch (r_t s)
       \<and> (r_startAtEnd s \<longrightarrow> e_seekEnd e f = Inr (r_offset s')) \<and> (\<not> r_startAtEnd s \<longrightarrow> r_offset s' = 0)"
proof (cases "r_f s")
  case None
  obtain s1 b where f: "find_file e (s\<lparr>r_switchPending := False\<rparr>) = (s1, b)"
    by (cases "find_file e (s\<lparr>r_switchPending := False\<rparr>)")
  have k: "r_startAtEnd s1 = r_startAtEnd s" "r_lineBuffer s1 = r_lineBuffer s" "t_batch (r_t s1) = t_batch (r_t s)"
    using f by (auto simp: find_file_def dest: newestMatch_keeps split: if_splits prod.splits)
  show ?thesis using assms None f k
    by (auto simp: open_phase_def Let_def dest: openFile_offset split: bool.splits sum.splits)
next
  case (Some g)
  then show ?thesis using assms by (auto simp: open_phase_def)
qed

lemma open_phase_inv:
  assumes "run_inv s" "os_bounds e"
  shows "open_phase e s = Inl (d, s') \<Longrightarrow> run_inv s'"
    and "open_phase e s = Inr (f, s') \<Longrightarrow> run_inv s' \<and> r_f s' = Some f"
proof -
  assume o: "open_phase e s = Inl (d, s')"
  obtain s1 b where f: "find_file e (s\<lparr>r_switchPending := False\<rparr>) = (s1, b)"
    by (cases "find_file e (s\<lparr>r_switchPending := False\<rparr>)")
  have "run_inv (s\<lparr>r_switchPending := False\<rparr>)" using assms(1) by (simp add: run_inv_def)
  then have s1: "run_inv s1" "r_f s1 = r_f s" using find_file_inv [OF _ f] by auto
  have "s' = s1 \<or> s' = s1\<lparr>r_f := None, r_fileIno := 0, r_offset := 0\<rparr>" and "r_f s = None"
    using o f by (auto simp: open_phase_def Let_def split: option.splits bool.splits sum.splits)
  then show "run_inv s'" using s1 by (auto simp: run_inv_def)
next
  assume "open_phase e s = Inr (f, s')"
  from open_phase_Inr [OF this] show "run_inv s' \<and> r_f s' = Some f"
    using assms by (cases "r_startAtEnd s") (auto simp: run_inv_def os_bounds_def)
qed

lemma rotation_phase_inv:
  assumes "run_inv s" "rotation_phase e f s = (s', b)"
  shows "run_inv s' \<and> (b \<longrightarrow> r_f s' = r_f s)"
  using assms
  by (auto simp: rotation_phase_def Let_def run_inv_def close_file_def dest: hasNewerMatch_keeps(1)
      split: if_splits prod.splits)

lemma read_phase_inv:
  assumes "run_inv s" "r_f s \<noteq> None" "os_bounds e"
  shows "run_inv (snd (read_phase pb e f s))"
proof (cases "e_fstat e f")
  case (Inr info)
  obtain res s' where d: "drain pb f (e_drain e) s (fi_size info) = (res, s')"
    by (cases "drain pb f (e_drain e) s (fi_size info)")
  then have "run_inv s'" using drain_inv assms by (simp add: os_bounds_def) blast
  then show ?thesis using Inr d assms(1)
    by (cases res) (auto simp: read_phase_def run_inv_def close_file_def)
qed (use assms(1) in \<open>simp add: read_phase_def inv_intros\<close>)

lemma run_iter_inv [inv_intros]:
  assumes "run_inv s" "os_bounds e"
  shows "run_inv (snd (run_iter pb e s))"
proof (cases "open_phase e (heartbeat (e_clock e) s)")
  case (Inl a)
  obtain d s1 where a: "a = (d, s1)" by (cases a)
  have "run_inv s1" using open_phase_inv(1) [OF run_inv_heartbeat [OF assms(1)] assms(2)] Inl a by simp
  then show ?thesis using Inl a assms(1) by (simp add: run_iter_def)
next
  case (Inr b)
  obtain f s1 where b: "b = (f, s1)" by (cases b)
  have s1: "run_inv s1" "r_f s1 = Some f"
    using open_phase_inv(2) [OF run_inv_heartbeat [OF assms(1)] assms(2)] Inr b by simp_all
  let ?s = "s1\<lparr>r_cycle := r_cycle s1 + 1\<rparr>"
  obtain s2 ok where r: "rotation_phase e f ?s = (s2, ok)" by (cases "rotation_phase e f ?s")
  have "run_inv s2 \<and> (ok \<longrightarrow> r_f s2 \<noteq> None)"
    using rotation_phase_inv [OF _ r] s1 by (simp add: run_inv_def)
  then show ?thesis using Inr b r assms read_phase_inv [of s2 e pb f]
    by (cases ok) (simp_all add: run_iter_def)
qed

lemma tailer_Run_inv: "run_inv s \<Longrightarrow> \<forall>e \<in> set es. os_bounds e \<Longrightarrow> run_inv (tailer_Run pb es s)"
proof (induction es arbitrary: s)
  case (Cons e es)
  obtain it s' where r: "run_iter pb e s = (it, s')" by (cases "run_iter pb e s")
  have "run_inv s'" using run_iter_inv [OF Cons.prems(1), of e pb] Cons.prems(2) r by simp
  then show ?case using Cons r by (cases it) auto
qed simp

lemma run_inv_init: "run_inv (run_init now (tailer_New path ch sid w))"
  by (simp add: run_inv_def run_init_def tailer_New_def)

section \<open>The newest match\<close>

definition eligible :: "(bytes \<Rightarrow> syserr + finfo) \<Rightarrow> u64 set \<Rightarrow> bytes \<Rightarrow> finfo \<Rightarrow> bool" where
  "eligible stat left m info \<longleftrightarrow> stat m = Inr info \<and> fi_regular info \<and> fi_ino info \<notin> left"

definition newer :: "time \<Rightarrow> bytes \<Rightarrow> time \<Rightarrow> bytes \<Rightarrow> bool" where
  "newer mt m mt' m' \<longleftrightarrow> mt' < mt \<or> mt = mt' \<and> m' \<le> m"

definition regular_inodes :: "(bytes \<Rightarrow> syserr + finfo) \<Rightarrow> bytes list \<Rightarrow> u64 set" where
  "regular_inodes stat ms = {fi_ino info | m info. m \<in> set ms \<and> stat m = Inr info \<and> fi_regular info}"

lemma regular_inodes_snoc:
  "regular_inodes stat (ms @ [m]) = (case stat m of
     Inr info \<Rightarrow> if fi_regular info then insert (fi_ino info) (regular_inodes stat ms) else regular_inodes stat ms
   | Inl _ \<Rightarrow> regular_inodes stat ms)"
  by (auto simp: regular_inodes_def split: sum.splits)

lemma newest_fold:
  assumes "[] \<notin> set ms" "fold (newest_step stat left) ms ([], 0, {}) = (n, nm, pres)"
  shows "pres = regular_inodes stat ms
     \<and> (n = [] \<longleftrightarrow> (\<nexists>m info. m \<in> set ms \<and> eligible stat left m info))
     \<and> (n \<noteq> [] \<longrightarrow> n \<in> set ms \<and> (\<exists>info. eligible stat left n info \<and> nm = fi_mtime info)
          \<and> (\<forall>m info. m \<in> set ms \<and> eligible stat left m info \<longrightarrow> newer nm n (fi_mtime info) m))"
  using assms
proof (induction ms arbitrary: n nm pres rule: rev_induct)
  case (snoc m ms)
  obtain n0 nm0 pres0 where f: "fold (newest_step stat left) ms ([], 0, {}) = (n0, nm0, pres0)"
    by (metis prod_cases3)
  have IH: "pres0 = regular_inodes stat ms"
    "n0 = [] \<longleftrightarrow> (\<nexists>m info. m \<in> set ms \<and> eligible stat left m info)"
    "n0 \<noteq> [] \<Longrightarrow> n0 \<in> set ms \<and> (\<exists>info. eligible stat left n0 info \<and> nm0 = fi_mtime info)
       \<and> (\<forall>m info. m \<in> set ms \<and> eligible stat left m info \<longrightarrow> newer nm0 n0 (fi_mtime info) m)"
    using snoc.IH [OF _ f] snoc.prems(1) by auto
  have m: "m \<noteq> []" and st: "newest_step stat left m (n0, nm0, pres0) = (n, nm, pres)"
    using snoc.prems f by auto
  show ?case
  proof (cases "\<exists>info. eligible stat left m info")
    case True
    then obtain info where info: "stat m = Inr info" "fi_regular info" "fi_ino info \<notin> left"
      by (auto simp: eligible_def)
    then have el: "eligible stat left m i \<longleftrightarrow> i = info" for i by (auto simp: eligible_def)
    show ?thesis
    proof (cases "n0 = [] \<or> nm0 < fi_mtime info \<or> (fi_mtime info = nm0 \<and> n0 < m)")
      case True
      then have "n = m" "nm = fi_mtime info" "pres = insert (fi_ino info) pres0"
        using st info by (auto simp: newest_step_def Let_def)
      moreover have "newer (fi_mtime info) m (fi_mtime i) x"
        if "x \<in> set ms" "eligible stat left x i" for x i
      proof -
        have "n0 \<noteq> []" using IH(2) that by blast
        then have "newer nm0 n0 (fi_mtime i) x" using IH(3) that by blast
        then show ?thesis using True \<open>n0 \<noteq> []\<close> by (auto simp: newer_def)
      qed
      moreover have "newer (fi_mtime info) m (fi_mtime info) m" by (simp add: newer_def)
      ultimately show ?thesis using IH(1) m info el
        by (auto simp: regular_inodes_snoc) blast
    next
      case False
      then have "n = n0" "nm = nm0" "pres = insert (fi_ino info) pres0"
        using st info by (auto simp: newest_step_def Let_def)
      moreover have "newer nm0 n0 (fi_mtime info) m" using False by (auto simp: newer_def)
      ultimately show ?thesis using False IH info el
        by (auto simp: regular_inodes_snoc)
    qed
  next
    case False
    then have "n = n0" "nm = nm0" "pres = regular_inodes stat (ms @ [m])"
      using st IH(1) by (auto simp: newest_step_def Let_def eligible_def regular_inodes_snoc split: sum.splits if_splits)
    then show ?thesis using False IH by (auto)
  qed
qed (auto simp: regular_inodes_def)

section \<open>Switching files\<close>

context publisher
begin

lemma read_phase_switches:
  assumes env: "quiet_env c f path ino e" and s: "at_offset sent c start old s"
    and short: "short_lines (drop start c)" and pending: "r_switchPending s" and le: "start \<le> length c"
  shows "\<exists>s'. read_phase PublishBatch e f s = (Continue None, s')
     \<and> sent_messages sent s' = old @ messages (drop start c)
     \<and> r_fileIno s \<in> t_left (r_t s') \<and> r_f s' = None \<and> r_lineBuffer s' = []"
proof -
  obtain s' where d: "drain PublishBatch f (e_drain e) s (int (length c)) = (Drained, s')"
    "at_offset sent c start old s'" "r_offset s' = int (length c)"
    using read_phase_quiet [OF env s short] by blast
  let ?t = "close_file (s'\<lparr>r_t := (r_t s')\<lparr>t_left := insert (r_fileIno s') (t_left (r_t s'))\<rparr>\<rparr>)"
  have k: "r_fileIno s' = r_fileIno s" "r_switchPending s'" using drain_keeps [OF d(1)] pending by auto
  have "read_phase PublishBatch e f s = (Continue None, ?t)"
    using env d k s by (auto simp: read_phase_def quiet_env_def at_offset_def)
  moreover have "sent_messages sent ?t = old @ messages (drop start c)"
    using d le by (simp add: at_offset_def delivered_def window_whole sent_messages_def close_file_def)
  ultimately show ?thesis using k by (auto simp: close_file_def)
qed

lemma feed_delivers:
  assumes "delivered sent old input s" "short_lines (input @ concat chunks)"
    "\<forall>c \<in> set chunks. length c \<le> readBufSize"
  shows "delivered sent old (input @ concat chunks) (fold (drain_read PublishBatch stamp) chunks s)"
  using assms
proof (induction chunks arbitrary: input s)
  case (Cons c chunks)
  have "length (partial_line input) + readBufSize \<le> maxLineBytes"
    using short_lines_partial [OF Cons.prems(2), of "length input"] by simp
  then have "delivered sent old (input @ c) (drain_read PublishBatch stamp c s)"
    using drain_read_delivers [OF Cons.prems(1)] Cons.prems(3) by simp
  from Cons.IH [OF this] show ?case using Cons.prems by simp
qed simp

end

section \<open>An example file system\<close>

text \<open>An iteration on a file of content \<open>c\<close>, small enough for one read.\<close>

definition file_round :: "bytes \<Rightarrow> drain_env" where
  "file_round c =
     \<lparr>d_ReadAt = (\<lambda>_ off. (take readBufSize (drop (nat off) c), EOF)),
      d_Stat = (\<lambda>_. Inr \<lparr>fi_size = int (length c), fi_mtime = 1, fi_ino = 7, fi_regular = True\<rparr>),
      d_ctxErr = False, d_clock = (0, 0), d_stamp = (\<lambda>_. ''2026-05-28T10:00:00Z'')\<rparr>"

definition file_env :: "bytes \<Rightarrow> env" where
  "file_env c =
     (let info = \<lparr>fi_size = int (length c), fi_mtime = 1, fi_ino = 7, fi_regular = True\<rparr>
      in \<lparr>e_ctxErr = False, e_clock = (0, 0), e_glob = [], e_stat = (\<lambda>_. Inr info), e_ino = (\<lambda>_. Inr 7),
          e_open = (\<lambda>_. Inr 3), e_seekEnd = (\<lambda>_. Inr (int (length c))), e_rotStat = (\<lambda>_. Inr info),
          e_rotIno = (\<lambda>_. Inr 7), e_newerFstat = (\<lambda>_. Inr info), e_newerGlob = [],
          e_newerStat = (\<lambda>_. Inr info), e_fstat = (\<lambda>_. Inr info), e_drain = [file_round c]\<rparr>)"

lemma file_round_quiet: "quiet_round c f (file_round c)"
  by (simp add: quiet_round_def file_round_def)

lemma file_env_quiet: "length c \<le> readBufSize \<Longrightarrow> quiet_env c f path 7 (file_env c)"
  by (simp add: quiet_env_def file_env_def Let_def file_round_quiet)

lemma file_env_opens: "opens_at_end c 3 path 7 (file_env c)"
  by (simp add: opens_at_end_def file_env_def Let_def)

lemma file_env_bounds: "os_bounds (file_env c)"
  by (simp add: os_bounds_def file_env_def Let_def file_round_def)

definition example_redis :: redis where
  "example_redis = redis_New (\<lambda>_. Inr 1) (\<lambda>_. 0)"

section \<open>Properties\<close>

text \<open>
  Started on an exact path, the tailer publishes every complete line written to the file
  after startup and nothing else: once, in order, with the byte-order mark and carriage returns
  removed and empty lines skipped. The file may grow between iterations in any way; what was in it
  when it was opened is not published.
\<close>

theorem tailer_delivers_appended_lines:
  fixes w :: redis
  assumes "\<not> ContainsAny path ''*?[''"
    and "opens_at_end c0 f path ino e0" "quiet_env c1 f path ino e0"
    and "list_all2 (\<lambda>c e. quiet_env c f path ino e) cs es"
    and "sorted_wrt prefix (c0 # c1 # cs)"
    and "short_lines (drop (length c0) (last (c1 # cs)))"
  shows "sent_messages wire (tailer_Run PublishBatch (e0 # es) (run_init now (tailer_New path ch sid w)))
     = sent_messages wire (run_init now (tailer_New path ch sid w))
       @ messages (drop (length c0) (last (c1 # cs)))"
  by (rule redis_publisher.run_delivers [OF assms])

theorem tailer_delivers_appended_lines_witness:
  "sent_messages wire (tailer_Run PublishBatch
     [file_env (''old'' @ [newline]), file_env (''old'' @ [newline] @ ''new'' @ [newline] @ ''part'')]
     (run_init 0 (tailer_New ''/var/log/a.log'' ''ch'' ''srv'' example_redis))) = [''new'']"
proof -
  let ?old = "''old'' @ [newline]" and ?grown = "''old'' @ [newline] @ ''new'' @ [newline] @ ''part''"
  have m: "messages (drop (length ?old) ?grown) = [''new'']" by code_simp
  have s: "short_lines (drop (length ?old) (last [?old, ?grown]))"
    by (simp add: short_lines_def maxLineBytes_def readBufSize_def)
  have q: "quiet_env ?old 3 ''/var/log/a.log'' 7 (file_env ?old)"
    "list_all2 (\<lambda>c e. quiet_env c 3 ''/var/log/a.log'' 7 e) [?grown] [file_env ?grown]"
    by (simp_all add: file_env_quiet readBufSize_def)
  have g: "sorted_wrt prefix [?old, ?old, ?grown]" by simp
  have p: "\<not> ContainsAny ''/var/log/a.log'' ''*?[''" by (simp add: ContainsAny_def)
  show ?thesis
    using tailer_delivers_appended_lines [OF p file_env_opens q g s, of 0 "''ch''" "''srv''" example_redis] m
    by (simp add: sent_messages_def run_init_def tailer_New_def example_redis_def redis_New_def)
qed

text \<open>
  C8. How the bytes are cut into read chunks makes no difference: two ways of cutting the same
  bytes publish the same messages and leave the same incomplete line in the buffer.
\<close>

theorem tailer_chunking_irrelevant:
  fixes s :: "redis run"
  assumes "r_lineBuffer s = []" "t_batch (r_t s) = []" "concat chunks = concat chunks'"
    and "\<forall>c \<in> set chunks \<union> set chunks'. length c \<le> readBufSize" "short_lines (concat chunks)"
  shows "sent_messages wire (fold (drain_read PublishBatch stamp) chunks s)
       = sent_messages wire (fold (drain_read PublishBatch stamp') chunks' s)
     \<and> r_lineBuffer (fold (drain_read PublishBatch stamp) chunks s)
       = r_lineBuffer (fold (drain_read PublishBatch stamp') chunks' s)"
proof -
  have "delivered wire (sent_messages wire s) [] s" using assms(1,2) by (simp add: delivered_def)
  note d = redis_publisher.feed_delivers [OF this, unfolded append_Nil]
  show ?thesis using d [of chunks stamp] d [of chunks' stamp'] assms(3-5)
    by (simp add: delivered_def)
qed

theorem tailer_chunking_irrelevant_witness:
  "sent_messages wire (fold (drain_read PublishBatch (\<lambda>_. [])) [''ab'', [newline]]
      (run_init 0 (tailer_New ''p'' ''ch'' ''srv'' example_redis)))
   = sent_messages wire (fold (drain_read PublishBatch (\<lambda>_. [])) [''a'', ''b'' @ [newline]]
      (run_init 0 (tailer_New ''p'' ''ch'' ''srv'' example_redis)))"
  using tailer_chunking_irrelevant [of "run_init 0 (tailer_New ''p'' ''ch'' ''srv'' example_redis)"
      "[''ab'', [newline]]" "[''a'', ''b'' @ [newline]]" "\<lambda>_. []" "\<lambda>_. []"]
  by (simp add: run_init_def tailer_New_def readBufSize_def maxLineBytes_def short_lines_def)

text \<open>
  C9. Memory stays bounded and files never mix: after any run from startup the line buffer holds at
  most 1 MB, no payload is left pending, and whenever no file is open the buffer is empty, so no
  message joins bytes of two files.
\<close>

theorem tailer_memory_bounded:
  assumes "\<forall>e \<in> set es. os_bounds e"
  shows "let s = tailer_Run pb es (run_init now (tailer_New path ch sid w))
     in length (r_lineBuffer s) \<le> maxLineBytes \<and> t_batch (r_t s) = []
        \<and> (r_f s = None \<longrightarrow> r_lineBuffer s = [])"
  using tailer_Run_inv [OF run_inv_init assms, of pb now path ch sid w] by (simp add: run_inv_def Let_def)

theorem tailer_memory_bounded_witness:
  "length (r_lineBuffer (tailer_Run PublishBatch [file_env ''abc'', file_env ''abcdef'']
     (run_init 0 (tailer_New ''p'' ''ch'' ''srv'' example_redis)))) \<le> maxLineBytes"
  using tailer_memory_bounded [of "[file_env ''abc'', file_env ''abcdef'']" PublishBatch 0 "''p''" "''ch''" "''srv''" example_redis]
  by (simp add: file_env_bounds Let_def)

text \<open>
  C10. The file a pattern selects is the right one: among the matches that are regular files and have not
  been switched away from, it is one with the latest modification time, the later name on a tie;
  nothing is selected exactly when there is no such match. A file switched away from stays
  excluded for as long as it is among the matches, and is forgotten once it is gone.
\<close>

theorem newest_match_correct:
  assumes "[] \<notin> set ms" "newestMatch ms stat t = (t', n, nm)"
  shows "(n = [] \<longleftrightarrow> (\<nexists>m info. m \<in> set ms \<and> eligible stat (t_left t) m info))
     \<and> (n \<noteq> [] \<longrightarrow> n \<in> set ms \<and> (\<exists>info. eligible stat (t_left t) n info \<and> nm = fi_mtime info)
          \<and> (\<forall>m info. m \<in> set ms \<and> eligible stat (t_left t) m info \<longrightarrow> newer nm n (fi_mtime info) m))
     \<and> t_left t' = t_left t \<inter> regular_inodes stat ms"
proof -
  obtain n0 nm0 pres where f: "fold (newest_step stat (t_left t)) ms ([], 0, {}) = (n0, nm0, pres)"
    by (metis prod_cases3)
  then have "n = n0" "nm = nm0" "t_left t' = t_left t \<inter> pres"
    using assms(2) by (auto simp: newestMatch_def)
  then show ?thesis using newest_fold [OF assms(1) f] by simp
qed

definition example_stat :: "bytes \<Rightarrow> syserr + finfo" where
  "example_stat m =
     (if m = ''a.log'' then Inr \<lparr>fi_size = 0, fi_mtime = 5, fi_ino = 1, fi_regular = True\<rparr>
      else if m = ''b.log'' then Inr \<lparr>fi_size = 0, fi_mtime = 5, fi_ino = 2, fi_regular = True\<rparr>
      else if m = ''c.log'' then Inr \<lparr>fi_size = 0, fi_mtime = 9, fi_ino = 3, fi_regular = True\<rparr>
      else Inl ENOENT)"

theorem newest_match_correct_witness:
  "\<exists>info. eligible example_stat {3, 4} ''b.log'' info
     \<and> newestMatch [''a.log'', ''b.log'', ''c.log''] example_stat
         ((tailer_New ''*.log'' ''ch'' ''srv'' ())\<lparr>t_left := {3, 4}\<rparr>)
       = ((tailer_New ''*.log'' ''ch'' ''srv'' ())\<lparr>t_left := {3}\<rparr>, ''b.log'', 5)"
proof -
  let ?t = "(tailer_New ''*.log'' ''ch'' ''srv'' ())\<lparr>t_left := {3, 4}\<rparr>"
  have lt: "''a.log'' < ''b.log''" by (simp add: less_char_def)
  have r: "newestMatch [''a.log'', ''b.log'', ''c.log''] example_stat ?t
      = ((tailer_New ''*.log'' ''ch'' ''srv'' ())\<lparr>t_left := {3}\<rparr>, ''b.log'', 5)"
    using lt by (simp add: newestMatch_def newest_step_def example_stat_def Let_def)
  have "\<exists>info. eligible example_stat {3, 4} ''b.log'' info"
    using newest_match_correct [OF _ r] by auto
  then show ?thesis using r by blast
qed

text \<open>
  C11. The tailer finishes a file before it leaves it: when a newer match is waiting, the iteration
  publishes every complete line up to the end of the current file, then records its inode among the
  files it never reopens, closes it and drops the incomplete rest.
\<close>

theorem switch_after_drain:
  assumes "quiet_env c f path ino e" "at_offset wire c start old s" "short_lines (drop start c)"
    "r_switchPending s" "start \<le> length c"
  shows "\<exists>s'. read_phase PublishBatch e f s = (Continue None, s')
     \<and> sent_messages wire s' = old @ messages (drop start c)
     \<and> r_fileIno s \<in> t_left (r_t s') \<and> r_f s' = None \<and> r_lineBuffer s' = []"
  by (rule redis_publisher.read_phase_switches [OF assms])

theorem switch_after_drain_witness:
  "\<exists>s'. read_phase PublishBatch (file_env (''x'' @ [newline])) 3
      ((run_init 0 (tailer_New ''*.log'' ''ch'' ''srv'' example_redis))\<lparr>r_switchPending := True, r_fileIno := 7\<rparr>)
      = (Continue None, s') \<and> sent_messages wire s' = [''x''] \<and> 7 \<in> t_left (r_t s')"
proof -
  let ?s = "(run_init 0 (tailer_New ''*.log'' ''ch'' ''srv'' example_redis))\<lparr>r_switchPending := True, r_fileIno := 7\<rparr>"
  have a: "at_offset wire (''x'' @ [newline]) 0 [] ?s"
    by (simp add: at_offset_def delivered_def sent_messages_def run_init_def tailer_New_def
        example_redis_def redis_New_def window_def)
  have m: "messages (drop 0 (''x'' @ [newline])) = [''x'']" by code_simp
  have q: "quiet_env (''x'' @ [newline]) 3 ''p'' 7 (file_env (''x'' @ [newline]))"
    by (rule file_env_quiet) (simp add: readBufSize_def)
  have sh: "short_lines (drop 0 (''x'' @ [newline]))"
    by (simp add: short_lines_def maxLineBytes_def readBufSize_def)
  show ?thesis using switch_after_drain [OF q a sh] m by auto
qed

text \<open>
  Only the first open skips existing content: it positions at the end of the file, and every
  later one, after a rotation, a truncation, an error or a switch, reads the file from its start
  with an empty line buffer.
\<close>

theorem reopen_reads_from_start:
  assumes "run_inv s" "r_f s = None" "open_phase e s = Inr (f, s')"
  shows "r_f s' = Some f \<and> \<not> r_startAtEnd s' \<and> r_lineBuffer s' = []
     \<and> (if r_startAtEnd s then e_seekEnd e f = Inr (r_offset s') else r_offset s' = 0)"
  using open_phase_Inr [OF assms(3)] assms(1,2) by (simp add: run_inv_def)

theorem reopen_reads_from_start_witness:
  "r_offset (projr (map_sum id snd (open_phase (file_env ''abc'')
     ((run_init 0 (tailer_New ''p'' ''ch'' ''srv'' ()))\<lparr>r_startAtEnd := False\<rparr>)))) = 0"
proof -
  let ?s = "(run_init 0 (tailer_New ''p'' ''ch'' ''srv'' ()))\<lparr>r_startAtEnd := False\<rparr>"
  have i: "run_inv ?s" using run_inv_init [of 0 "''p''" "''ch''" "''srv''" "()"] by (simp add: run_inv_def)
  obtain s' where o: "open_phase (file_env ''abc'') ?s = Inr (3, s')"
    by (simp add: open_phase_def find_file_def openFile_def file_env_def Let_def run_init_def
        tailer_New_def ContainsAny_def)
  show ?thesis
    using reopen_reads_from_start [OF i _ o] o by (simp add: run_init_def)
qed

text \<open>
  The oversized branch does not respect line boundaries: a line one byte below the 1 MB limit
  that arrives in one buffer with the short line after it is published with its newline still
  in the message, and the complete line after it stays in the buffer unpublished.
\<close>

theorem oversized_flush_breaks_lines:
  "flushCompleteLines pb stamp t (replicate (maxLineBytes - 1) CHR ''a'' @ [newline] @ ''b'' @ [newline])
     = (publishBatch pb (appendEvent stamp (replicate (maxLineBytes - 1) CHR ''a'' @ [newline]) t), ''b'' @ [newline])"
proof -
  let ?as = "replicate (maxLineBytes - 1) CHR ''a''"
  have pos: "0 < maxLineBytes" by (simp add: maxLineBytes_def)
  then have "length (?as @ [newline]) = maxLineBytes" by simp
  moreover have "take (length xs) (xs @ ys) = xs \<and> drop (length xs) (xs @ ys) = ys" for xs ys :: bytes
    by simp
  ultimately have "take maxLineBytes ((?as @ [newline]) @ ''b'' @ [newline]) = ?as @ [newline]"
    "drop maxLineBytes ((?as @ [newline]) @ ''b'' @ [newline]) = ''b'' @ [newline]"
    by metis+
  moreover have "maxLineBytes < length ((?as @ [newline]) @ ''b'' @ [newline])" using pos by simp
  ultimately show ?thesis using flushCompleteLines_oversized by (metis append_assoc)
qed

end
