(* ===== verification/Procfs.thy ===== *)
theory Procfs
  imports GoText Float64
begin

text \<open>
  What the parsers of the kernel's text files share: their errors, and how the kernel lays out a
  line. \<open>columns\<close> renders tokens each preceded by one or more blanks, so a statement about
  rendered files holds for every padding the kernel uses.
\<close>

datatype parse_error =
    ErrInvalid
  | BadNumber bytes num_error
  | TooFewFields bytes nat

abbreviation blank :: char where
  "blank \<equiv> CHR 0x20"

definition columns :: "(nat \<times> bytes) list \<Rightarrow> bytes" where
  "columns cs = concat (map (\<lambda>(pad, t). replicate (Suc pad) blank @ t) cs)"

definition token :: "bytes \<Rightarrow> bool" where
  "token t \<longleftrightarrow> t \<noteq> [] \<and> list_all token_byte t"

lemma columns_simps [simp]:
  "columns [] = []" "columns ((pad, t) # cs) = blank # replicate pad blank @ t @ columns cs"
  by (simp_all add: columns_def)

lemma token_show_nat [simp]: "token (show_nat n)"
  by (simp add: token_def show_nat_token)

lemma blank_is_space: "byte_nat blank < 128" "is_space_rune (byte_nat blank)"
  by (simp_all add: is_space_rune_def)

lemma Fields_blank [text_simps]: "Fields (blank # s) = Fields s"
  by (rule Fields_space) (simp_all add: is_space_rune_def)

lemma Fields_blanks [text_simps]: "Fields (replicate n blank @ s) = Fields s"
  by (induction n) (simp_all add: Fields_blank)

lemma Fields_token_columns:
  "token t \<Longrightarrow> list_all (token \<circ> snd) cs \<Longrightarrow> Fields (t @ columns cs) = t # map snd cs"
proof (induction cs arbitrary: t)
  case Nil
  then show ?case by (simp add: token_def Fields_token)
next
  case (Cons c cs)
  obtain pad u where c: "c = (pad, u)" by (cases c)
  have "Fields (t @ blank # replicate pad blank @ u @ columns cs) = t # Fields (replicate pad blank @ u @ columns cs)"
    using Cons.prems by (intro Fields_token_space) (simp_all add: token_def is_space_rune_def)
  then show ?case using Cons.IH [of u] Cons.prems by (simp add: c Fields_blanks)
qed

lemma Fields_columns [text_simps]: "list_all (token \<circ> snd) cs \<Longrightarrow> Fields (columns cs) = map snd cs"
proof (cases cs)
  case (Cons c cs')
  obtain pad u where "c = (pad, u)" by (cases c)
  moreover assume "list_all (token \<circ> snd) cs"
  ultimately show ?thesis using Fields_token_columns [of u cs'] by (simp add: Cons Fields_blank Fields_blanks)
qed simp

text \<open>A token holds no line break, and neither does a line of tokens.\<close>

lemma newline_not_token_byte: "\<not> token_byte newline"
  by (simp add: token_byte_def is_space_rune_def in_range_def)

lemma newline_not_in_token [simp]: "token t \<Longrightarrow> newline \<notin> set t"
  using newline_not_token_byte by (auto simp: token_def list_all_iff)

lemma newline_not_in_columns [simp]: "list_all (token \<circ> snd) cs \<Longrightarrow> newline \<notin> set (columns cs)"
  by (induction cs) auto

text \<open>A file is its lines, each ended by a line break.\<close>

definition text_file :: "bytes list \<Rightarrow> bytes" where
  "text_file ls = concat (map (\<lambda>l. l @ [newline]) ls)"

lemma Split_text_file [text_simps]:
  "list_all (\<lambda>l. newline \<notin> set l) ls \<Longrightarrow> Split newline (text_file ls) = ls @ [[]]"
  by (induction ls) (simp_all add: text_file_def text_simps)

text \<open>Columns of numbers.\<close>

definition num_columns :: "(nat \<times> u64) list \<Rightarrow> (nat \<times> bytes) list" where
  "num_columns vs = map (\<lambda>(pad, v). (pad, show_nat (unat v))) vs"

lemma num_columns_token [simp]: "list_all (token \<circ> snd) (num_columns vs)"
  by (induction vs) (auto simp: num_columns_def)

lemma snd_num_columns [simp]: "map snd (num_columns vs) = map (\<lambda>(pad, v). show_nat (unat v)) vs"
  by (induction vs) (auto simp: num_columns_def)

end
