(* ===== verification/Cpu.thy ===== *)
theory Cpu
  imports Procfs
begin

text \<open>
  \<^verbatim>\<open>src/resources/cpu\<close>: the aggregate counters and the number of CPUs from \<^verbatim>\<open>/proc/stat\<close>, and the busy
  percentage between two samples.
\<close>

record cpu_Sample =
  cs_Total :: u64
  cs_Idle :: u64
  cs_CPUs :: int

definition cpu_zero :: cpu_Sample where
  "cpu_zero = \<lparr>cs_Total = 0, cs_Idle = 0, cs_CPUs = 0\<rparr>"

text \<open>The loop over the columns of the aggregate line.\<close>

fun cpu_fields :: "nat \<Rightarrow> bytes list \<Rightarrow> cpu_Sample \<Rightarrow> parse_error + cpu_Sample" where
  "cpu_fields i [] s = Inr s"
| "cpu_fields i (fd # fs) s =
     (case ParseUint fd of
        Inl err \<Rightarrow> Inl (BadNumber fd err)
      | Inr v \<Rightarrow>
          cpu_fields (Suc i) fs
            (if i = 8 \<or> i = 9 then s
             else let s = s\<lparr>cs_Total := cs_Total s + v\<rparr>
                  in if i = 3 \<or> i = 4 then s\<lparr>cs_Idle := cs_Idle s + v\<rparr> else s))"

text \<open>The loop over the lines, with the flag \<^verbatim>\<open>found\<close>.\<close>

fun cpu_lines :: "bytes list \<Rightarrow> bool \<Rightarrow> cpu_Sample \<Rightarrow> parse_error + bool \<times> cpu_Sample" where
  "cpu_lines [] found s = Inr (found, s)"
| "cpu_lines (line # lines) found s =
     (let fs = Fields line
      in if length fs < 5 \<or> \<not> HasPrefix (hd fs) ''cpu'' then cpu_lines lines found s
         else if 3 < length (hd fs)
           then cpu_lines lines found
                  (if is_digit (hd fs ! 3) then s\<lparr>cs_CPUs := cs_CPUs s + 1\<rparr> else s)
         else if found then cpu_lines lines found s
         else case cpu_fields 0 (tl fs) s of
                Inl err \<Rightarrow> Inl err
              | Inr s \<Rightarrow> cpu_lines lines True s)"

definition cpu_Parse :: "bytes \<Rightarrow> parse_error + cpu_Sample" where
  "cpu_Parse data =
     (case cpu_lines (Split newline data) False cpu_zero of
        Inl err \<Rightarrow> Inl err
      | Inr (found, s) \<Rightarrow> if \<not> found then Inl ErrInvalid else Inr s)"

definition cpu_Count :: "cpu_Sample \<Rightarrow> int option" where
  "cpu_Count s = (if 0 < cs_CPUs s then Some (cs_CPUs s) else None)"

definition cpu_Percent :: "cpu_Sample \<Rightarrow> cpu_Sample \<Rightarrow> rat option" where
  "cpu_Percent prev now =
     (if cs_Total now \<le> cs_Total prev \<or> cs_Idle now < cs_Idle prev then None
      else let totalDelta = cs_Total now - cs_Total prev;
               idleDelta = cs_Idle now - cs_Idle prev
           in if totalDelta < idleDelta then None
              else Some (fdiv (fmul 100 (of_u64 (totalDelta - idleDelta))) (of_u64 totalDelta)))"

section \<open>The parser on a file laid out by the kernel\<close>

text \<open>What the columns of an aggregate line add up to, from column \<open>i\<close> on.\<close>

fun total_from :: "nat \<Rightarrow> u64 list \<Rightarrow> u64" where
  "total_from i [] = 0"
| "total_from i (v # vs) = (if i = 8 \<or> i = 9 then 0 else v) + total_from (Suc i) vs"

fun idle_from :: "nat \<Rightarrow> u64 list \<Rightarrow> u64" where
  "idle_from i [] = 0"
| "idle_from i (v # vs) = (if i = 3 \<or> i = 4 then v else 0) + idle_from (Suc i) vs"

lemma cpu_fields_numbers:
  "cpu_fields i (map (\<lambda>v. show_nat (unat v)) vs) s
     = Inr (s\<lparr>cs_Total := cs_Total s + total_from i vs, cs_Idle := cs_Idle s + idle_from i vs\<rparr>)"
  by (induction vs arbitrary: i s) (simp_all add: ParseUint_show_nat Let_def algebra_simps)

text \<open>Lines of \<^verbatim>\<open>/proc/stat\<close> that the parser passes over: those that do not start with \<^verbatim>\<open>cpu\<close>.\<close>

definition other_line :: "bytes \<Rightarrow> bool" where
  "other_line l \<longleftrightarrow> newline \<notin> set l \<and> (Fields l = [] \<or> \<not> HasPrefix (hd (Fields l)) ''cpu'')"

lemma cpu_lines_other: "list_all other_line ls \<Longrightarrow> cpu_lines (ls @ rest) found s = cpu_lines rest found s"
  by (induction ls) (auto simp: other_line_def Let_def)

definition cpu_line :: "bytes \<Rightarrow> (nat \<times> u64) list \<Rightarrow> bytes" where
  "cpu_line name vs = name @ columns (num_columns vs)"

lemma Fields_cpu_line: "token name \<Longrightarrow> Fields (cpu_line name vs) = name # map (\<lambda>(pad, v). show_nat (unat v)) vs"
  by (simp add: cpu_line_def Fields_token_columns)

definition per_cpu_name :: "nat \<Rightarrow> bytes" where
  "per_cpu_name k = ''cpu'' @ show_nat k"

lemma token_cpu: "token ''cpu''"
  by (simp add: token_def token_byte_def is_space_rune_def in_range_def)

lemma token_per_cpu: "token (per_cpu_name k)"
  using token_cpu show_nat_token by (simp add: token_def per_cpu_name_def)

lemma show_nat_hd_digit: "is_digit (show_nat n ! 0)"
  using list_all_digit_show_nat [of n] by (simp add: list_all_length)

lemma per_cpu_name_digit: "is_digit (per_cpu_name k ! 3)" "3 < length (per_cpu_name k)"
  using show_nat_hd_digit by (simp_all add: per_cpu_name_def)

lemma cpu_lines_per_cpu:
  assumes "\<forall>l \<in> set ls. \<exists>k vs. l = cpu_line (per_cpu_name k) vs \<and> 4 \<le> length vs"
  shows "cpu_lines (ls @ rest) found s = cpu_lines rest found (s\<lparr>cs_CPUs := cs_CPUs s + int (length ls)\<rparr>)"
  using assms
proof (induction ls arbitrary: s)
  case (Cons l ls)
  then obtain k vs where l: "l = cpu_line (per_cpu_name k) vs" "4 \<le> length vs" by auto
  have p: "HasPrefix (per_cpu_name k) ''cpu''" by (simp add: per_cpu_name_def HasPrefix_def)
  show ?case using Cons.prems l(2)
    by (simp add: l(1) Fields_cpu_line token_per_cpu p per_cpu_name_digit Let_def Cons.IH not_less add.commute add.left_commute)
qed simp

lemma newline_not_in_cpu_line: "token name \<Longrightarrow> newline \<notin> set (cpu_line name vs)"
  by (simp add: cpu_line_def)

text \<open>
  The CPU parser reads a \<^verbatim>\<open>/proc/stat\<close> file correctly: whatever the padding and whatever other lines
  follow, the total is the sum of the aggregate columns without the two guest columns, the idle time
  is idle plus iowait, and the CPU count is the number of per-CPU lines.
\<close>

theorem cpu_parse_reads_proc_stat:
  assumes "4 \<le> length vs" "\<forall>(k, ws) \<in> set per_cpu. 4 \<le> length ws" "list_all other_line others"
  shows "cpu_Parse (text_file (cpu_line ''cpu'' vs
            # map (\<lambda>(k, ws). cpu_line (per_cpu_name k) ws) per_cpu @ others))
       = Inr \<lparr>cs_Total = total_from 0 (map snd vs), cs_Idle = idle_from 0 (map snd vs),
              cs_CPUs = int (length per_cpu)\<rparr>"
proof -
  let ?per = "map (\<lambda>(k, ws). cpu_line (per_cpu_name k) ws) per_cpu"
  have nn: "list_all (\<lambda>l. newline \<notin> set l) (cpu_line ''cpu'' vs # ?per @ others)"
    using assms(3)
    by (auto simp: list_all_iff other_line_def newline_not_in_cpu_line [OF token_cpu]
        newline_not_in_cpu_line [OF token_per_cpu])
  have nums: "map (\<lambda>(pad, v). show_nat (unat v)) vs = map (\<lambda>v. show_nat (unat v)) (map snd vs)"
    by (simp add: comp_def split_beta)
  have per: "\<forall>l \<in> set ?per. \<exists>k vs. l = cpu_line (per_cpu_name k) vs \<and> 4 \<le> length vs"
    using assms(2) by fastforce
  have pre: "HasPrefix ''cpu'' ''cpu''" by (simp add: HasPrefix_def)
  have head: "cpu_lines (cpu_line ''cpu'' vs # ls) False s
      = cpu_lines ls True (s\<lparr>cs_Total := cs_Total s + total_from 0 (map snd vs),
                             cs_Idle := cs_Idle s + idle_from 0 (map snd vs)\<rparr>)" for ls s
    using assms(1) by (simp add: Fields_cpu_line token_cpu pre Let_def nums cpu_fields_numbers del: map_map)
  have tail: "cpu_lines (?per @ others @ [[]]) True s = Inr (True, s\<lparr>cs_CPUs := cs_CPUs s + int (length per_cpu)\<rparr>)" for s
    by (simp only: cpu_lines_per_cpu [OF per] cpu_lines_other [OF assms(3)]) simp
  show ?thesis
    by (simp only: cpu_Parse_def Split_text_file [OF nn] append_Cons append_assoc head tail) (simp add: cpu_zero_def)
qed

theorem cpu_parse_reads_proc_stat_witness:
  "cpu_Parse (text_file [cpu_line ''cpu'' [(1, 10), (0, 2), (0, 3), (0, 80), (0, 5)],
      cpu_line (per_cpu_name 0) [(0, 10), (0, 2), (0, 3), (0, 80), (0, 5)], ''ctxt 12''])
   = Inr \<lparr>cs_Total = 100, cs_Idle = 85, cs_CPUs = 1\<rparr>"
proof -
  have "Fields (''ctxt'' @ columns [(0, ''12'')]) = [''ctxt'', ''12'']"
    by (subst Fields_token_columns) (simp_all add: token_def token_byte_def is_space_rune_def in_range_def)
  then have o: "list_all other_line [''ctxt 12'']" by (simp add: other_line_def HasPrefix_def)
  let ?vs = "[(1, 10), (0, 2), (0, 3), (0, 80), (0, 5)] :: (nat \<times> u64) list"
  have sums: "total_from 0 (map snd ?vs) = 100" "idle_from 0 (map snd ?vs) = 85" by simp_all
  show ?thesis
    using cpu_parse_reads_proc_stat [of ?vs "[(0, [(0, 10), (0, 2), (0, 3), (0, 80), (0, 5)])]", OF _ _ o]
    unfolding sums by simp
qed

section \<open>The percentage\<close>

lemma cpu_Percent_None:
  "cpu_Percent prev now = None \<longleftrightarrow> unat (cs_Total now) \<le> unat (cs_Total prev) \<or> unat (cs_Idle now) < unat (cs_Idle prev)
     \<or> unat (cs_Total now) - unat (cs_Total prev) < unat (cs_Idle now) - unat (cs_Idle prev)"
  by (auto simp: cpu_Percent_def Let_def word_le_nat_alt word_less_nat_alt unat_sub_le not_le not_less)

text \<open>
  C35. The CPU percentage is left out exactly when total time did not advance, idle time went back or idle time outran it.
  Otherwise, for windows below \<open>2^53 / 100\<close> jiffies, it is the exact share of busy time, rounded once,
  and lies between 0 and 100.
\<close>

theorem cpu_percent_correct:
  "(cpu_Percent prev now = None \<longleftrightarrow> unat (cs_Total now) \<le> unat (cs_Total prev) \<or> unat (cs_Idle now) < unat (cs_Idle prev)
      \<or> unat (cs_Total now) - unat (cs_Total prev) < unat (cs_Idle now) - unat (cs_Idle prev))
   \<and> (\<forall>p. cpu_Percent prev now = Some p \<and> 100 * (unat (cs_Total now) - unat (cs_Total prev)) \<le> 2 ^ 53 \<longrightarrow>
        (let total = unat (cs_Total now) - unat (cs_Total prev);
             idle = unat (cs_Idle now) - unat (cs_Idle prev)
         in p = rnd (100 * of_nat (total - idle) / of_nat total) \<and> 0 \<le> p \<and> p \<le> 100))"
proof (intro conjI allI impI cpu_Percent_None)
  fix p
  let ?total = "unat (cs_Total now) - unat (cs_Total prev)" and ?idle = "unat (cs_Idle now) - unat (cs_Idle prev)"
  let ?td = "cs_Total now - cs_Total prev" and ?id = "cs_Idle now - cs_Idle prev"
  assume "cpu_Percent prev now = Some p \<and> 100 * ?total \<le> 2 ^ 53"
  then have Some: "cpu_Percent prev now = Some p" and bound: "100 * ?total \<le> 2 ^ 53" by simp_all
  have g: "cs_Total prev < cs_Total now" "cs_Idle prev \<le> cs_Idle now" "?id \<le> ?td"
    using Some by (auto simp: cpu_Percent_def Let_def not_le not_less split: if_splits)
  have t: "unat ?td = ?total" "unat ?id = ?idle" using g by (simp_all add: unat_sub_le less_imp_le)
  then have b: "unat (?td - ?id) = ?total - ?idle" using unat_sub_le [OF g(3)] by simp
  have pos: "0 < ?total" using g(1) by (simp add: word_less_nat_alt)
  have le: "?total - ?idle \<le> ?total" by simp
  have "of_u64 ?td \<noteq> 0" using g(1) by (intro of_u64_neq_0) (simp add: word_sub_pos)
  moreover have "p = fdiv (fmul 100 (of_u64 (?td - ?id))) (of_u64 ?td)"
    using Some g by (auto simp: cpu_Percent_def Let_def split: if_splits)
  ultimately have p: "p = rnd (rnd (100 * rnd (of_nat (?total - ?idle))) / rnd (of_nat ?total))"
    by (simp only: fdiv_eq fmul_def of_u64_def b t not_False_eq_True)
  have "rnd (of_nat (?total - ?idle)) = of_nat (?total - ?idle)" "rnd (of_nat ?total) = of_nat ?total"
    "rnd (of_nat (100 * (?total - ?idle))) = of_nat (100 * (?total - ?idle))"
    by (rule binary64.exact_nat, use bound in simp)+
  then have "p = rnd (100 * of_nat (?total - ?idle) / of_nat ?total)"
    by (simp only: p of_nat_mult of_nat_numeral)
  moreover have "0 \<le> p \<and> p \<le> 100"
    using binary64.scaled_percent [OF le pos bound] unfolding p .
  ultimately show "let total = ?total; idle = ?idle in p = rnd (100 * of_nat (total - idle) / of_nat total) \<and> 0 \<le> p \<and> p \<le> 100"
    by (simp only: Let_def simp_thms)
qed

theorem cpu_percent_correct_witness:
  "\<exists>p. cpu_Percent \<lparr>cs_Total = 100, cs_Idle = 50, cs_CPUs = 2\<rparr> \<lparr>cs_Total = 300, cs_Idle = 100, cs_CPUs = 2\<rparr> = Some p
     \<and> p = rnd (100 * of_nat 150 / of_nat 200) \<and> 0 \<le> p \<and> p \<le> 100"
proof -
  let ?a = "\<lparr>cs_Total = 100, cs_Idle = 50, cs_CPUs = 2\<rparr>" and ?b = "\<lparr>cs_Total = 300, cs_Idle = 100, cs_CPUs = 2\<rparr>"
  obtain p where p: "cpu_Percent ?a ?b = Some p" by (simp add: cpu_Percent_def Let_def)
  show ?thesis using cpu_percent_correct [of ?a ?b] unfolding p by (simp add: Let_def)
qed

end
