(* ===== verification/Memory.thy ===== *)
theory Memory
  imports Procfs
begin

text \<open>
  \<^verbatim>\<open>src/resources/memory\<close>: the lines of \<^verbatim>\<open>/proc/meminfo\<close> the agent uses, and RAM and swap usage derived
  from them. The map \<^verbatim>\<open>targets\<close> from keys to pointers into the sample is \<open>targets\<close>, from keys to field
  updates.
\<close>

record mem_Sample =
  MemTotalKB :: u64
  MemAvailableKB :: u64
  MemFreeKB :: u64
  BuffersKB :: u64
  CachedKB :: u64
  ShmemKB :: u64
  SReclaimableKB :: u64
  SwapTotalKB :: u64
  SwapFreeKB :: u64
  HasMemTotal :: bool
  HasMemAvailable :: bool
  HasEstimate :: bool
  HasSwap :: bool

definition mem_zero :: mem_Sample where
  "mem_zero = \<lparr>MemTotalKB = 0, MemAvailableKB = 0, MemFreeKB = 0, BuffersKB = 0, CachedKB = 0,
     ShmemKB = 0, SReclaimableKB = 0, SwapTotalKB = 0, SwapFreeKB = 0, HasMemTotal = False,
     HasMemAvailable = False, HasEstimate = False, HasSwap = False\<rparr>"

definition targets :: "(bytes \<times> (u64 \<Rightarrow> mem_Sample \<Rightarrow> mem_Sample)) list" where
  "targets =
     [(''MemTotal:'', \<lambda>kb. MemTotalKB_update (\<lambda>_. kb)),
      (''MemAvailable:'', \<lambda>kb. MemAvailableKB_update (\<lambda>_. kb)),
      (''MemFree:'', \<lambda>kb. MemFreeKB_update (\<lambda>_. kb)),
      (''Buffers:'', \<lambda>kb. BuffersKB_update (\<lambda>_. kb)),
      (''Cached:'', \<lambda>kb. CachedKB_update (\<lambda>_. kb)),
      (''Shmem:'', \<lambda>kb. ShmemKB_update (\<lambda>_. kb)),
      (''SReclaimable:'', \<lambda>kb. SReclaimableKB_update (\<lambda>_. kb)),
      (''SwapTotal:'', \<lambda>kb. SwapTotalKB_update (\<lambda>_. kb)),
      (''SwapFree:'', \<lambda>kb. SwapFreeKB_update (\<lambda>_. kb))]"

abbreviation target :: "bytes \<Rightarrow> (u64 \<Rightarrow> mem_Sample \<Rightarrow> mem_Sample) option" where
  "target \<equiv> map_of targets"

fun mem_lines :: "bytes list \<Rightarrow> bytes list \<Rightarrow> mem_Sample \<Rightarrow> parse_error + bytes list \<times> mem_Sample" where
  "mem_lines [] seen s = Inr (seen, s)"
| "mem_lines (line # lines) seen s =
     (case Fields line of
        key # value # _ \<Rightarrow>
          (case target key of
             None \<Rightarrow> mem_lines lines seen s
           | Some assign \<Rightarrow>
               (case ParseUint value of
                  Inl err \<Rightarrow> Inl (BadNumber key err)
                | Inr kb \<Rightarrow> mem_lines lines (key # seen) (assign kb s)))
      | _ \<Rightarrow> mem_lines lines seen s)"

definition mem_Parse :: "bytes \<Rightarrow> parse_error + mem_Sample" where
  "mem_Parse data =
     (case mem_lines (Split newline data) [] mem_zero of
        Inl err \<Rightarrow> Inl err
      | Inr (seen, s) \<Rightarrow>
          Inr (s\<lparr>HasMemTotal := ''MemTotal:'' \<in> set seen,
                 HasMemAvailable := ''MemAvailable:'' \<in> set seen,
                 HasEstimate := ''MemFree:'' \<in> set seen \<and> ''Buffers:'' \<in> set seen
                   \<and> ''Cached:'' \<in> set seen \<and> ''Shmem:'' \<in> set seen \<and> ''SReclaimable:'' \<in> set seen,
                 HasSwap := ''SwapTotal:'' \<in> set seen \<and> ''SwapFree:'' \<in> set seen\<rparr>))"

definition kb :: u64 where
  "kb = 1024"

record MemoryUsage =
  mem_TotalBytes :: u64
  mem_UsedBytes :: u64
  mem_AvailableBytes :: u64
  mem_UsedPercent :: rat
  mem_Estimated :: bool

record SwapUsage =
  swap_TotalBytes :: u64
  swap_UsedBytes :: u64
  swap_UsedPercent :: rat

definition available :: "mem_Sample \<Rightarrow> (u64 \<times> bool) option" where
  "available s =
     (if HasMemAvailable s then Some (MemAvailableKB s, False)
      else if HasEstimate s
        then let reclaimable = MemFreeKB s + BuffersKB s + CachedKB s + SReclaimableKB s
             in Some (if ShmemKB s < reclaimable then reclaimable - ShmemKB s else 0, True)
      else None)"

definition mem_Memory :: "mem_Sample \<Rightarrow> MemoryUsage option" where
  "mem_Memory s =
     (if \<not> HasMemTotal s \<or> MemTotalKB s = 0 then None
      else case available s of
        None \<Rightarrow> None
      | Some (availableKB, estimated) \<Rightarrow>
          let availableKB = (if MemTotalKB s < availableKB then MemTotalKB s else availableKB);
              usedKB = MemTotalKB s - availableKB
          in Some \<lparr>mem_TotalBytes = MemTotalKB s * kb, mem_UsedBytes = usedKB * kb,
                   mem_AvailableBytes = availableKB * kb,
                   mem_UsedPercent = percent_of usedKB (MemTotalKB s), mem_Estimated = estimated\<rparr>)"

definition mem_Swap :: "mem_Sample \<Rightarrow> SwapUsage option" where
  "mem_Swap s =
     (if \<not> HasSwap s then None
      else let freeKB = (if SwapTotalKB s < SwapFreeKB s then SwapTotalKB s else SwapFreeKB s);
               usedKB = SwapTotalKB s - freeKB
           in Some \<lparr>swap_TotalBytes = SwapTotalKB s * kb, swap_UsedBytes = usedKB * kb,
                    swap_UsedPercent =
                      (if 0 < SwapTotalKB s then percent_of usedKB (SwapTotalKB s) else 0)\<rparr>)"

section \<open>The parser on a file laid out by the kernel\<close>

text \<open>The sample that a partial map of keys to values stands for.\<close>

definition value_of :: "(bytes \<rightharpoonup> u64) \<Rightarrow> bytes \<Rightarrow> u64" where
  "value_of m k = (case m k of None \<Rightarrow> 0 | Some v \<Rightarrow> v)"

definition sample_of :: "(bytes \<rightharpoonup> u64) \<Rightarrow> mem_Sample" where
  "sample_of m = \<lparr>MemTotalKB = value_of m ''MemTotal:'', MemAvailableKB = value_of m ''MemAvailable:'',
     MemFreeKB = value_of m ''MemFree:'', BuffersKB = value_of m ''Buffers:'',
     CachedKB = value_of m ''Cached:'', ShmemKB = value_of m ''Shmem:'',
     SReclaimableKB = value_of m ''SReclaimable:'', SwapTotalKB = value_of m ''SwapTotal:'',
     SwapFreeKB = value_of m ''SwapFree:'', HasMemTotal = False, HasMemAvailable = False,
     HasEstimate = False, HasSwap = False\<rparr>"

definition flags_of :: "(bytes \<rightharpoonup> u64) \<Rightarrow> mem_Sample \<Rightarrow> mem_Sample" where
  "flags_of m s = s\<lparr>HasMemTotal := m ''MemTotal:'' \<noteq> None, HasMemAvailable := m ''MemAvailable:'' \<noteq> None,
     HasEstimate := (\<forall>k \<in> {''MemFree:'', ''Buffers:'', ''Cached:'', ''Shmem:'', ''SReclaimable:''}. m k \<noteq> None),
     HasSwap := m ''SwapTotal:'' \<noteq> None \<and> m ''SwapFree:'' \<noteq> None\<rparr>"

lemma value_of_upd [simp]: "value_of (m(k \<mapsto> v)) k' = (if k' = k then v else value_of m k')"
  by (simp add: value_of_def)

lemma target_sample:
  assumes "target k = Some upd"
  shows "upd v (sample_of m) = sample_of (m(k \<mapsto> v))"
  using map_of_SomeD [OF assms] unfolding targets_def list.set insert_iff empty_iff prod.inject simp_thms
  by (elim disjE conjE; hypsubst; simp add: sample_of_def del: fun_upd_apply)

lemma target_keys: "target k = None \<longleftrightarrow> k \<notin> {''MemTotal:'', ''MemAvailable:'', ''MemFree:'', ''Buffers:'',
    ''Cached:'', ''Shmem:'', ''SReclaimable:'', ''SwapTotal:'', ''SwapFree:''}"
  by (simp add: map_of_eq_None_iff) (simp add: targets_def)

lemma sample_of_cong: "(\<And>k. k \<in> fst ` set targets \<Longrightarrow> m k = m' k) \<Longrightarrow> sample_of m = sample_of m'"
  by (simp add: sample_of_def value_of_def targets_def)

lemma target_other: "target k = None \<Longrightarrow> sample_of (m(k \<mapsto> v)) = sample_of m"
  by (rule sample_of_cong) (auto simp: map_of_eq_None_iff)

text \<open>A line of \<^verbatim>\<open>/proc/meminfo\<close>: a key, a padded number, and possibly a unit.\<close>

definition mem_line :: "bytes \<times> nat \<times> u64 \<times> (nat \<times> bytes) list \<Rightarrow> bytes" where
  "mem_line l = (case l of (key, pad, v, unit) \<Rightarrow> key @ columns ((pad, show_nat (unat v)) # unit))"

definition mem_line_ok :: "bytes \<times> nat \<times> u64 \<times> (nat \<times> bytes) list \<Rightarrow> bool" where
  "mem_line_ok l = (case l of (key, pad, v, unit) \<Rightarrow> token key \<and> list_all (token \<circ> snd) unit)"

text \<open>The map the lines define: a later line overrides an earlier one with the same key.\<close>

definition mem_map :: "(bytes \<times> nat \<times> u64 \<times> (nat \<times> bytes) list) list \<Rightarrow> (bytes \<rightharpoonup> u64) \<Rightarrow> (bytes \<rightharpoonup> u64)" where
  "mem_map ls m = fold (\<lambda>(key, pad, v, unit) m. m(key \<mapsto> v)) ls m"

definition seen_keys :: "bytes list \<Rightarrow> (bytes \<rightharpoonup> u64) \<Rightarrow> bool" where
  "seen_keys seen m \<longleftrightarrow> (\<forall>k. target k \<noteq> None \<longrightarrow> (k \<in> set seen \<longleftrightarrow> m k \<noteq> None))"

lemma mem_lines_kernel:
  assumes "list_all mem_line_ok ls" "seen_keys seen m"
  shows "\<exists>seen'. mem_lines (map mem_line ls @ [[]]) seen (sample_of m) = Inr (seen', sample_of (mem_map ls m))
     \<and> seen_keys seen' (mem_map ls m)"
  using assms
proof (induction ls arbitrary: seen m)
  case Nil
  then show ?case by (simp add: mem_map_def)
next
  case (Cons l ls)
  obtain key pad v u where l: "l = (key, pad, v, u)" by (cases l)
  have f: "Fields (mem_line l) = key # show_nat (unat v) # map snd u"
    using Cons.prems(1) by (simp add: l mem_line_def mem_line_ok_def Fields_token_columns del: columns_simps)
  have m: "mem_map (l # ls) m = mem_map ls (m(key \<mapsto> v))" by (simp add: mem_map_def l)
  show ?case
  proof (cases "target key")
    case None
    have "seen_keys seen (m(key \<mapsto> v))" using Cons.prems(2) None by (auto simp: seen_keys_def)
    then show ?thesis using Cons.IH [of seen "m(key \<mapsto> v)"] Cons.prems(1) None
      by (simp add: f m target_other del: fun_upd_apply)
  next
    case (Some upd)
    have "seen_keys (key # seen) (m(key \<mapsto> v))" using Cons.prems(2) by (auto simp: seen_keys_def)
    then show ?thesis using Cons.IH [of "key # seen" "m(key \<mapsto> v)"] Cons.prems(1) Some
      by (simp add: f m target_sample ParseUint_show_nat del: fun_upd_apply)
  qed
qed

lemma newline_not_in_mem_line: "mem_line_ok l \<Longrightarrow> newline \<notin> set (mem_line l)"
  by (cases l) (simp add: mem_line_ok_def mem_line_def del: columns_simps)

text \<open>
  The memory parser reads a \<^verbatim>\<open>/proc/meminfo\<close> file correctly: in any order and padding, with any
  other lines around them, every figure the agent uses is the number on its line, zero if the line is
  missing, and each \<^verbatim>\<open>Has\<close> flag says exactly whether its lines were there.
\<close>

theorem mem_parse_reads_meminfo:
  assumes "list_all mem_line_ok ls"
  shows "mem_Parse (text_file (map mem_line ls))
     = Inr (flags_of (mem_map ls Map.empty) (sample_of (mem_map ls Map.empty)))"
proof -
  let ?m = "mem_map ls Map.empty"
  have nn: "list_all (\<lambda>l. newline \<notin> set l) (map mem_line ls)"
    using assms by (auto simp: list_all_iff newline_not_in_mem_line)
  have z: "mem_zero = sample_of Map.empty" by (simp add: mem_zero_def sample_of_def value_of_def)
  have "seen_keys [] Map.empty" by (simp add: seen_keys_def)
  from mem_lines_kernel [OF assms this] obtain seen where
    p: "mem_lines (map mem_line ls @ [[]]) [] (sample_of Map.empty) = Inr (seen, sample_of ?m)"
    and s: "seen_keys seen ?m" by blast
  have k: "k \<in> set seen \<longleftrightarrow> ?m k \<noteq> None" if "target k \<noteq> None" for k
    using s that by (simp add: seen_keys_def)
  show ?thesis
    by (simp add: mem_Parse_def Split_text_file [OF nn] z p flags_of_def)
       (simp add: k target_keys)
qed

theorem mem_parse_reads_meminfo_witness:
  "mem_Parse (text_file (map mem_line
      [(''MemTotal:'', 7, 16000, [(0, ''kB'')]), (''HugePages_Total:'', 3, 0, []), (''MemAvailable:'', 3, 4000, [(0, ''kB'')])]))
   = Inr (mem_zero\<lparr>MemTotalKB := 16000, MemAvailableKB := 4000, HasMemTotal := True, HasMemAvailable := True\<rparr>)"
proof -
  let ?ls = "[(''MemTotal:'', 7, 16000, [(0, ''kB'')]), (''HugePages_Total:'', 3, 0, []),
      (''MemAvailable:'', 3, 4000, [(0, ''kB'')])] :: (bytes \<times> nat \<times> u64 \<times> (nat \<times> bytes) list) list"
  have ok: "list_all mem_line_ok ?ls"
    by (simp add: mem_line_ok_def token_def token_byte_def is_space_rune_def in_range_def)
  have r: "flags_of (mem_map ?ls Map.empty) (sample_of (mem_map ?ls Map.empty))
      = mem_zero\<lparr>MemTotalKB := 16000, MemAvailableKB := 4000, HasMemTotal := True, HasMemAvailable := True\<rparr>"
    by (simp add: mem_map_def flags_of_def sample_of_def mem_zero_def value_of_def)
  show ?thesis using mem_parse_reads_meminfo [OF ok] unfolding r .
qed

section \<open>Usage\<close>

text \<open>A usage figure: used plus the rest make the total, and the percentage is the share.\<close>

lemma mem_MemoryD:
  assumes "mem_Memory s = Some u"
  obtains a where "a \<le> MemTotalKB s" "0 < MemTotalKB s"
    "mem_TotalBytes u = MemTotalKB s * kb" "mem_UsedBytes u = (MemTotalKB s - a) * kb"
    "mem_AvailableBytes u = a * kb" "mem_UsedPercent u = percent_of (MemTotalKB s - a) (MemTotalKB s)"
    "\<exists>a0. available s = Some (a0, mem_Estimated u) \<and> a = min (MemTotalKB s) a0"
proof -
  obtain a0 est where a0: "available s = Some (a0, est)"
    using assms by (auto simp: mem_Memory_def split: if_splits option.splits)
  have "0 < MemTotalKB s" using assms by (auto simp: mem_Memory_def word_neq_0_conv split: if_splits)
  then show thesis
    using assms a0 by (intro that [of "if MemTotalKB s < a0 then MemTotalKB s else a0"])
      (auto simp: mem_Memory_def Let_def min_def not_less split: if_splits)
qed

text \<open>
  C34. Published memory adds up: used plus available is the total, exactly, and the percentage
  lies between 0 and 100, even where the kernel's available figure exceeds its total. While the
  machine has less than 2^54 kB nothing wraps, so the sizes are 1024 times the kernel's figures.
\<close>

theorem memory_usage_adds_up:
  assumes "mem_Memory s = Some u"
  shows "mem_UsedBytes u + mem_AvailableBytes u = mem_TotalBytes u
     \<and> 0 \<le> mem_UsedPercent u \<and> mem_UsedPercent u \<le> 100
     \<and> (unat (MemTotalKB s) < 2 ^ 54 \<longrightarrow>
          unat (mem_TotalBytes u) = 1024 * unat (MemTotalKB s)
          \<and> unat (mem_UsedBytes u) + unat (mem_AvailableBytes u) = unat (mem_TotalBytes u))"
proof -
  obtain a where a: "a \<le> MemTotalKB s" "0 < MemTotalKB s"
    "mem_TotalBytes u = MemTotalKB s * kb" "mem_UsedBytes u = (MemTotalKB s - a) * kb"
    "mem_AvailableBytes u = a * kb" "mem_UsedPercent u = percent_of (MemTotalKB s - a) (MemTotalKB s)"
    using mem_MemoryD [OF assms] by metis
  let ?T = "MemTotalKB s"
  have sub: "unat (?T - a) = unat ?T - unat a" "unat a \<le> unat ?T"
    using a(1) by (simp_all add: unat_sub_le word_le_nat_alt)
  then have le: "?T - a \<le> ?T" by (simp add: word_le_nat_alt)
  have sum: "mem_UsedBytes u + mem_AvailableBytes u = mem_TotalBytes u"
    by (simp add: a algebra_simps)
  have pct: "0 \<le> mem_UsedPercent u \<and> mem_UsedPercent u \<le> 100"
    unfolding a(6) by (rule percent_of_bounds [OF le a(2)])
  have scale: "unat (x * kb) = unat x * 1024" if "unat x < 2 ^ 54" for x
    using that by (subst unat_mult_no_wrap) (simp_all add: kb_def)
  have "unat (mem_TotalBytes u) = 1024 * unat ?T
      \<and> unat (mem_UsedBytes u) + unat (mem_AvailableBytes u) = unat (mem_TotalBytes u)"
    if "unat ?T < 2 ^ 54"
    using that sub scale [of ?T] scale [of "?T - a"] scale [of a] by (simp add: a(3-5))
  with sum pct show ?thesis by blast
qed

theorem memory_usage_adds_up_witness:
  "\<exists>u. mem_Memory (mem_zero\<lparr>MemTotalKB := 16000, MemAvailableKB := 4000, HasMemTotal := True, HasMemAvailable := True\<rparr>) = Some u
     \<and> mem_UsedBytes u + mem_AvailableBytes u = mem_TotalBytes u \<and> unat (mem_TotalBytes u) = 16384000"
proof -
  let ?s = "mem_zero\<lparr>MemTotalKB := 16000, MemAvailableKB := 4000, HasMemTotal := True, HasMemAvailable := True\<rparr>"
  obtain u where u: "mem_Memory ?s = Some u" by (simp add: mem_Memory_def available_def mem_zero_def Let_def)
  show ?thesis using memory_usage_adds_up [OF u] u by simp
qed

text \<open>Swap: total, used within total, percentage within bounds, and all zeros without swap.\<close>

lemma swap_usage_bounded:
  assumes "mem_Swap s = Some u"
  shows "0 \<le> swap_UsedPercent u \<and> swap_UsedPercent u \<le> 100
     \<and> (\<exists>free. free \<le> SwapTotalKB s \<and> swap_UsedBytes u + free * kb = swap_TotalBytes u)"
proof -
  let ?f = "min (SwapTotalKB s) (SwapFreeKB s)"
  have u: "u = \<lparr>swap_TotalBytes = SwapTotalKB s * kb, swap_UsedBytes = (SwapTotalKB s - ?f) * kb,
      swap_UsedPercent = (if 0 < SwapTotalKB s then percent_of (SwapTotalKB s - ?f) (SwapTotalKB s) else 0)\<rparr>"
    using assms by (auto simp: mem_Swap_def Let_def min_def split: if_splits)
  have f: "?f \<le> SwapTotalKB s" by simp
  then have le: "SwapTotalKB s - ?f \<le> SwapTotalKB s" by (simp add: word_le_nat_alt unat_sub_le)
  have "swap_UsedBytes u + ?f * kb = swap_TotalBytes u" by (simp add: u algebra_simps)
  moreover have "0 \<le> swap_UsedPercent u \<and> swap_UsedPercent u \<le> 100"
    using percent_of_bounds [OF le] by (simp add: u)
  ultimately show ?thesis using f by blast
qed

end
