(* ===== verification/Network.thy ===== *)
theory Network
  imports Procfs "HOL-Library.AList" "HOL-Library.Multiset"
begin

text \<open>
  \<^verbatim>\<open>src/resources/network\<close>: per-interface byte counters from \<^verbatim>\<open>/proc/net/dev\<close>, and the rates between two
  samples. A Go map is an association list without repeated keys; ranging over one visits its
  entries in an order Go leaves open, so what holds of a result must hold for every permutation.
\<close>

record Counters =
  RxBytes :: u64
  TxBytes :: u64

type_synonym net_Sample = "(bytes \<times> Counters) list"

fun net_lines :: "bytes list \<Rightarrow> net_Sample \<Rightarrow> parse_error + net_Sample" where
  "net_lines [] s = Inr s"
| "net_lines (line # lines) s =
     (case Cut CHR '':'' line of
        None \<Rightarrow> net_lines lines s
      | Some (name, rest) \<Rightarrow>
          let iface = TrimSpace name; fs = Fields rest
          in if length fs < 16 then Inl (TooFewFields iface (length fs))
             else (case ParseUint (fs ! 0) of
                     Inl err \<Rightarrow> Inl (BadNumber iface err)
                   | Inr rx \<Rightarrow>
                       (case ParseUint (fs ! 8) of
                          Inl err \<Rightarrow> Inl (BadNumber iface err)
                        | Inr tx \<Rightarrow>
                            net_lines lines (AList.update iface \<lparr>RxBytes = rx, TxBytes = tx\<rparr> s))))"

definition net_Parse :: "bytes \<Rightarrow> parse_error + net_Sample" where
  "net_Parse data =
     (case net_lines (Split newline data) [] of
        Inl err \<Rightarrow> Inl err
      | Inr s \<Rightarrow> if s = [] then Inl ErrInvalid else Inr s)"

text \<open>\<open>device iface\<close> says whether \<^verbatim>\<open>/sys/class/net/<iface>/device\<close> can be statted.\<close>

definition KeepPhysical :: "(bytes \<Rightarrow> bool) \<Rightarrow> net_Sample \<Rightarrow> net_Sample" where
  "KeepPhysical device s = filter (\<lambda>(iface, _). device iface) s"

text \<open>The loop over the interfaces: \<open>None\<close> once a counter went back.\<close>

fun net_deltas :: "net_Sample \<Rightarrow> net_Sample \<Rightarrow> u64 \<times> u64 \<times> nat \<Rightarrow> (u64 \<times> u64 \<times> nat) option" where
  "net_deltas prev [] acc = Some acc"
| "net_deltas prev ((iface, cur) # now) (rxDelta, txDelta, shared) =
     (case map_of prev iface of
        None \<Rightarrow> net_deltas prev now (rxDelta, txDelta, shared)
      | Some old \<Rightarrow>
          if RxBytes cur < RxBytes old \<or> TxBytes cur < TxBytes old then None
          else net_deltas prev now
                 (rxDelta + (RxBytes cur - RxBytes old), txDelta + (TxBytes cur - TxBytes old), Suc shared))"

text \<open>\<^verbatim>\<open>Duration.Seconds\<close>: whole seconds and the fraction converted separately.\<close>

definition seconds_of :: "duration \<Rightarrow> rat" where
  "seconds_of d = fadd (of_i64 (d div second)) (fdiv (of_i64 (d mod second)) 1000000000)"

definition Rates :: "net_Sample \<Rightarrow> net_Sample \<Rightarrow> duration \<Rightarrow> (rat \<times> rat) option" where
  "Rates prev now elapsed =
     (if elapsed \<le> 0 then None
      else case net_deltas prev now (0, 0, 0) of
        None \<Rightarrow> None
      | Some (rxDelta, txDelta, shared) \<Rightarrow>
          if shared = 0 then None
          else let secs = seconds_of elapsed
               in Some (fdiv (of_u64 rxDelta) secs, fdiv (of_u64 txDelta) secs))"

section \<open>The parser on a file laid out by the kernel\<close>

definition net_line :: "nat \<times> bytes \<times> (nat \<times> u64) list \<Rightarrow> bytes" where
  "net_line l = (case l of (pad, iface, vs) \<Rightarrow> replicate pad blank @ iface @ CHR '':'' # columns (num_columns vs))"

definition net_line_ok :: "nat \<times> bytes \<times> (nat \<times> u64) list \<Rightarrow> bool" where
  "net_line_ok l = (case l of (pad, iface, vs) \<Rightarrow> token iface \<and> CHR '':'' \<notin> set iface \<and> 16 \<le> length vs)"

definition header_line :: "bytes \<Rightarrow> bool" where
  "header_line l \<longleftrightarrow> newline \<notin> set l \<and> CHR '':'' \<notin> set l"

lemma TrimSpace_padded: "token t \<Longrightarrow> TrimSpace (replicate pad blank @ t) = t"
proof -
  assume t: "token t"
  then obtain c cs where c: "t = c # cs" "token_byte c" by (cases t) (auto simp: token_def)
  have w: "space_width t = 0" using c by (simp add: token_byte_def text_simps)
  have l: "trim_left (replicate n blank @ t) = t" for n
  proof (induction n)
    case 0
    then show ?case by (simp add: trim_left.simps [of t] w)
  next
    case (Suc n)
    have "space_width (blank # replicate n blank @ t) = 1" by (simp add: text_simps is_space_rune_def)
    then show ?case using Suc by (subst trim_left.simps) simp
  qed
  have tb: "token_byte (t ! i)" if "i < length t" for i
    using t that by (simp add: token_def list_all_length)
  have sw: "space_width (drop i t) = 0" if "i < length t" for i
    using tb [OF that] that by (simp add: Cons_nth_drop_Suc [symmetric] token_byte_def text_simps)
  have "last_space t = 0"
    using sw [of "length t - 1"] sw [of "length t - 2"] sw [of "length t - 3"]
    by (auto simp: last_space_def Let_def c(1))
  then have "trim_right t = t" by (simp add: trim_right.simps [of t])
  then show ?thesis by (simp add: TrimSpace_def l)
qed

lemma net_lines_kernel:
  assumes "list_all net_line_ok ls"
  shows "net_lines (map net_line ls @ [[]]) s
     = Inr (fold (\<lambda>(pad, iface, vs) s. AList.update iface \<lparr>RxBytes = snd (vs ! 0), TxBytes = snd (vs ! 8)\<rparr> s) ls s)"
  using assms
proof (induction ls arbitrary: s)
  case Nil
  then show ?case by (simp add: Cut_def)
next
  case (Cons l ls)
  obtain pad iface vs where l: "l = (pad, iface, vs)" by (cases l)
  have ok: "token iface" "CHR '':'' \<notin> set iface" "16 \<le> length vs"
    using Cons.prems by (simp_all add: net_line_ok_def l)
  have cut: "Cut CHR '':'' (net_line l) = Some (replicate pad blank @ iface, columns (num_columns vs))"
    using ok(2) Cut_append [of "CHR '':''" "replicate pad blank @ iface" "columns (num_columns vs)"]
    by (simp add: net_line_def l)
  have nums: "ParseUint (map (\<lambda>(pad, v). show_nat (unat v)) vs ! 0) = Inr (snd (vs ! 0))"
    "ParseUint (map (\<lambda>(pad, v). show_nat (unat v)) vs ! 8) = Inr (snd (vs ! 8))"
    using ok(3) by (cases "vs = []"; simp add: nth_map split_beta ParseUint_show_nat)+
  show ?case using Cons ok
    by (simp add: cut [unfolded l] TrimSpace_padded Fields_columns nums Let_def l del: nth_map)
qed

lemma net_lines_header: "list_all header_line hs \<Longrightarrow> net_lines (hs @ rest) s = net_lines rest s"
  by (induction hs) (auto simp: header_line_def Cut_None)

lemma newline_not_in_net_line: "net_line_ok l \<Longrightarrow> newline \<notin> set (net_line l)"
  by (cases l) (auto simp: net_line_ok_def net_line_def)

definition net_entry :: "nat \<times> bytes \<times> (nat \<times> u64) list \<Rightarrow> bytes \<times> Counters" where
  "net_entry l = (case l of (pad, iface, vs) \<Rightarrow> (iface, \<lparr>RxBytes = snd (vs ! 0), TxBytes = snd (vs ! 8)\<rparr>))"

lemma fold_update_distinct:
  "distinct (map fst kv) \<Longrightarrow> map_of (fold (\<lambda>(k, v). AList.update k v) kv s) = map_of s ++ map_of kv"
proof (induction kv arbitrary: s)
  case (Cons e kv)
  obtain k v where e: "e = (k, v)" by (cases e)
  have "k \<notin> dom (map_of kv)" using Cons.prems by (simp add: e dom_map_of_conv_image_fst)
  then show ?case using Cons by (simp add: e update_conv' map_add_upd_left del: fun_upd_apply)
qed simp

lemma distinct_fold_update: "distinct (map fst s) \<Longrightarrow> distinct (map fst (fold (\<lambda>(k, v). AList.update k v) kv s))"
  by (induction kv arbitrary: s) (auto simp: distinct_update)

text \<open>
  The network parser reads a \<^verbatim>\<open>/proc/net/dev\<close> file correctly: past the header lines, every
  interface maps to its first and ninth column, also where the counter abuts the colon.
\<close>

theorem net_parse_reads_net_dev:
  assumes "list_all header_line hs" "list_all net_line_ok ls" "ls \<noteq> []" "distinct (map (fst \<circ> snd) ls)"
  shows "\<exists>s. net_Parse (text_file (hs @ map net_line ls)) = Inr s \<and> distinct (map fst s)
     \<and> map_of s = map_of (map net_entry ls)"
proof -
  have nn: "list_all (\<lambda>l. newline \<notin> set l) (hs @ map net_line ls)"
    using assms(1,2) by (auto simp: list_all_iff header_line_def newline_not_in_net_line)
  define s where "s = fold (\<lambda>(k, v). AList.update k v) (map net_entry ls) []"
  have s: "s = fold (\<lambda>(pad, iface, vs) s. AList.update iface \<lparr>RxBytes = snd (vs ! 0), TxBytes = snd (vs ! 8)\<rparr> s) ls []"
    unfolding s_def fold_map by (intro fold_cong) (auto simp: net_entry_def)
  have dk: "distinct (map fst (map net_entry ls))"
    using assms(4) by (simp add: net_entry_def comp_def split_beta)
  have m: "map_of s = map_of (map net_entry ls)" using fold_update_distinct [OF dk, of "[]"] by (simp add: s_def)
  have d: "distinct (map fst s)" unfolding s_def by (rule distinct_fold_update) simp
  have "s \<noteq> []"
  proof
    assume "s = []"
    then have "dom (map_of (map net_entry ls)) = {}" using m by simp
    then show False using assms(3) by (simp add: dom_map_of_conv_image_fst)
  qed
  moreover have "net_lines (Split newline (text_file (hs @ map net_line ls))) [] = Inr s"
    by (simp only: Split_text_file [OF nn] append_assoc net_lines_header [OF assms(1)]
        net_lines_kernel [OF assms(2)] s)
  ultimately show ?thesis using d m by (simp add: net_Parse_def)
qed

theorem net_parse_reads_net_dev_witness:
  "\<exists>s. net_Parse (text_file ([''face |bytes''] @ map net_line [(2, ''eth0'', replicate 16 (0, 7))])) = Inr s
     \<and> map_of s ''eth0'' = Some \<lparr>RxBytes = 7, TxBytes = 7\<rparr>"
proof -
  have h: "list_all header_line [''face |bytes'']" by (simp add: header_line_def)
  have l: "list_all net_line_ok [(2, ''eth0'', replicate 16 (0, 7))]"
    by (simp add: net_line_ok_def token_def token_byte_def is_space_rune_def in_range_def)
  show ?thesis using net_parse_reads_net_dev [OF h l] by (auto simp: net_entry_def)
qed

section \<open>Rates\<close>

text \<open>The interfaces both samples have, with how far each counter moved.\<close>

definition moved :: "net_Sample \<Rightarrow> net_Sample \<Rightarrow> (Counters \<times> Counters) list" where
  "moved prev now = concat (map (\<lambda>(iface, cur). case map_of prev iface of None \<Rightarrow> [] | Some old \<Rightarrow> [(old, cur)]) now)"

definition went_back :: "Counters \<times> Counters \<Rightarrow> bool" where
  "went_back p \<longleftrightarrow> RxBytes (snd p) < RxBytes (fst p) \<or> TxBytes (snd p) < TxBytes (fst p)"

lemma moved_simps [simp]:
  "moved prev [] = []"
  "moved prev ((iface, cur) # now) = (case map_of prev iface of None \<Rightarrow> [] | Some old \<Rightarrow> [(old, cur)]) @ moved prev now"
  by (simp_all add: moved_def)

lemma net_deltas_moved:
  "net_deltas prev now (rx, tx, n) =
     (if \<exists>p \<in> set (moved prev now). went_back p then None
      else Some (rx + sum_list (map (\<lambda>(old, cur). RxBytes cur - RxBytes old) (moved prev now)),
                 tx + sum_list (map (\<lambda>(old, cur). TxBytes cur - TxBytes old) (moved prev now)),
                 n + length (moved prev now)))"
proof (induction now arbitrary: rx tx n)
  case (Cons e now)
  obtain iface cur where e: "e = (iface, cur)" by (cases e)
  show ?case
  proof (cases "map_of prev iface")
    case None
    then show ?thesis using Cons.IH by (simp add: e)
  next
    case (Some old)
    then show ?thesis using Cons.IH by (auto simp: e went_back_def add.assoc)
  qed
qed simp

lemma moved_perm: "mset now = mset now' \<Longrightarrow> mset (moved prev now) = mset (moved prev now')"
proof -
  have "mset (moved prev ns) = \<Sum>\<^sub># (image_mset (\<lambda>(iface, cur). mset (case map_of prev iface of None \<Rightarrow> [] | Some old \<Rightarrow> [(old, cur)])) (mset ns))" for ns
    by (induction ns) auto
  then show "mset now = mset now' \<Longrightarrow> ?thesis" by simp
qed

lemma net_deltas_perm:
  assumes "mset now = mset now'"
  shows "net_deltas prev now acc = net_deltas prev now' acc"
proof -
  note m = moved_perm [OF assms, of prev]
  have "set (moved prev now) = set (moved prev now')" "length (moved prev now) = length (moved prev now')"
    using m by (auto dest: mset_eq_setD mset_eq_length)
  moreover have "sum_list (map f (moved prev now)) = sum_list (map f (moved prev now'))" for f :: "Counters \<times> Counters \<Rightarrow> u64"
    using m by (metis mset_map sum_mset_sum_list)
  ultimately show ?thesis by (cases acc) (simp add: net_deltas_moved)
qed

lemma seconds_of_ge:
  assumes "0 < d"
  shows "2 powi (- 30) \<le> seconds_of d"
proof -
  let ?s = "d div second" and ?n = "d mod second"
  have s: "0 \<le> ?s" "0 \<le> ?n" using assms by (simp_all add: pos_imp_zdiv_nonneg_iff)
  have n0: "0 \<le> of_i64 ?s" "0 \<le> fdiv (of_i64 ?n) 1000000000"
    using s by (simp_all add: of_i64_def fdiv_def binary64.nonneg)
  show ?thesis
  proof (cases "?s = 0")
    case False
    then have "1 \<le> of_i64 ?s" using s by (auto simp: of_i64_def intro!: binary64.ge_one)
    then have "1 \<le> seconds_of d" using n0(2) unfolding seconds_of_def fadd_def by (intro binary64.ge_one) simp
    moreover have "(2 :: rat) powi (- 30) \<le> 1" by (simp add: power_int_minus)
    ultimately show ?thesis by linarith
  next
    case True
    then have n: "?n = d" "1 \<le> ?n" "d < second" using assms by (auto simp: zdiv_eq_0_iff)
    have "of_i64 d = of_int d"
      using n(1,3) binary64.exact_nat [of "nat d"] assms by (simp add: of_i64_def)
    moreover have "(2 :: rat) powi (- 30) \<le> of_int d / 1000000000"
      using assms by (simp add: power_int_def field_simps)
    then have "(2 :: rat) powi (- 30) \<le> rnd (of_int d / 1000000000)"
      using rnd_mono [of "2 powi (- 30)" "of_int d / 1000000000"] by (simp only: rnd_powi)
    moreover have "seconds_of d = rnd (rnd (of_int d / 1000000000))"
      using True n(1) \<open>of_i64 d = of_int d\<close> by (simp add: seconds_of_def fadd_def fdiv_def of_i64_def)
    ultimately show ?thesis by (simp only: rnd_idem)
  qed
qed

lemma seconds_of_pos: "0 < d \<Longrightarrow> 0 < seconds_of d"
  using seconds_of_ge [of d] power_int_two_pos [of "- 30"] by linarith

text \<open>
  C36. A published rate is sound and does not depend on Go's map order: whatever the order in which
  the interfaces are visited, the result is the same; it is omitted exactly when no time passed, no
  interface is in both samples, or a counter of a shared interface went back; otherwise both rates
  are the summed differences over the elapsed seconds, and are not negative.
\<close>

theorem network_rates_correct:
  assumes "mset now = mset now'"
  shows "Rates prev now' elapsed = Rates prev now elapsed
     \<and> (Rates prev now elapsed = None \<longleftrightarrow>
          elapsed \<le> 0 \<or> moved prev now = [] \<or> (\<exists>p \<in> set (moved prev now). went_back p))
     \<and> (\<forall>rx tx. Rates prev now elapsed = Some (rx, tx) \<longrightarrow>
          rx = fdiv (of_u64 (sum_list (map (\<lambda>(old, cur). RxBytes cur - RxBytes old) (moved prev now)))) (seconds_of elapsed)
          \<and> tx = fdiv (of_u64 (sum_list (map (\<lambda>(old, cur). TxBytes cur - TxBytes old) (moved prev now)))) (seconds_of elapsed)
          \<and> 0 \<le> rx \<and> 0 \<le> tx)"
proof -
  have "Rates prev now' elapsed = Rates prev now elapsed"
    by (simp add: Rates_def net_deltas_perm [OF assms])
  moreover have "0 \<le> fdiv (of_u64 w) (seconds_of elapsed)" if "0 < elapsed" for w
    using seconds_of_pos [OF that] by (simp add: fdiv_def binary64.nonneg)
  ultimately show ?thesis by (auto simp: Rates_def net_deltas_moved Let_def split: if_splits)
qed

theorem network_rates_correct_witness:
  "Rates [(''eth0'', \<lparr>RxBytes = 5, TxBytes = 1\<rparr>), (''eth1'', \<lparr>RxBytes = 1, TxBytes = 1\<rparr>)]
      [(''eth1'', \<lparr>RxBytes = 2, TxBytes = 2\<rparr>), (''eth0'', \<lparr>RxBytes = 9, TxBytes = 1\<rparr>)] second
   = Rates [(''eth0'', \<lparr>RxBytes = 5, TxBytes = 1\<rparr>), (''eth1'', \<lparr>RxBytes = 1, TxBytes = 1\<rparr>)]
      [(''eth0'', \<lparr>RxBytes = 9, TxBytes = 1\<rparr>), (''eth1'', \<lparr>RxBytes = 2, TxBytes = 2\<rparr>)] second"
  using network_rates_correct [of "[(''eth0'', \<lparr>RxBytes = 9, TxBytes = 1\<rparr>), (''eth1'', \<lparr>RxBytes = 2, TxBytes = 2\<rparr>)]"
      "[(''eth1'', \<lparr>RxBytes = 2, TxBytes = 2\<rparr>), (''eth0'', \<lparr>RxBytes = 9, TxBytes = 1\<rparr>)]"
      "[(''eth0'', \<lparr>RxBytes = 5, TxBytes = 1\<rparr>), (''eth1'', \<lparr>RxBytes = 1, TxBytes = 1\<rparr>)]" second]
  by simp

end
