(* ===== verification/Resources.thy ===== *)
theory Resources
  imports Cpu Memory Network GoNumber RedisPublisher
begin

text \<open>
  \<^verbatim>\<open>src/resources/collector.go\<close> with the two small metric packages \<^verbatim>\<open>load\<close> and \<^verbatim>\<open>uptime\<close>: one event per
  tick, built from five files that fail independently, two of which are differenced against the
  last reading that succeeded.

  What a tick reads is an input: each file's content or an error, which interfaces have a device,
  the clock, and the formatted timestamp. The warnings are not kept.
\<close>

section \<open>Load and uptime\<close>

record load_Sample =
  One :: f64
  Five :: f64
  Fifteen :: f64

definition load_Parse :: "bytes \<Rightarrow> parse_error + load_Sample" where
  "load_Parse data =
     (case Fields data of
        a # b # c # _ \<Rightarrow>
          (case ParseFloat a of
             Inl err \<Rightarrow> Inl (BadNumber a err)
           | Inr one \<Rightarrow>
               (case ParseFloat b of
                  Inl err \<Rightarrow> Inl (BadNumber b err)
                | Inr five \<Rightarrow>
                    (case ParseFloat c of
                       Inl err \<Rightarrow> Inl (BadNumber c err)
                     | Inr fifteen \<Rightarrow> Inr \<lparr>One = one, Five = five, Fifteen = fifteen\<rparr>)))
      | fs \<Rightarrow> Inl (TooFewFields [] (length fs)))"

definition Averages :: "load_Sample \<Rightarrow> f64 \<times> f64 \<times> f64" where
  "Averages s = (One s, Five s, Fifteen s)"

definition uptime_Parse :: "bytes \<Rightarrow> parse_error + f64" where
  "uptime_Parse data =
     (case Fields data of
        [] \<Rightarrow> Inl ErrInvalid
      | field # _ \<Rightarrow> (case ParseFloat field of Inl err \<Rightarrow> Inl (BadNumber field err) | Inr s \<Rightarrow> Inr s))"

definition uptime_Seconds :: "f64 \<Rightarrow> int" where
  "uptime_Seconds s = f64_to_int64 s"

section \<open>The collector\<close>

record 'w Resources =
  rc_channel :: bytes
  rc_serverID :: bytes
  rc_interval :: duration
  rc_world :: 'w
  rc_prevCPU :: "cpu_Sample option"
  rc_prevNet :: "net_Sample option"
  rc_prevNetAt :: time

definition resources_New :: "bytes \<Rightarrow> bytes \<Rightarrow> duration \<Rightarrow> 'w \<Rightarrow> 'w Resources" where
  "resources_New channel serverID interval w =
     \<lparr>rc_channel = channel, rc_serverID = serverID, rc_interval = interval, rc_world = w,
      rc_prevCPU = None, rc_prevNet = None, rc_prevNetAt = 0\<rparr>"

type_synonym file_read = "bytes + bytes"

record tick_env =
  te_stamp :: bytes
  te_uptime :: file_read
  te_stat :: file_read
  te_loadavg :: file_read
  te_meminfo :: file_read
  te_netdev :: file_read
  te_takenAt :: time
  te_device :: "bytes \<Rightarrow> bool"

text \<open>Reading a file and parsing it, as one step that can fail.\<close>

definition read_parse :: "file_read \<Rightarrow> (bytes \<Rightarrow> parse_error + 'a) \<Rightarrow> 'a option" where
  "read_parse f parse =
     (case f of Inl _ \<Rightarrow> None | Inr data \<Rightarrow> (case parse data of Inl _ \<Rightarrow> None | Inr s \<Rightarrow> Some s))"

definition readUptime :: "tick_env \<Rightarrow> int option" where
  "readUptime e = map_option uptime_Seconds (read_parse (te_uptime e) uptime_Parse)"

definition addLoad :: "tick_env \<Rightarrow> CPUGroup \<Rightarrow> CPUGroup" where
  "addLoad e grp =
     (case read_parse (te_loadavg e) load_Parse of
        None \<Rightarrow> grp
      | Some sample \<Rightarrow>
          (case Averages sample of
             (one, five, fifteen) \<Rightarrow>
               grp\<lparr>cg_Load1 := Some one, cg_Load5 := Some five, cg_Load15 := Some fifteen\<rparr>))"

definition addCPUStat :: "tick_env \<Rightarrow> 'w Resources \<Rightarrow> CPUGroup \<Rightarrow> 'w Resources \<times> CPUGroup" where
  "addCPUStat e c grp =
     (case read_parse (te_stat e) cpu_Parse of
        None \<Rightarrow> (c, grp)
      | Some now \<Rightarrow>
          let grp = (case cpu_Count now of None \<Rightarrow> grp | Some n \<Rightarrow> grp\<lparr>cg_Count := Some n\<rparr>);
              prev = rc_prevCPU c;
              c = c\<lparr>rc_prevCPU := Some now\<rparr>
          in case prev of
               None \<Rightarrow> (c, grp)
             | Some p \<Rightarrow>
                 (case cpu_Percent p now of
                    None \<Rightarrow> (c, grp)
                  | Some pct \<Rightarrow> (c, grp\<lparr>cg_UsedPercent := Some pct\<rparr>)))"

definition empty_group :: CPUGroup where
  "empty_group = \<lparr>cg_Count = None, cg_UsedPercent = None, cg_Load1 = None, cg_Load5 = None, cg_Load15 = None\<rparr>"

definition cpuGroup :: "tick_env \<Rightarrow> 'w Resources \<Rightarrow> 'w Resources \<times> CPUGroup option" where
  "cpuGroup e c =
     (let (c, grp) = addCPUStat e c empty_group;
          grp = addLoad e grp
      in (c, if cg_Count grp = None \<and> cg_UsedPercent grp = None \<and> cg_Load1 grp = None
             then None else Some grp))"

definition memoryAndSwap :: "tick_env \<Rightarrow> MemoryGroup option \<times> SwapGroup option" where
  "memoryAndSwap e =
     (case read_parse (te_meminfo e) mem_Parse of
        None \<Rightarrow> (None, None)
      | Some sample \<Rightarrow>
          (map_option (\<lambda>u. \<lparr>mg_TotalBytes = mem_TotalBytes u, mg_UsedBytes = mem_UsedBytes u,
               mg_AvailableBytes = mem_AvailableBytes u, mg_UsedPercent = mem_UsedPercent u,
               mg_Estimated = mem_Estimated u\<rparr>) (mem_Memory sample),
           map_option (\<lambda>u. \<lparr>sg_TotalBytes = swap_TotalBytes u, sg_UsedBytes = swap_UsedBytes u,
               sg_UsedPercent = swap_UsedPercent u\<rparr>) (mem_Swap sample)))"

definition networkGroup :: "tick_env \<Rightarrow> 'w Resources \<Rightarrow> 'w Resources \<times> NetworkGroup option" where
  "networkGroup e c =
     (case read_parse (te_netdev e) net_Parse of
        None \<Rightarrow> (c, None)
      | Some sample \<Rightarrow>
          let now = KeepPhysical (te_device e) sample;
              prev = rc_prevNet c; prevAt = rc_prevNetAt c;
              c = c\<lparr>rc_prevNet := Some now, rc_prevNetAt := te_takenAt e\<rparr>
          in case prev of
               None \<Rightarrow> (c, None)
             | Some p \<Rightarrow>
                 (case Rates p now (time_sub (te_takenAt e) prevAt) of
                    None \<Rightarrow> (c, None)
                  | Some (rx, tx) \<Rightarrow> (c, Some \<lparr>ng_RxBytesPerSec = rx, ng_TxBytesPerSec = tx\<rparr>)))"

definition primeRates :: "tick_env \<Rightarrow> 'w Resources \<Rightarrow> 'w Resources" where
  "primeRates e c = fst (networkGroup e (fst (addCPUStat e c empty_group)))"

definition resources_event :: "tick_env \<Rightarrow> 'w Resources \<Rightarrow> 'w Resources \<times> ResourcesEvent" where
  "resources_event e c =
     (let (c1, cpu) = cpuGroup e c;
          (mem, swap) = memoryAndSwap e;
          (c2, net) = networkGroup e c1
      in (c2, \<lparr>re_ServerID = rc_serverID c, re_Timestamp = te_stamp e, re_UptimeSeconds = readUptime e,
               re_CPU = cpu, re_Memory = mem, re_Swap = swap, re_Network = net\<rparr>))"

definition resources_collect :: "'w publish \<Rightarrow> tick_env \<Rightarrow> 'w Resources \<Rightarrow> 'w Resources" where
  "resources_collect pb e c =
     (case resources_event e c of
        (c, event) \<Rightarrow>
          (case ResourcesEvent_json event of
             None \<Rightarrow> c
           | Some payload \<Rightarrow> c\<lparr>rc_world := fst (pb (rc_world c) (rc_channel c) [payload])\<rparr>))"

definition resources_Run ::
  "'w publish \<Rightarrow> duration option \<Rightarrow> tick_env \<Rightarrow> tick_env \<Rightarrow> tick_env select list \<Rightarrow> 'w Resources \<Rightarrow> 'w Resources" where
  "resources_Run pb cancelled prime first es c =
     run_ticks cancelled (rc_interval c) (resources_collect pb) first es (primeRates prime c)"

section \<open>What a tick keeps\<close>

lemma addCPUStat_state:
  "fst (addCPUStat e c g) = (case read_parse (te_stat e) cpu_Parse of None \<Rightarrow> c | Some now \<Rightarrow> c\<lparr>rc_prevCPU := Some now\<rparr>)"
  by (simp add: addCPUStat_def Let_def split: option.split)

lemma networkGroup_state:
  "fst (networkGroup e c) = (case read_parse (te_netdev e) net_Parse of None \<Rightarrow> c
     | Some s \<Rightarrow> c\<lparr>rc_prevNet := Some (KeepPhysical (te_device e) s), rc_prevNetAt := te_takenAt e\<rparr>)"
  by (simp add: networkGroup_def Let_def split: option.split)

lemma cpuGroup_state: "fst (cpuGroup e c) = fst (addCPUStat e c empty_group)"
  by (simp add: cpuGroup_def Let_def split_beta)

lemma resources_event_state: "fst (resources_event e c) = primeRates e c"
  by (simp add: resources_event_def primeRates_def Let_def split_beta cpuGroup_state)

lemma primeRates_simps [simp]:
  "rc_world (primeRates e c) = rc_world c" "rc_channel (primeRates e c) = rc_channel c"
  "rc_serverID (primeRates e c) = rc_serverID c" "rc_interval (primeRates e c) = rc_interval c"
  by (simp_all add: primeRates_def addCPUStat_state networkGroup_state split: option.split)

text \<open>The last reading that succeeded, over a sequence of ticks.\<close>

definition last_cpu :: "tick_env list \<Rightarrow> cpu_Sample option \<Rightarrow> cpu_Sample option" where
  "last_cpu es p = fold (\<lambda>e p. case read_parse (te_stat e) cpu_Parse of None \<Rightarrow> p | Some s \<Rightarrow> Some s) es p"

definition last_net :: "tick_env list \<Rightarrow> (net_Sample \<times> time) option \<Rightarrow> (net_Sample \<times> time) option" where
  "last_net es p = fold (\<lambda>e p. case read_parse (te_netdev e) net_Parse of None \<Rightarrow> p
     | Some s \<Rightarrow> Some (KeepPhysical (te_device e) s, te_takenAt e)) es p"

definition baseline_net :: "'w Resources \<Rightarrow> (net_Sample \<times> time) option" where
  "baseline_net c = map_option (\<lambda>s. (s, rc_prevNetAt c)) (rc_prevNet c)"

lemma primeRates_baseline:
  "rc_prevCPU (primeRates e c) = last_cpu [e] (rc_prevCPU c)"
  "baseline_net (primeRates e c) = last_net [e] (baseline_net c)"
  by (simp_all add: primeRates_def addCPUStat_state networkGroup_state last_cpu_def last_net_def
      baseline_net_def split: option.split)

lemma resources_collect_state:
  "rc_prevCPU (resources_collect pb e c) = rc_prevCPU (primeRates e c)"
  "baseline_net (resources_collect pb e c) = baseline_net (primeRates e c)"
  "rc_channel (resources_collect pb e c) = rc_channel c"
  "rc_serverID (resources_collect pb e c) = rc_serverID c"
  by (simp_all add: resources_collect_def split_beta resources_event_state baseline_net_def split: option.split)

lemma ticks_baseline:
  "rc_prevCPU (fold (resources_collect pb) es c) = last_cpu es (rc_prevCPU c)"
  "baseline_net (fold (resources_collect pb) es c) = last_net es (baseline_net c)"
  by (induction es arbitrary: c)
     (simp_all add: resources_collect_state primeRates_baseline last_cpu_def last_net_def)

lemma cpuGroup_percent:
  "(case snd (cpuGroup e c) of None \<Rightarrow> None | Some g \<Rightarrow> cg_UsedPercent g) =
     (case (rc_prevCPU c, read_parse (te_stat e) cpu_Parse) of
        (Some p, Some n) \<Rightarrow> cpu_Percent p n | _ \<Rightarrow> None)"
  by (auto simp: cpuGroup_def addCPUStat_def addLoad_def empty_group_def Let_def split_beta Averages_def
      split: option.split)

lemma networkGroup_rates:
  "snd (networkGroup e c) =
     (case (baseline_net c, read_parse (te_netdev e) net_Parse) of
        (Some (p, prevAt), Some n) \<Rightarrow>
          map_option (\<lambda>(rx, tx). \<lparr>ng_RxBytesPerSec = rx, ng_TxBytesPerSec = tx\<rparr>)
            (Rates p (KeepPhysical (te_device e) n) (time_sub (te_takenAt e) prevAt))
      | _ \<Rightarrow> None)"
  by (auto simp: networkGroup_def baseline_net_def Let_def split: option.split)

section \<open>Publishing\<close>

text \<open>A tick's event can be serialised unless the kernel's load figures are not finite numbers.\<close>

definition is_finite :: "f64 \<Rightarrow> bool" where
  "is_finite f \<longleftrightarrow> (\<exists>q. f = Fin q)"

definition loads_finite :: "tick_env \<Rightarrow> bool" where
  "loads_finite e \<longleftrightarrow>
     (case read_parse (te_loadavg e) load_Parse of
        None \<Rightarrow> True | Some s \<Rightarrow> is_finite (One s) \<and> is_finite (Five s) \<and> is_finite (Fifteen s))"

lemma addCPUStat_loads:
  "cg_Load1 (snd (addCPUStat e c empty_group)) = None" "cg_Load5 (snd (addCPUStat e c empty_group)) = None"
  "cg_Load15 (snd (addCPUStat e c empty_group)) = None"
  by (simp_all add: addCPUStat_def empty_group_def Let_def split: option.split)

lemma cpuGroup_loads:
  assumes "snd (cpuGroup e c) = Some g"
  shows "finite_load g \<longleftrightarrow> loads_finite e"
proof -
  have "g = addLoad e (snd (addCPUStat e c empty_group))"
    using assms by (simp add: cpuGroup_def Let_def split_beta split: if_splits)
  then show ?thesis
    by (cases "read_parse (te_loadavg e) load_Parse")
       (simp_all add: addLoad_def Averages_def addCPUStat_loads finite_load_def loads_finite_def is_finite_def conj_ac)
qed

lemma cpuGroup_None: "snd (cpuGroup e c) = None \<Longrightarrow> loads_finite e"
  by (auto simp: cpuGroup_def addLoad_def Let_def split_beta Averages_def loads_finite_def
      split: option.splits if_splits)

lemma event_serialises: "ResourcesEvent_json (snd (resources_event e c)) \<noteq> None \<longleftrightarrow> loads_finite e"
proof -
  have "re_CPU (snd (resources_event e c)) = snd (cpuGroup e c)"
    by (simp add: resources_event_def Let_def split_beta)
  then show ?thesis
    using cpuGroup_loads [of e c] cpuGroup_None [of e c] by (auto simp: ResourcesEvent_json_None)
qed

lemma ResourcesEvent_serverId:
  "ResourcesEvent_json ev = Some j \<Longrightarrow> obj_field j ''serverId'' = Some (JStr (re_ServerID ev))"
  by (auto simp: ResourcesEvent_json_def split: option.splits)

interpretation resources_ticks: ticking "resources_collect PublishBatch" "\<lambda>c. wire (rc_world c)"
  "\<lambda>c. (rc_channel c, rc_serverID c)" loads_finite
proof
  fix e and s :: "redis Resources"
  let ?c = "fst (resources_event e s)" and ?ev = "snd (resources_event e s)"
  have id: "re_ServerID ?ev = rc_serverID s" by (simp add: resources_event_def Let_def split_beta)
  show "\<exists>p. wire (rc_world (resources_collect PublishBatch e s)) = wire (rc_world s) @ [p]
      \<and> belongs (rc_channel s, rc_serverID s) p" if "loads_finite e"
  proof -
    obtain j where j: "ResourcesEvent_json ?ev = Some j" using event_serialises [of e s] \<open>loads_finite e\<close> by auto
    then have "belongs (rc_channel s, rc_serverID s) (rc_channel s, j)"
      using ResourcesEvent_serverId [OF j] id by (simp add: belongs_def)
    then show ?thesis
      by (intro exI [of _ "(rc_channel s, j)"]) (simp add: resources_collect_def split_beta j resources_event_state)
  qed
  show "wire (rc_world (resources_collect PublishBatch e s)) = wire (rc_world s)" if "\<not> loads_finite e"
    using event_serialises [of e s] that by (simp add: resources_collect_def split_beta resources_event_state)
  show "(rc_channel (resources_collect PublishBatch e s), rc_serverID (resources_collect PublishBatch e s))
      = (rc_channel s, rc_serverID s)" by (simp add: resources_collect_state)
qed

text \<open>
  The resources collector publishes one event a tick: after any run, what was sent is what was
  there before and one event for each tick that fired, on its channel and with its server id. An
  event is lost only in a tick where \<^verbatim>\<open>/proc/loadavg\<close> holds an infinity or NaN, which JSON cannot carry.
\<close>

theorem resources_one_event_per_tick:
  "\<exists>ps. wire (rc_world (resources_Run PublishBatch cancelled prime first es c)) = wire (rc_world c) @ ps
     \<and> length ps = length (filter loads_finite (run_fired cancelled (rc_interval c) first es))
     \<and> list_all (belongs (rc_channel c, rc_serverID c)) ps"
  using resources_ticks.run_published [of cancelled "rc_interval c" first es "primeRates prime c"]
  by (simp add: resources_Run_def)

text \<open>
  C17. Every published rate spans back to the last reading that worked: after any ticks, failed or not,
  the CPU percentage of the next event is the one between the latest earlier \<^verbatim>\<open>/proc/stat\<close> sample that
  could be read, the startup reading included, and this one; the network rates likewise, over the
  time between those two readings. With no earlier sample the figure is omitted.
\<close>

theorem resources_rates_span_last_good:
  "let c = fold (resources_collect pb) es (primeRates prime (resources_New ch sid iv w));
       event = snd (resources_event e c)
   in (case re_CPU event of None \<Rightarrow> None | Some g \<Rightarrow> cg_UsedPercent g) =
        (case (last_cpu (prime # es) None, read_parse (te_stat e) cpu_Parse) of
           (Some p, Some n) \<Rightarrow> cpu_Percent p n | _ \<Rightarrow> None)
      \<and> re_Network event =
        (case (last_net (prime # es) None, read_parse (te_netdev e) net_Parse) of
           (Some (p, prevAt), Some n) \<Rightarrow>
             map_option (\<lambda>(rx, tx). \<lparr>ng_RxBytesPerSec = rx, ng_TxBytesPerSec = tx\<rparr>)
               (Rates p (KeepPhysical (te_device e) n) (time_sub (te_takenAt e) prevAt))
         | _ \<Rightarrow> None)"
proof -
  let ?c = "fold (resources_collect pb) es (primeRates prime (resources_New ch sid iv w))"
  have "rc_prevCPU ?c = last_cpu (prime # es) None"
    by (simp add: ticks_baseline primeRates_baseline last_cpu_def resources_New_def)
  moreover have "baseline_net (resources_New ch sid iv w) = None"
    by (simp add: resources_New_def baseline_net_def)
  then have "baseline_net ?c = last_net (prime # es) None"
    by (simp add: ticks_baseline primeRates_baseline last_net_def)
  moreover have "baseline_net (fst (cpuGroup e ?c)) = baseline_net ?c"
    by (simp add: cpuGroup_state addCPUStat_state baseline_net_def split: option.split)
  ultimately show ?thesis
    using cpuGroup_percent [of e ?c] networkGroup_rates [of e "fst (cpuGroup e ?c)"]
    by (simp add: Let_def resources_event_def split_beta)
qed

end
