(* ===== verification/GoPath.thy ===== *)
theory GoPath
  imports GoText
begin

text \<open>
  The parts of Go's \<^verbatim>\<open>path/filepath\<close> that the program uses, on Unix: \<^verbatim>\<open>Clean\<close>, \<^verbatim>\<open>Match\<close> and \<^verbatim>\<open>Ext\<close>.
  \<^verbatim>\<open>Clean\<close> works on the stack of path components that Go keeps in its output buffer.
\<close>

abbreviation slash :: char where
  "slash \<equiv> CHR ''/''"

section \<open>Clean\<close>

definition clean_step :: "bool \<Rightarrow> bytes \<Rightarrow> bytes list \<Rightarrow> bytes list" where
  "clean_step rooted elem out =
     (if elem = [] \<or> elem = ''.'' then out
      else if elem = ''..''
        then (if out \<noteq> [] \<and> last out \<noteq> ''..'' then butlast out
              else if rooted then out else out @ [elem])
      else out @ [elem])"

definition clean_comps :: "bytes \<Rightarrow> bytes list" where
  "clean_comps path = fold (clean_step (HasPrefix path ''/'')) (Split slash path) []"

definition Clean :: "bytes \<Rightarrow> bytes" where
  "Clean path =
     (if HasPrefix path ''/'' then slash # Join slash (clean_comps path)
      else if clean_comps path = [] then ''.'' else Join slash (clean_comps path))"

section \<open>Match\<close>

datatype bad_pattern = ErrBadPattern

text \<open>The chunk up to the next star outside a class, and what follows it.\<close>

fun scan_from :: "bool \<Rightarrow> bytes \<Rightarrow> bytes \<times> bytes" where
  "scan_from inrange [] = ([], [])"
| "scan_from inrange (c # cs) =
     (if c = CHR 0x5C
      then (case cs of
              [] \<Rightarrow> ([c], [])
            | d # ds \<Rightarrow> let (chunk, rest) = scan_from inrange ds in (c # d # chunk, rest))
      else if c = CHR ''*'' \<and> \<not> inrange then ([], c # cs)
      else let (chunk, rest) = scan_from (if c = CHR ''['' then True else if c = CHR '']'' then False else inrange) cs
           in (c # chunk, rest))"

definition scanChunk :: "bytes \<Rightarrow> bool \<times> bytes \<times> bytes" where
  "scanChunk pattern =
     (pattern \<noteq> [] \<and> hd pattern = CHR ''*'',
      scan_from False (dropWhile (\<lambda>c. c = CHR ''*'') pattern))"

text \<open>One possibly escaped character of a class; a class has to go on after it.\<close>

definition getEsc :: "bytes \<Rightarrow> bad_pattern + nat \<times> bytes" where
  "getEsc chunk =
     (if chunk = [] \<or> hd chunk = CHR ''-'' \<or> hd chunk = CHR '']'' then Inl ErrBadPattern
      else let chunk = (if hd chunk = CHR 0x5C then tl chunk else chunk)
           in if chunk = [] then Inl ErrBadPattern
              else case DecodeRune chunk of
                (r, n) \<Rightarrow>
                  if (r = RuneError \<and> n = 1) \<or> drop n chunk = [] then Inl ErrBadPattern
                  else Inr (r, drop n chunk))"

lemma DecodeRune_width: "s \<noteq> [] \<Longrightarrow> 1 \<le> snd (DecodeRune s)"
  by (simp add: DecodeRune_def Let_def)

lemma getEsc_shorter: "getEsc chunk = Inr (r, chunk') \<Longrightarrow> length chunk' < length chunk"
  using DecodeRune_width [of chunk] DecodeRune_width [of "tl chunk"]
  by (cases chunk) (auto simp: getEsc_def Let_def split: if_splits prod.splits)

text \<open>
  The ranges of a class, with the rune to test: whether it matched, and the rest of the chunk.
\<close>

function class_ranges :: "nat \<Rightarrow> bytes \<Rightarrow> bool \<Rightarrow> nat \<Rightarrow> bad_pattern + bool \<times> bytes" where
  "class_ranges r chunk matched nrange =
     (if chunk \<noteq> [] \<and> hd chunk = CHR '']'' \<and> 0 < nrange then Inr (matched, tl chunk)
      else case getEsc chunk of
        Inl err \<Rightarrow> Inl err
      | Inr (lo, chunk') \<Rightarrow>
          if hd chunk' = CHR ''-''
          then (case getEsc (tl chunk') of
                  Inl err \<Rightarrow> Inl err
                | Inr (hi, chunk'') \<Rightarrow> class_ranges r chunk'' (matched \<or> (lo \<le> r \<and> r \<le> hi)) (Suc nrange))
          else class_ranges r chunk' (matched \<or> lo = r) (Suc nrange))"
  by pat_completeness auto
termination
proof (relation "measure (\<lambda>(r, chunk, matched, nrange). length chunk)", goal_cases)
  case (2 r chunk matched nrange p lo chunk' q hi chunk'')
  then have "length chunk'' < length (tl chunk')" "length chunk' < length chunk"
    using getEsc_shorter by metis+
  then show ?case by simp
qed (auto dest: getEsc_shorter)

declare class_ranges.simps [simp del]

lemma class_ranges_shorter:
  "class_ranges r chunk m n = Inr (m', rest) \<Longrightarrow> length rest < length chunk"
proof (induction r chunk m n rule: class_ranges.induct)
  case (1 r chunk m n)
  show ?case
  proof (cases "chunk \<noteq> [] \<and> hd chunk = CHR '']'' \<and> 0 < n")
    case True
    then show ?thesis using "1.prems" by (subst (asm) class_ranges.simps) (cases chunk; auto)
  next
    case False
    from "1.prems" False obtain lo c1 where g: "getEsc chunk = Inr (lo, c1)"
      by (subst (asm) class_ranges.simps) (auto split: sum.splits)
    note s1 = getEsc_shorter [OF g]
    show ?thesis
    proof (cases "hd c1 = CHR ''-''")
      case True
      from "1.prems" False g True obtain hi c2 where g2: "getEsc (tl c1) = Inr (hi, c2)"
        and r: "class_ranges r c2 (m \<or> (lo \<le> r \<and> r \<le> hi)) (Suc n) = Inr (m', rest)"
        by (subst (asm) class_ranges.simps) (auto split: sum.splits)
      show ?thesis using "1.IH"(1) [OF False g refl True g2 refl r] getEsc_shorter [OF g2] s1 by simp
    next
      case dash: False
      from "1.prems" False g dash have r: "class_ranges r c1 (m \<or> lo = r) (Suc n) = Inr (m', rest)"
        by (subst (asm) class_ranges.simps) auto
      show ?thesis using "1.IH"(2) [OF False g refl dash r] s1 by simp
    qed
  qed
qed

text \<open>
  \<^verbatim>\<open>matchChunk\<close>: after a mismatch the chunk is still read to the end, to find a syntax error, but
  the name no longer is.
\<close>

function matchChunk :: "bool \<Rightarrow> bytes \<Rightarrow> bytes \<Rightarrow> bad_pattern + bytes option" where
  "matchChunk failed0 chunk s =
     (if chunk = [] then Inr (if failed0 then None else Some s)
      else let failed = (failed0 \<or> s = []); c = hd chunk in
        if c = CHR ''[''
        then (let r = (if failed then 0 else fst (DecodeRune s));
                  s' = (if failed then s else drop (snd (DecodeRune s)) s);
                  body = tl chunk;
                  negated = (body \<noteq> [] \<and> hd body = CHR ''^'')
              in case class_ranges r (if negated then tl body else body) False 0 of
                   Inl err \<Rightarrow> Inl err
                 | Inr (matched, rest) \<Rightarrow> matchChunk (failed \<or> matched = negated) rest s')
        else if c = CHR ''?''
        then (if failed then matchChunk True (tl chunk) s
              else matchChunk (hd s = slash) (tl chunk) (drop (snd (DecodeRune s)) s))
        else (let lit = (if c = CHR 0x5C then tl chunk else chunk)
              in if lit = [] then Inl ErrBadPattern
                 else if failed then matchChunk True (tl lit) s
                 else matchChunk (hd lit \<noteq> hd s) (tl lit) (tl s)))"
  by pat_completeness auto
termination
proof (relation "measure (\<lambda>(failed, chunk, s). length chunk)", goal_cases)
  case (2 failed0 chunk s failed c r s' body negated p matched rest)
  from 2(9) have "length rest < length (if negated then tl body else body)"
    unfolding 2(10) [symmetric] by (rule class_ranges_shorter)
  then show ?case using 2(7) by (auto split: if_splits)
qed (auto simp: neq_Nil_conv split: if_splits)

declare matchChunk.simps [simp del]

text \<open>The search for a place after a star where the chunk matches; a star does not match a slash.\<close>

fun star_search :: "bytes \<Rightarrow> bool \<Rightarrow> bytes \<Rightarrow> bad_pattern + bytes option" where
  "star_search chunk final [] = Inr None"
| "star_search chunk final (c # cs) =
     (if c = slash then Inr None
      else case matchChunk False chunk cs of
        Inl err \<Rightarrow> Inl err
      | Inr (Some t) \<Rightarrow> if final \<and> t \<noteq> [] then star_search chunk final cs else Inr (Some t)
      | Inr None \<Rightarrow> star_search chunk final cs)"

lemma scan_from_length: "scan_from b p = (chunk, rest) \<Longrightarrow> length chunk + length rest = length p"
  by (induction b p arbitrary: chunk rest rule: scan_from.induct)
     (auto simp: Let_def split: if_splits list.splits prod.splits)

lemma scan_from_Nil: "scan_from False p = ([], rest) \<Longrightarrow> p \<noteq> [] \<Longrightarrow> hd p = CHR ''*''"
  by (cases p) (auto simp: Let_def split: if_splits list.splits prod.splits)

lemma scanChunk_shorter:
  assumes "scanChunk p = (star, chunk, rest)" "p \<noteq> []"
  shows "length rest < length p"
proof -
  let ?q = "dropWhile (\<lambda>c. c = CHR ''*'') p"
  have sc: "scan_from False ?q = (chunk, rest)" using assms(1) by (simp add: scanChunk_def)
  have len: "length chunk + length rest = length ?q" by (rule scan_from_length [OF sc])
  show ?thesis
  proof (cases "hd p = CHR ''*''")
    case True
    then have "length ?q < length p" using assms(2) length_dropWhile_le [of "\<lambda>c. c = CHR ''*''" "tl p"]
      by (cases p) simp_all
    then show ?thesis using len by simp
  next
    case False
    then have "?q = p" using assms(2) by (cases p) simp_all
    then have "chunk \<noteq> []" using sc False assms(2) scan_from_Nil by metis
    then show ?thesis using len \<open>?q = p\<close> by (cases chunk) simp_all
  qed
qed

text \<open>The check that the rest of the pattern is well formed, once the name cannot match any more.\<close>

function check_rest :: "bytes \<Rightarrow> bad_pattern + bool" where
  "check_rest pattern =
     (if pattern = [] then Inr False
      else case scanChunk pattern of
        (star, chunk, rest) \<Rightarrow>
          (case matchChunk False chunk [] of Inl err \<Rightarrow> Inl err | Inr _ \<Rightarrow> check_rest rest))"
  by pat_completeness auto
termination
  by (relation "measure length") (auto dest: scanChunk_shorter [OF sym])

declare check_rest.simps [simp del]

function Match :: "bytes \<Rightarrow> bytes \<Rightarrow> bad_pattern + bool" where
  "Match pattern name =
     (if pattern = [] then Inr (name = [])
      else case scanChunk pattern of
        (star, chunk, rest) \<Rightarrow>
          if star \<and> chunk = [] then Inr (slash \<notin> set name)
          else (case matchChunk False chunk name of
                  Inl err \<Rightarrow> Inl err
                | Inr m \<Rightarrow>
                    (case (case m of Some t \<Rightarrow> if t = [] \<or> rest \<noteq> [] then Some t else None | None \<Rightarrow> None) of
                       Some t \<Rightarrow> Match rest t
                     | None \<Rightarrow>
                         (case (if star then star_search chunk (rest = []) name else Inr None) of
                            Inl err \<Rightarrow> Inl err
                          | Inr (Some t) \<Rightarrow> Match rest t
                          | Inr None \<Rightarrow> check_rest rest))))"
  by pat_completeness auto
termination
  by (relation "measure (\<lambda>(pattern, name). length pattern)") (auto dest: scanChunk_shorter [OF sym])

declare Match.simps [simp del]

text \<open>\<^verbatim>\<open>filepath.Ext\<close>: from the last dot of the last path element.\<close>

definition Ext :: "bytes \<Rightarrow> bytes" where
  "Ext path =
     (let base = last (Split slash path)
      in if CHR ''.'' \<in> set base then CHR ''.'' # last (Split CHR ''.'' base) else [])"

section \<open>Syntax errors do not depend on the name\<close>

lemma class_ranges_name:
  "(class_ranges r chunk m n = Inl ErrBadPattern \<and> class_ranges r' chunk m' n = Inl ErrBadPattern)
   \<or> (\<exists>x y rest. class_ranges r chunk m n = Inr (x, rest) \<and> class_ranges r' chunk m' n = Inr (y, rest))"
proof (induction r chunk m n arbitrary: m' rule: class_ranges.induct)
  case (1 r chunk m n)
  show ?case
  proof (cases "chunk \<noteq> [] \<and> hd chunk = CHR '']'' \<and> 0 < n")
    case True
    then show ?thesis by (subst (1 2 3 4) class_ranges.simps) simp
  next
    case close: False
    show ?thesis
    proof (cases "getEsc chunk")
      case (Inl e)
      then show ?thesis using close by (subst (1 2 3 4) class_ranges.simps) (cases e, auto)
    next
      case (Inr p)
      obtain lo c1 where p: "p = (lo, c1)" by (cases p)
      show ?thesis
      proof (cases "hd c1 = CHR ''-''")
        case dash: True
        show ?thesis
        proof (cases "getEsc (tl c1)")
          case (Inl e)
          then show ?thesis using close Inr p dash
            by (subst (1 2 3 4) class_ranges.simps) (cases e, auto)
        next
          case q: (Inr q)
          obtain hi c2 where q2: "q = (hi, c2)" by (cases q)
          show ?thesis
            using "1.IH"(1) [OF close Inr p [symmetric] dash q q2 [symmetric], of "m' \<or> (lo \<le> r' \<and> r' \<le> hi)"]
              close Inr p dash q q2
            by (subst (1 2 3 4) class_ranges.simps) auto
        qed
      next
        case dash: False
        show ?thesis
          using "1.IH"(2) [OF close Inr p [symmetric] dash, of "m' \<or> lo = r'"] close Inr p dash
          by (subst (1 2 3 4) class_ranges.simps) auto
      qed
    qed
  qed
qed

lemma matchChunk_name: "is_ok (matchChunk f chunk s) \<longleftrightarrow> is_ok (matchChunk f' chunk s')"
proof (induction "length chunk" arbitrary: chunk f f' s s' rule: less_induct)
  case less
  show ?case
  proof (cases chunk)
    case Nil
    then show ?thesis by (subst (1 2) matchChunk.simps) simp
  next
    case (Cons c cs)
    have IH: "is_ok (matchChunk g rest u) \<longleftrightarrow> is_ok (matchChunk g' rest u')"
      if "length rest \<le> length cs" for rest g g' u u'
      by (rule less) (use that Cons in simp)
    define b where "b = is_ok (matchChunk True cs [])"
    have b: "is_ok (matchChunk g cs u) = b" for g u unfolding b_def by (rule IH) simp
    define b' where "b' = is_ok (matchChunk True (tl cs) [])"
    have b': "is_ok (matchChunk g (tl cs) u) = b'" for g u unfolding b'_def by (rule IH) simp
    consider "c = CHR ''[''" | "c = CHR ''?''" | "c \<noteq> CHR ''[''" "c \<noteq> CHR ''?''" by blast
    then show ?thesis
    proof cases
      case 1
      let ?body = "if cs \<noteq> [] \<and> hd cs = CHR ''^'' then tl cs else cs"
      let ?r = "\<lambda>f s. if f \<or> s = [] then 0 else fst (DecodeRune s)"
      have unf: "matchChunk g chunk u = (case class_ranges (?r g u) ?body False 0 of Inl err \<Rightarrow> Inl err
          | Inr (m, rest) \<Rightarrow> matchChunk ((g \<or> u = []) \<or> m = (cs \<noteq> [] \<and> hd cs = CHR ''^'')) rest
              (if g \<or> u = [] then u else drop (snd (DecodeRune u)) u))" for g u
        by (subst matchChunk.simps) (simp add: Cons 1 Let_def)
      from class_ranges_name [of "?r f s" ?body False 0 "?r f' s'" False]
      show ?thesis
      proof (elim disjE exE conjE)
        fix x y rest
        assume x: "class_ranges (?r f s) ?body False 0 = Inr (x, rest)"
          and y: "class_ranges (?r f' s') ?body False 0 = Inr (y, rest)"
        have "length rest \<le> length cs"
          using class_ranges_shorter [OF x] by (auto split: if_splits)
        from IH [OF this] show ?thesis by (simp only: unf x y sum.case prod.case)
      qed (simp only: unf sum.case)
    next
      case 2
      then show ?thesis
        by (subst (1 2) matchChunk.simps) (simp add: Cons Let_def b)
    next
      case 3
      then show ?thesis
        by (subst (1 2) matchChunk.simps) (simp add: Cons Let_def b b')
    qed
  qed
qed

text \<open>A pattern is well formed when every chunk is.\<close>

abbreviation well_formed :: "bytes \<Rightarrow> bool" where
  "well_formed pattern \<equiv> is_ok (check_rest pattern)"

lemma is_ok_matchChunk: "is_ok (matchChunk False chunk s) \<longleftrightarrow> is_ok (matchChunk False chunk [])"
  by (rule matchChunk_name)

lemma star_search_ok:
  "is_ok (matchChunk False chunk []) \<Longrightarrow> is_ok (star_search chunk final s)"
proof (induction s)
  case (Cons c cs)
  then show ?case using is_ok_matchChunk [of chunk cs] by (auto split: sum.splits option.splits)
qed simp

lemma Match_well_formed: "is_ok (Match pattern name) \<longleftrightarrow> well_formed pattern"
proof (induction pattern name rule: Match.induct)
  case (1 pattern name)
  show ?case
  proof (cases "pattern = []")
    case True
    then show ?thesis by (simp add: Match.simps check_rest.simps)
  next
    case ne: False
    obtain star chunk rest where sc: "scanChunk pattern = (star, chunk, rest)" by (metis prod_cases3)
    have unf: "well_formed pattern \<longleftrightarrow> is_ok (matchChunk False chunk []) \<and> well_formed rest"
      using ne by (cases "matchChunk False chunk []"; subst check_rest.simps; simp add: sc)
    show ?thesis
    proof (cases "star \<and> chunk = []")
      case True
      then have "rest = []"
        using sc scan_from_Nil [of "dropWhile (\<lambda>c. c = CHR ''*'') pattern" rest]
          hd_dropWhile [of "\<lambda>c. c = CHR ''*''" pattern]
        by (cases "dropWhile (\<lambda>c. c = CHR ''*'') pattern = []") (auto simp: scanChunk_def)
      then show ?thesis using True ne sc unf
        by (simp add: Match.simps [of pattern] matchChunk.simps check_rest.simps)
    next
      case False
      show ?thesis
      proof (cases "matchChunk False chunk name")
        case (Inl e)
        then show ?thesis using is_ok_matchChunk [of chunk name] unf ne sc False
          by (simp add: Match.simps [of pattern])
      next
        case (Inr m)
        then have ok: "is_ok (matchChunk False chunk [])" using is_ok_matchChunk [of chunk name] by simp
        let ?m = "case m of Some t \<Rightarrow> if t = [] \<or> rest \<noteq> [] then Some t else None | None \<Rightarrow> None"
        let ?s = "if star then star_search chunk (rest = []) name else Inr None"
        have s_ok: "is_ok ?s" using star_search_ok [OF ok] by simp
        have M: "Match pattern name = (case ?m of Some t \<Rightarrow> Match rest t
            | None \<Rightarrow> (case ?s of Inl err \<Rightarrow> Inl err | Inr (Some t) \<Rightarrow> Match rest t | Inr None \<Rightarrow> check_rest rest))"
          by (subst Match.simps) (use ne sc False Inr in simp)
        show ?thesis
        proof (cases ?m)
          case (Some t)
          then show ?thesis using "1.IH"(2) [OF ne sc [symmetric] refl False Inr Some] unf ok M by simp
        next
          case None
          then obtain x where x: "?s = Inr x" using s_ok by (cases ?s) auto
          show ?thesis
          proof (cases x)
            case (Some t)
            then show ?thesis using "1.IH"(1) [OF ne sc [symmetric] refl False Inr None x Some] unf ok M None x by simp
          next
            case x0: None
            then show ?thesis using unf ok M None x by simp
          qed
        qed
      qed
    qed
  qed
qed

section \<open>Literals and one star\<close>

definition literal :: "bytes \<Rightarrow> bool" where
  "literal p \<longleftrightarrow> list_all (\<lambda>c. c \<notin> {CHR ''*'', CHR ''?'', CHR ''['', CHR 0x5C}) p"

lemma literal_simps [simp]:
  "literal []" "literal (c # p) \<longleftrightarrow> c \<noteq> CHR ''*'' \<and> c \<noteq> CHR ''?'' \<and> c \<noteq> CHR ''['' \<and> c \<noteq> CHR 0x5C \<and> literal p"
  by (simp_all add: literal_def)

lemma matchChunk_failed_literal: "literal p \<Longrightarrow> matchChunk True p s = Inr None"
  by (induction p) (simp_all add: matchChunk.simps Let_def)

lemma matchChunk_literal:
  "literal p \<Longrightarrow> matchChunk False p s = Inr (if HasPrefix s p then Some (drop (length p) s) else None)"
proof (induction p arbitrary: s)
  case (Cons c p)
  show ?case
  proof (cases s)
    case Nil
    then show ?thesis using Cons.prems
      by (simp add: matchChunk.simps [of False "c # p"] Let_def matchChunk_failed_literal HasPrefix_def)
  next
    case s: (Cons d ds)
    then have "matchChunk False (c # p) s = matchChunk (c \<noteq> d) p ds"
      using Cons.prems by (subst matchChunk.simps) (simp add: Let_def)
    then show ?thesis using Cons
      by (cases "c = d") (simp_all add: s matchChunk_failed_literal HasPrefix_def)
  qed
qed (simp add: matchChunk.simps HasPrefix_def)

lemma scan_from_literal:
  "literal p \<Longrightarrow> rest = [] \<or> hd rest = CHR ''*'' \<Longrightarrow> scan_from False (p @ rest) = (p, rest)"
proof (induction p)
  case Nil
  then show ?case by (cases rest) auto
qed auto

lemma scanChunk_literal:
  assumes "literal p" "p \<noteq> []" "rest = [] \<or> hd rest = CHR ''*''"
  shows "scanChunk (p @ rest) = (False, p, rest)" "scanChunk (CHR ''*'' # p @ rest) = (True, p, rest)"
proof -
  obtain c q where p: "p = c # q" using assms(2) by (cases p) auto
  have c: "c \<noteq> CHR ''*''" using assms(1) p by simp
  show "scanChunk (p @ rest) = (False, p, rest)" "scanChunk (CHR ''*'' # p @ rest) = (True, p, rest)"
    using c scan_from_literal [OF assms(1,3)] by (simp_all add: scanChunk_def p)
qed

lemma check_rest_False: "well_formed p \<Longrightarrow> check_rest p = Inr False"
  by (induction p rule: check_rest.induct)
     (subst check_rest.simps, subst (asm) (2) check_rest.simps, auto split: if_splits prod.splits sum.splits)

lemma Match_Nil: "Match [] name = Inr (name = [])"
  by (simp add: Match.simps)

lemma star_search_literal:
  assumes "literal b"
  shows "star_search b True t = Inr (if \<exists>x. x \<noteq> [] \<and> t = x @ b \<and> slash \<notin> set x then Some [] else None)"
proof (induction t)
  case (Cons c cs)
  have split: "(\<exists>x. x \<noteq> [] \<and> c # cs = x @ b \<and> slash \<notin> set x)
      \<longleftrightarrow> c \<noteq> slash \<and> (cs = b \<or> (\<exists>x. x \<noteq> [] \<and> cs = x @ b \<and> slash \<notin> set x))"
    by (auto simp: Cons_eq_append_conv)
  have pre: "HasPrefix cs b \<and> drop (length b) cs = [] \<longleftrightarrow> cs = b"
    by (auto simp: HasPrefix_def)
  show ?case using Cons.IH pre by (auto simp: split matchChunk_literal [OF assms])
qed (use assms in simp)

lemma Match_star_literal:
  assumes "literal b"
  shows "Match (CHR ''*'' # b) t = Inr (\<exists>x. t = x @ b \<and> slash \<notin> set x)"
proof (cases "b = []")
  case True
  have "scanChunk ''*'' = (True, [], [])" by (simp add: scanChunk_def)
  then show ?thesis using True by (simp add: Match.simps)
next
  case False
  have sc: "scanChunk (CHR ''*'' # b) = (True, b, [])" using scanChunk_literal(2) [OF assms False, of "[]"] by simp
  have here: "HasPrefix t b \<and> drop (length b) t = [] \<longleftrightarrow> t = b" by (auto simp: HasPrefix_def)
  have some: "(\<exists>x. t = x @ b \<and> slash \<notin> set x) \<longleftrightarrow> t = b \<or> (\<exists>x. x \<noteq> [] \<and> t = x @ b \<and> slash \<notin> set x)"
    by (metis append_Nil empty_iff list.set(1))
  show ?thesis
    using False here some
    by (auto simp: Match.simps [of "CHR ''*'' # b"] sc matchChunk_literal [OF assms] star_search_literal [OF assms]
        Match_Nil check_rest.simps [of "[]"])
qed

text \<open>
  A literal pattern matches itself only, and one star stands for any run of bytes without a slash.
\<close>

lemma Match_literal: "literal p \<Longrightarrow> Match p name = Inr (name = p)"
proof (cases "p = []")
  case False
  assume lit: "literal p"
  have "HasPrefix name p \<and> drop (length p) name = [] \<longleftrightarrow> name = p" by (auto simp: HasPrefix_def)
  then show ?thesis
    using scanChunk_literal(1) [OF lit False, of "[]"] False
    by (auto simp: Match.simps [of p] matchChunk_literal [OF lit] Match_Nil check_rest.simps [of "[]"])
qed (simp add: Match_Nil)

lemma Match_one_star:
  assumes "literal a" "literal b"
  shows "Match (a @ CHR ''*'' # b) name = Inr (\<exists>x. name = a @ x @ b \<and> slash \<notin> set x)"
proof (cases "a = []")
  case True
  then show ?thesis by (simp add: Match_star_literal [OF assms(2)])
next
  case False
  have sc: "scanChunk (a @ CHR ''*'' # b) = (False, a, CHR ''*'' # b)"
    by (rule scanChunk_literal(1)) (use assms False in simp_all)
  have wf: "check_rest (CHR ''*'' # b) = Inr False"
    using Match_well_formed [of "CHR ''*'' # b" "[]"] by (intro check_rest_False) (simp add: Match_star_literal [OF assms(2)])
  show ?thesis
  proof (cases "HasPrefix name a")
    case True
    then obtain t where t: "name = a @ t" by (rule HasPrefixE)
    show ?thesis
      using False by (simp add: Match.simps [of "a @ CHR ''*'' # b"] sc matchChunk_literal [OF assms(1)] t
          Match_star_literal [OF assms(2)])
  next
    case no: False
    then have "\<nexists>x. name = a @ x @ b \<and> slash \<notin> set x" by (auto simp: HasPrefix_def)
    then show ?thesis
      using False no by (simp add: Match.simps [of "a @ CHR ''*'' # b"] sc matchChunk_literal [OF assms(1)] wf)
  qed
qed

end
