(* ===== verification/Mounts.thy ===== *)
theory Mounts
  imports GoPath Procfs "HOL-Library.AList" "HOL-Library.Multiset"
begin

text \<open>
  \<^verbatim>\<open>src/storage/mounts\<close>: the mount table, which filesystem a path lives on, the mount points a pattern
  matches, and the local filesystems that make up the server's storage. The table is in file order; the
  map \<^verbatim>\<open>byPath\<close> is an association list without repeated keys.
\<close>

abbreviation backslash :: char where
  "backslash \<equiv> CHR 0x5C"

record Entry =
  en_Device :: bytes
  en_Path :: bytes
  en_FSType :: bytes

definition isOctal :: "char \<Rightarrow> bool" where
  "isOctal c \<longleftrightarrow> in_range 48 55 (byte_nat c)"

definition octal_byte :: "char \<Rightarrow> char \<Rightarrow> char \<Rightarrow> char" where
  "octal_byte a b c = char_of (((byte_nat a - 48) * 64 + (byte_nat b - 48) * 8 + (byte_nat c - 48)) mod 256)"

fun unescape_from :: "bytes \<Rightarrow> bytes" where
  "unescape_from (c # a # b # d # rest) =
     (if c = backslash \<and> isOctal a \<and> isOctal b \<and> isOctal d then octal_byte a b d # unescape_from rest
      else c # unescape_from (a # b # d # rest))"
| "unescape_from (c # rest) = c # unescape_from rest"
| "unescape_from [] = []"

definition unescape :: "bytes \<Rightarrow> bytes" where
  "unescape s = (if backslash \<notin> set s then s else unescape_from s)"

definition mounts_Parse :: "bytes \<Rightarrow> Entry list" where
  "mounts_Parse data =
     concat (map (\<lambda>line.
       (case Fields line of
          device # path # fstype # _ \<Rightarrow>
            [\<lparr>en_Device = unescape device, en_Path = unescape path, en_FSType = fstype\<rparr>]
        | _ \<Rightarrow> [])) (Split newline data))"

definition localTypes :: "bytes list" where
  "localTypes = [''ext2'', ''ext3'', ''ext4'', ''xfs'', ''btrfs'', ''vfat'']"

definition IsLocal :: "bytes \<Rightarrow> bool" where
  "IsLocal fsType \<longleftrightarrow> fsType \<in> set localTypes"

definition HasWildcard :: "bytes \<Rightarrow> bool" where
  "HasWildcard path = ContainsAny path ''*?[''"

definition match_step :: "bytes \<Rightarrow> Entry \<Rightarrow> (bytes \<times> Entry) list \<Rightarrow> (bytes \<times> Entry) list" where
  "match_step pattern e byPath =
     (let path = Clean (en_Path e)
      in case Match pattern path of
           Inr True \<Rightarrow> AList.update path (e\<lparr>en_Path := path\<rparr>) byPath
         | _ \<Rightarrow> byPath)"

definition mounts_Match :: "Entry list \<Rightarrow> bytes \<Rightarrow> Entry list" where
  "mounts_Match entries pattern =
     (let byPath = fold (match_step (Clean pattern)) entries [];
          matches = filter (\<lambda>e. en_FSType e \<noteq> ''autofs'') (map snd byPath)
      in sort_key en_Path matches)"

definition contains :: "bytes \<Rightarrow> bytes \<Rightarrow> bool" where
  "contains mnt0 path =
     (let mnt = Clean mnt0
      in if mnt = ''/'' then HasPrefix path ''/'' else path = mnt \<or> HasPrefix path (mnt @ ''/''))"

definition find_step :: "bytes \<Rightarrow> Entry \<Rightarrow> Entry option \<Rightarrow> Entry option" where
  "find_step path e best =
     (if \<not> contains (en_Path e) path then best
      else case best of
        None \<Rightarrow> Some e
      | Some b \<Rightarrow> if length (en_Path b) \<le> length (en_Path e) then Some e else Some b)"

definition Find :: "Entry list \<Rightarrow> bytes \<Rightarrow> Entry option" where
  "Find entries path = fold (find_step (Clean path)) entries None"

fun unique_devices :: "bytes set \<Rightarrow> Entry list \<Rightarrow> Entry list" where
  "unique_devices seen [] = []"
| "unique_devices seen (e # es) =
     (if en_Device e \<in> seen then unique_devices seen es
      else e # unique_devices (insert (en_Device e) seen) es)"

definition is_server_disk :: "Entry \<Rightarrow> bool" where
  "is_server_disk e \<longleftrightarrow> IsLocal (en_FSType e) \<and> \<not> HasPrefix (en_Device e) ''/dev/loop''"

definition LocalFilesystems :: "Entry list \<Rightarrow> Entry list" where
  "LocalFilesystems entries =
     unique_devices {} (sort_key (\<lambda>e. length (en_Path e)) (filter is_server_disk entries))"

section \<open>Escapes\<close>

definition octal_escape :: "char \<Rightarrow> bytes" where
  "octal_escape c = [backslash, char_of (48 + byte_nat c div 64), char_of (48 + byte_nat c div 8 mod 8),
     char_of (48 + byte_nat c mod 8)]"

text \<open>How the kernel writes a name: the bytes of \<open>E\<close> in octal.\<close>

definition kernel_escape :: "char set \<Rightarrow> bytes \<Rightarrow> bytes" where
  "kernel_escape E s = concat (map (\<lambda>c. if c \<in> E then octal_escape c else [c]) s)"

lemma octal_digit:
  assumes "d < 8"
  shows "isOctal (char_of (48 + d))" "byte_nat (char_of (48 + d)) = 48 + d"
  using assms by (simp_all add: isOctal_def in_range_def)

lemma octal_digits_small: "byte_nat c div 64 < 8" "byte_nat c div 8 mod 8 < 8" "byte_nat c mod 8 < 8"
proof -
  have n: "byte_nat c < (256 :: nat)" by simp
  then have "byte_nat c < (8 :: nat) * 64" by linarith
  then show "byte_nat c div 64 < 8" by (rule less_mult_imp_div_less)
qed simp_all

lemma octal_byte_escape:
  "octal_byte (char_of (48 + byte_nat c div 64)) (char_of (48 + byte_nat c div 8 mod 8)) (char_of (48 + byte_nat c mod 8)) = c"
proof -
  let ?n = "byte_nat c"
  have n: "?n < 256" by simp
  note d = octal_digits_small [of c]
  have "q * 64 + r * 8 + s = n" if "m * 8 + s = n" "q * 8 + r = m" for q r s m n :: nat
    using that by linarith
  moreover have "?n div 64 * 8 + ?n div 8 mod 8 = ?n div 8"
    using div_mult_mod_eq [of "?n div 8" 8] div_mult2_eq [of ?n 8 8] by simp
  ultimately have "?n div 64 * 64 + ?n div 8 mod 8 * 8 + ?n mod 8 = ?n" using div_mult_mod_eq [of ?n 8] by blast
  then show ?thesis using n octal_digit(2) [OF d(1)] octal_digit(2) [OF d(2)] octal_digit(2) [OF d(3)]
    by (simp add: octal_byte_def)
qed

lemma unescape_from_no_escape: "c \<noteq> backslash \<Longrightarrow> unescape_from (c # s) = c # unescape_from s"
  by (cases s rule: unescape_from.cases) auto

lemma unescape_from_escape: "unescape_from (octal_escape c @ s) = c # unescape_from s"
proof -
  note d = octal_digits_small [of c]
  show ?thesis using octal_digit(1) [OF d(1)] octal_digit(1) [OF d(2)] octal_digit(1) [OF d(3)]
    by (simp add: octal_escape_def octal_byte_escape)
qed

lemma unescape_plain: "backslash \<notin> set s \<Longrightarrow> unescape_from s = s"
  by (induction s) (auto simp: unescape_from_no_escape)

lemma unescape_eq: "unescape s = unescape_from s"
  by (simp add: unescape_def unescape_plain)

lemma unescape_kernel_escape: "backslash \<in> E \<Longrightarrow> unescape (kernel_escape E s) = s"
proof -
  assume E: "backslash \<in> E"
  have "unescape_from (kernel_escape E s) = s"
  proof (induction s)
    case (Cons c s)
    have "kernel_escape E (c # s) = (if c \<in> E then octal_escape c else [c]) @ kernel_escape E s"
      by (simp add: kernel_escape_def)
    moreover have "c \<noteq> backslash" if "c \<notin> E" using that E by auto
    ultimately show ?case using Cons by (simp add: unescape_from_escape unescape_from_no_escape)
  qed (simp add: kernel_escape_def)
  then show ?thesis by (simp add: unescape_eq)
qed

section \<open>The mount table\<close>

text \<open>The four bytes the kernel escapes, and the names it then writes as one token.\<close>

definition mount_escapes :: "char set" where
  "mount_escapes = {blank, CHR 0x09, newline, backslash}"

definition mount_name :: "bytes \<Rightarrow> bool" where
  "mount_name s \<longleftrightarrow> s \<noteq> [] \<and> list_all (\<lambda>c. c \<in> mount_escapes \<or> token_byte c) s"

lemma octal_digit_token: "d < (8 :: nat) \<Longrightarrow> token_byte (char_of (48 + d))"
  by (auto simp: token_byte_def is_space_rune_def in_range_def)

lemma kernel_escape_token: "mount_name s \<Longrightarrow> token (kernel_escape mount_escapes s)"
proof -
  have b: "token_byte backslash" by (simp add: token_byte_def is_space_rune_def in_range_def)
  have e: "list_all token_byte (octal_escape c)" for c
    using b octal_digits_small [of c] by (simp add: octal_escape_def octal_digit_token)
  have "list_all (\<lambda>c. c \<in> mount_escapes \<or> token_byte c) s \<Longrightarrow> list_all token_byte (kernel_escape mount_escapes s)"
    by (induction s) (auto simp: kernel_escape_def e)
  moreover have "s \<noteq> [] \<Longrightarrow> kernel_escape mount_escapes s \<noteq> []"
    by (cases s) (simp_all add: kernel_escape_def octal_escape_def)
  ultimately show "mount_name s \<Longrightarrow> ?thesis" by (simp add: token_def mount_name_def)
qed

definition mount_line :: "Entry \<times> (nat \<times> bytes) list \<Rightarrow> bytes" where
  "mount_line l = (case l of (e, opts) \<Rightarrow>
     kernel_escape mount_escapes (en_Device e)
       @ columns ((0, kernel_escape mount_escapes (en_Path e)) # (0, en_FSType e) # opts))"

definition mount_line_ok :: "Entry \<times> (nat \<times> bytes) list \<Rightarrow> bool" where
  "mount_line_ok l = (case l of (e, opts) \<Rightarrow> mount_name (en_Device e) \<and> mount_name (en_Path e)
     \<and> token (en_FSType e) \<and> list_all (token \<circ> snd) opts)"

lemma Fields_mount_line:
  assumes "mount_line_ok (e, opts)"
  shows "Fields (mount_line (e, opts)) = kernel_escape mount_escapes (en_Device e)
     # kernel_escape mount_escapes (en_Path e) # en_FSType e # map snd opts"
    and "newline \<notin> set (mount_line (e, opts))"
  using assms kernel_escape_token
  by (simp_all add: mount_line_def mount_line_ok_def Fields_token_columns del: columns_simps)

text \<open>
  C32. Reading the mount table inverts how the kernel writes it: for any entries, with names that may
  contain blanks, tabs, line breaks and backslashes, parsing the file the kernel writes gives back exactly
  those entries, in order.
\<close>

theorem mounts_parse_inverts_kernel:
  assumes "list_all mount_line_ok ls"
  shows "mounts_Parse (text_file (map mount_line ls)) = map fst ls"
proof -
  have nn: "list_all (\<lambda>l. newline \<notin> set l) (map mount_line ls)"
    using assms Fields_mount_line(2) by (auto simp: list_all_iff)
  have esc: "unescape (kernel_escape mount_escapes s) = s" for s
    by (rule unescape_kernel_escape) (simp add: mount_escapes_def)
  show ?thesis
    unfolding mounts_Parse_def Split_text_file [OF nn]
    using assms by (induction ls) (auto simp: Fields_mount_line esc)
qed

theorem mounts_parse_inverts_kernel_witness:
  "mounts_Parse (text_file [mount_line (\<lparr>en_Device = ''nas:/my share'', en_Path = ''/mnt/my share'', en_FSType = ''nfs4''\<rparr>,
      [(0, ''rw''), (0, ''0''), (0, ''0'')])])
   = [\<lparr>en_Device = ''nas:/my share'', en_Path = ''/mnt/my share'', en_FSType = ''nfs4''\<rparr>]"
  using mounts_parse_inverts_kernel [of "[(\<lparr>en_Device = ''nas:/my share'', en_Path = ''/mnt/my share'', en_FSType = ''nfs4''\<rparr>,
      [(0, ''rw''), (0, ''0''), (0, ''0'')])]"]
  by (simp add: mount_line_ok_def mount_name_def mount_escapes_def token_def token_byte_def is_space_rune_def in_range_def)

text \<open>
  The kernel does not escape other white space, while the parser splits at any Unicode space: a mount
  point with a no-break space in its name is cut there.
\<close>

lemma mounts_parse_cuts_at_unicode_space:
  assumes "token dev" "token a" "token b" "list_all (token \<circ> snd) opts"
  shows "mounts_Parse (dev @ blank # a @ CHR 0xC2 # CHR 0xA0 # b @ columns opts)
    = [\<lparr>en_Device = unescape dev, en_Path = unescape a, en_FSType = b\<rparr>]"
proof -
  let ?line = "dev @ blank # a @ CHR 0xC2 # CHR 0xA0 # b @ columns opts"
  have "newline \<notin> set ?line" using assms by simp
  then have s: "Split newline ?line = [?line]" by (rule Split_no_sep)
  let ?r = "CHR 0xC2 # CHR 0xA0 # b @ columns opts"
  have "DecodeRune ?r = (0xA0, 2)"
    by (simp add: DecodeRune_def Let_def in_range_def second_ok_def second_range_def)
  then have "fields_from a ?r = a # Fields (b @ columns opts)"
    using assms(2) by (subst fields_from.simps) (simp add: space_width_def rune_width_def is_space_rune_def Fields_def token_def)
  then have "Fields (a @ ?r) = a # b # map snd opts"
    using assms fields_from_token [of a "[]" ?r] Fields_token_columns [of b opts]
    by (simp add: Fields_def [of "a @ ?r"] token_def)
  moreover have "Fields ?line = dev # Fields (a @ ?r)"
    using assms(1) by (intro Fields_token_space) (simp_all add: token_def is_space_rune_def)
  ultimately show ?thesis by (simp add: mounts_Parse_def s)
qed

section \<open>Local filesystems\<close>

lemma unique_devices_set: "e \<in> set (unique_devices seen es) \<Longrightarrow> e \<in> set es \<and> en_Device e \<notin> seen"
  by (induction seen es rule: unique_devices.induct) (auto split: if_splits)

lemma unique_devices_distinct: "distinct (map en_Device (unique_devices seen es))"
  by (induction seen es rule: unique_devices.induct) (auto dest: unique_devices_set)

lemma unique_devices_first:
  assumes "sorted (map f es)" "x \<in> set es" "en_Device x \<notin> seen"
  shows "\<exists>e \<in> set (unique_devices seen es). en_Device e = en_Device x \<and> f e \<le> f x"
  using assms
proof (induction seen es rule: unique_devices.induct)
  case (2 seen e es)
  show ?case
  proof (cases "en_Device e \<in> seen")
    case True
    then show ?thesis using 2 by auto
  next
    case False
    show ?thesis
    proof (cases "en_Device x = en_Device e")
      case True
      then show ?thesis using False "2.prems" by auto
    next
      case neq: False
      then have "x \<in> set es" using "2.prems"(2) by auto
      with "2.IH"(2) [OF False] "2.prems" neq False show ?thesis by auto
    qed
  qed
qed simp

lemma LocalFilesystems_set: "f \<in> set (LocalFilesystems entries) \<Longrightarrow> f \<in> set entries \<and> is_server_disk f"
  unfolding LocalFilesystems_def by (drule unique_devices_set) simp

lemma LocalFilesystems_distinct: "distinct (map en_Device (LocalFilesystems entries))"
  unfolding LocalFilesystems_def by (rule unique_devices_distinct)

lemma LocalFilesystems_covers:
  assumes "x \<in> set entries" "is_server_disk x"
  shows "\<exists>e \<in> set (LocalFilesystems entries). en_Device e = en_Device x \<and> length (en_Path e) \<le> length (en_Path x)"
  unfolding LocalFilesystems_def by (rule unique_devices_first) (use assms in simp_all)

text \<open>The devices of the server's own disks.\<close>

definition server_devices :: "Entry list \<Rightarrow> bytes set" where
  "server_devices entries = en_Device ` {x \<in> set entries. is_server_disk x}"

lemma LocalFilesystems_devices: "en_Device ` set (LocalFilesystems entries) = server_devices entries"
proof
  show "en_Device ` set (LocalFilesystems entries) \<subseteq> server_devices entries"
    using LocalFilesystems_set by (auto simp: server_devices_def)
  show "server_devices entries \<subseteq> en_Device ` set (LocalFilesystems entries)"
  proof
    fix d
    assume "d \<in> server_devices entries"
    then obtain x where x: "x \<in> set entries" "is_server_disk x" "d = en_Device x" by (auto simp: server_devices_def)
    show "d \<in> en_Device ` set (LocalFilesystems entries)" unfolding x(3) using LocalFilesystems_covers [OF x(1,2)] by (metis imageI)
  qed
qed

text \<open>
  C31. The server's own storage is each local disk once: the picked entries are mounted local
  filesystems that are not loop devices, no two share a device, every such device in the table has its
  entry, and that entry has the shortest mount point of the device.
\<close>

theorem local_filesystems_once:
  "set (LocalFilesystems entries) \<subseteq> {e \<in> set entries. is_server_disk e}
   \<and> distinct (map en_Device (LocalFilesystems entries))
   \<and> (\<forall>x \<in> set entries. is_server_disk x \<longrightarrow>
        (\<exists>e \<in> set (LocalFilesystems entries). en_Device e = en_Device x \<and> length (en_Path e) \<le> length (en_Path x)))"
  using LocalFilesystems_set LocalFilesystems_distinct LocalFilesystems_covers by (intro conjI subsetI ballI impI) blast+

theorem local_filesystems_once_witness:
  "\<exists>e \<in> set (LocalFilesystems [\<lparr>en_Device = ''/dev/sda1'', en_Path = ''/home'', en_FSType = ''ext4''\<rparr>,
      \<lparr>en_Device = ''/dev/sda1'', en_Path = ''/'', en_FSType = ''ext4''\<rparr>]). length (en_Path e) \<le> 1"
proof -
  let ?x = "\<lparr>en_Device = ''/dev/sda1'', en_Path = ''/'', en_FSType = ''ext4''\<rparr> :: Entry"
  let ?es = "[\<lparr>en_Device = ''/dev/sda1'', en_Path = ''/home'', en_FSType = ''ext4''\<rparr>, ?x]"
  have d: "is_server_disk ?x" by (simp add: is_server_disk_def IsLocal_def localTypes_def HasPrefix_def)
  have m: "?x \<in> set ?es" by simp
  obtain e where "e \<in> set (LocalFilesystems ?es)" "length (en_Path e) \<le> length (en_Path ?x)"
    by (rule bexE [OF local_filesystems_once [THEN conjunct2, THEN conjunct2, THEN bspec, OF m, THEN mp, OF d]])
       (erule conjE)
  then show ?thesis by (intro bexI [of _ e]) simp_all
qed

section \<open>Cleaned paths\<close>

text \<open>A real path component.\<close>

definition component :: "bytes \<Rightarrow> bool" where
  "component c \<longleftrightarrow> c \<noteq> [] \<and> c \<noteq> ''.'' \<and> c \<noteq> ''..'' \<and> slash \<notin> set c"

lemma clean_step_component:
  assumes "list_all component out" "slash \<notin> set c"
  shows "list_all component (clean_step True c out)"
  using assms by (auto simp: clean_step_def component_def list_all_iff dest: in_set_butlastD)

lemma clean_fold_component:
  "list_all (\<lambda>c. slash \<notin> set c) cs \<Longrightarrow> list_all component out \<Longrightarrow>
   list_all component (fold (clean_step True) cs out)"
proof (induction cs arbitrary: out)
  case (Cons c cs)
  then show ?case using clean_step_component by simp
qed simp

lemma clean_comps_component: "HasPrefix p ''/'' \<Longrightarrow> list_all component (clean_comps p)"
  unfolding clean_comps_def
  using clean_fold_component [of "Split slash p" "[]"] sep_not_in_Split [of _ slash p]
  by (simp add: list_all_iff)

lemma fold_clean_components: "list_all component cs \<Longrightarrow> fold (clean_step r) cs out = out @ cs"
  by (induction cs arbitrary: out) (simp_all add: clean_step_def component_def)

definition abs_path :: "bytes list \<Rightarrow> bytes" where
  "abs_path cs = slash # Join slash cs"

lemma Clean_abs: "HasPrefix p ''/'' \<Longrightarrow> Clean p = abs_path (clean_comps p)"
  by (simp add: Clean_def abs_path_def)

lemma Split_components: "list_all component cs \<Longrightarrow> cs \<noteq> [] \<Longrightarrow> Split slash (Join slash cs) = cs"
  by (rule Split_Join) (auto simp: component_def list_all_iff)

lemma clean_comps_abs: "list_all component cs \<Longrightarrow> clean_comps (abs_path cs) = cs"
proof (cases "cs = []")
  case False
  assume c: "list_all component cs"
  then show ?thesis using Split_components [OF c False] fold_clean_components [OF c, of True "[]"]
    by (simp add: clean_comps_def abs_path_def HasPrefix_def clean_step_def)
qed (simp add: clean_comps_def abs_path_def HasPrefix_def clean_step_def)

lemma Clean_idem: "HasPrefix p ''/'' \<Longrightarrow> Clean (Clean p) = Clean p"
  using clean_comps_abs [OF clean_comps_component, of p]
  by (simp add: Clean_abs Clean_abs [of "abs_path (clean_comps p)"] abs_path_def [of "clean_comps p"] HasPrefix_def)

lemma Join_append:
  "a \<noteq> [] \<Longrightarrow> b \<noteq> [] \<Longrightarrow> Join sep (a @ b) = Join sep a @ sep # Join sep b"
  by (induction sep a rule: Join.induct) (auto simp: neq_Nil_conv)

text \<open>Whether a mount point holds a path, by components.\<close>

lemma contains_components:
  assumes "HasPrefix mnt ''/''" "HasPrefix path ''/''"
  shows "contains mnt (Clean path) \<longleftrightarrow> prefix (clean_comps mnt) (clean_comps path)"
proof -
  let ?ms = "clean_comps mnt" and ?cs = "clean_comps path"
  have c: "list_all component ?ms" "list_all component ?cs"
    using assms by (simp_all add: clean_comps_component)
  have m: "Clean mnt = abs_path ?ms" "Clean path = abs_path ?cs" using assms by (simp_all add: Clean_abs)
  show ?thesis
  proof (cases "?ms = []")
    case True
    then show ?thesis by (simp add: contains_def m abs_path_def HasPrefix_def)
  next
    case False
    then have nroot: "Join slash ?ms \<noteq> []"
      using c(1) by (cases ?ms; cases "tl ?ms") (auto simp: component_def)
    have "(\<exists>r. Join slash ?cs = Join slash ?ms @ slash # r) \<or> Join slash ?cs = Join slash ?ms \<longleftrightarrow> prefix ?ms ?cs"
    proof
      assume "(\<exists>r. Join slash ?cs = Join slash ?ms @ slash # r) \<or> Join slash ?cs = Join slash ?ms"
      then show "prefix ?ms ?cs"
      proof
        assume "\<exists>r. Join slash ?cs = Join slash ?ms @ slash # r"
        then obtain r where r: "Join slash ?cs = Join slash ?ms @ slash # r" by blast
        then have ne: "?cs \<noteq> []" by auto
        have "Join slash ?ms @ slash # r = Join slash (?ms @ Split slash r)"
          using Join_append [OF False, of "Split slash r" slash] by simp
        moreover have "Split slash (Join slash (?ms @ Split slash r)) = ?ms @ Split slash r"
          using c(1) sep_not_in_Split [of _ slash r] False
          by (intro Split_Join) (auto simp: list_all_iff component_def)
        ultimately have "?cs = ?ms @ Split slash r" using Split_components [OF c(2) ne] r by simp
        then show ?thesis by (metis prefixI)
      next
        assume e: "Join slash ?cs = Join slash ?ms"
        then have "?cs \<noteq> []" using nroot by auto
        then have "?cs = ?ms" using Split_components [OF c(2)] Split_components [OF c(1) False] e by metis
        then show ?thesis by simp
      qed
    next
      assume "prefix ?ms ?cs"
      then obtain rs where rs: "?cs = ?ms @ rs" by (auto simp: prefix_def)
      then show "(\<exists>r. Join slash ?cs = Join slash ?ms @ slash # r) \<or> Join slash ?cs = Join slash ?ms"
        using Join_append [OF False, of rs slash] by (cases "rs = []") auto
    qed
    then show ?thesis using nroot
      by (auto simp: contains_def m abs_path_def HasPrefix_iff prefix_def)
  qed
qed

section \<open>The filesystem a path lives on\<close>

lemma find_fold:
  "(case fold (find_step path) es None of
      None \<Rightarrow> \<forall>e \<in> set es. \<not> contains (en_Path e) path
    | Some b \<Rightarrow> \<exists>before after. es = before @ b # after \<and> contains (en_Path b) path
        \<and> (\<forall>e \<in> set before. contains (en_Path e) path \<longrightarrow> length (en_Path e) \<le> length (en_Path b))
        \<and> (\<forall>e \<in> set after. contains (en_Path e) path \<longrightarrow> length (en_Path e) < length (en_Path b)))"
proof (induction es rule: rev_induct)
  case (snoc e es)
  show ?case
  proof (cases "fold (find_step path) es None")
    case None
    with snoc show ?thesis
      by (auto simp: find_step_def [of path e] intro: exI [of _ es])
  next
    case (Some b)
    with snoc obtain before after where b: "es = before @ b # after" "contains (en_Path b) path"
      "\<forall>e \<in> set before. contains (en_Path e) path \<longrightarrow> length (en_Path e) \<le> length (en_Path b)"
      "\<forall>e \<in> set after. contains (en_Path e) path \<longrightarrow> length (en_Path e) < length (en_Path b)"
      by auto
    show ?thesis
    proof (cases "contains (en_Path e) path \<and> length (en_Path b) \<le> length (en_Path e)")
      case True
      then have "\<forall>x \<in> set es. contains (en_Path x) path \<longrightarrow> length (en_Path x) \<le> length (en_Path e)"
        using b by fastforce
      moreover have "fold (find_step path) (es @ [e]) None = Some e"
        using True Some by (simp add: find_step_def [of path e])
      ultimately show ?thesis using True by fastforce
    next
      case False
      have "fold (find_step path) (es @ [e]) None = Some b"
        using False Some by (simp add: find_step_def [of path e])
      moreover have "es @ [e] = before @ b # (after @ [e])" using b(1) by simp
      moreover have "\<forall>x \<in> set (after @ [e]). contains (en_Path x) path \<longrightarrow> length (en_Path x) < length (en_Path b)"
        using b(4) False by auto
      ultimately show ?thesis using b(2,3) by (simp only: option.case) blast
    qed
  qed
qed simp

text \<open>
  C29. A path is reported on the filesystem it lives on: the chosen entry is a mount point that is the
  path or one of its parent directories, by whole components; no other such mount point in the table is
  longer, and of two equal ones the later, mounted on top, is chosen. No entry is chosen exactly when
  none holds the path. Here all paths are absolute and mount points are written without redundancies.
\<close>

theorem mounts_find_longest:
  assumes "\<forall>e \<in> set entries. HasPrefix (en_Path e) ''/'' \<and> Clean (en_Path e) = en_Path e" "HasPrefix path ''/''"
  shows "case Find entries path of
      None \<Rightarrow> \<forall>e \<in> set entries. \<not> prefix (clean_comps (en_Path e)) (clean_comps path)
    | Some b \<Rightarrow> \<exists>before after. entries = before @ b # after
        \<and> prefix (clean_comps (en_Path b)) (clean_comps path)
        \<and> (\<forall>e \<in> set before. prefix (clean_comps (en_Path e)) (clean_comps path)
              \<longrightarrow> length (en_Path e) \<le> length (en_Path b))
        \<and> (\<forall>e \<in> set after. prefix (clean_comps (en_Path e)) (clean_comps path)
              \<longrightarrow> length (en_Path e) < length (en_Path b))"
proof -
  have c: "contains (en_Path e) (Clean path) \<longleftrightarrow> prefix (clean_comps (en_Path e)) (clean_comps path)"
    if "e \<in> set entries" for e
    using assms that by (intro contains_components) simp_all
  show ?thesis
  proof (cases "Find entries path")
    case None
    then show ?thesis using find_fold [where es = entries and path = "Clean path"] c by (simp add: Find_def)
  next
    case (Some b)
    then obtain before after where *: "entries = before @ b # after" "contains (en_Path b) (Clean path)"
      "\<forall>e \<in> set before. contains (en_Path e) (Clean path) \<longrightarrow> length (en_Path e) \<le> length (en_Path b)"
      "\<forall>e \<in> set after. contains (en_Path e) (Clean path) \<longrightarrow> length (en_Path e) < length (en_Path b)"
      using find_fold [where es = entries and path = "Clean path"] by (auto simp: Find_def)
    have "prefix (clean_comps (en_Path b)) (clean_comps path)" using c [of b] *(1,2) by simp
    moreover have "\<forall>e \<in> set before. prefix (clean_comps (en_Path e)) (clean_comps path)
        \<longrightarrow> length (en_Path e) \<le> length (en_Path b)" using c *(1,3) by auto
    moreover have "\<forall>e \<in> set after. prefix (clean_comps (en_Path e)) (clean_comps path)
        \<longrightarrow> length (en_Path e) < length (en_Path b)" using c *(1,4) by auto
    ultimately show ?thesis using *(1) Some by (simp only: option.case) blast
  qed
qed

theorem mounts_find_longest_witness:
  "case Find [\<lparr>en_Device = ''/dev/sda1'', en_Path = ''/'', en_FSType = ''ext4''\<rparr>] ''/var'' of
     None \<Rightarrow> False | Some b \<Rightarrow> prefix (clean_comps (en_Path b)) (clean_comps ''/var'')"
proof -
  let ?e = "\<lparr>en_Device = ''/dev/sda1'', en_Path = ''/'', en_FSType = ''ext4''\<rparr> :: Entry"
  have r: "clean_comps ''/'' = []" by (simp add: clean_comps_def HasPrefix_def clean_step_def)
  then have "Clean (en_Path ?e) = en_Path ?e" by (simp add: Clean_def HasPrefix_def)
  then have h: "\<forall>e \<in> set [?e]. HasPrefix (en_Path e) ''/'' \<and> Clean (en_Path e) = en_Path e" by (simp add: HasPrefix_def)
  have p: "HasPrefix ''/var'' ''/''" by (simp add: HasPrefix_def)
  show ?thesis using mounts_find_longest [OF h p] r by (cases "Find [?e] ''/var''") auto
qed

section \<open>The mount points a pattern matches\<close>

text \<open>The last table entry with a given cleaned mount point.\<close>

definition last_at :: "Entry list \<Rightarrow> bytes \<Rightarrow> Entry option" where
  "last_at entries p = find (\<lambda>e. Clean (en_Path e) = p) (rev entries)"

definition matches_path :: "bytes \<Rightarrow> bytes \<Rightarrow> bool" where
  "matches_path pattern p \<longleftrightarrow> Match pattern p = Inr True"

lemma match_step_eq:
  "match_step pattern e m =
     (if matches_path pattern (Clean (en_Path e))
      then AList.update (Clean (en_Path e)) (e\<lparr>en_Path := Clean (en_Path e)\<rparr>) m else m)"
  by (auto simp: match_step_def matches_path_def Let_def split: sum.split bool.split)

lemma byPath_distinct: "distinct (map fst m) \<Longrightarrow> distinct (map fst (fold (match_step pattern) entries m))"
  by (induction entries arbitrary: m) (auto simp: match_step_eq distinct_update)

lemma byPath_map_of:
  "map_of (fold (match_step pattern) entries []) p =
     (if matches_path pattern p then map_option (\<lambda>e. e\<lparr>en_Path := p\<rparr>) (last_at entries p) else None)"
proof (induction entries rule: rev_induct)
  case (snoc e es)
  then show ?case by (auto simp: match_step_eq [of pattern e] update_conv' last_at_def)
qed (simp add: last_at_def)

lemma mounts_Match_set:
  "e \<in> set (mounts_Match entries pattern) \<longleftrightarrow>
     (\<exists>e0. last_at entries (en_Path e) = Some e0 \<and> e = e0\<lparr>en_Path := en_Path e\<rparr>
        \<and> matches_path (Clean pattern) (en_Path e) \<and> en_FSType e \<noteq> ''autofs'')"
proof -
  let ?m = "fold (match_step (Clean pattern)) entries []"
  have d: "distinct (map fst ?m)" by (rule byPath_distinct) simp
  have "e \<in> snd ` set ?m \<longleftrightarrow> (\<exists>p. map_of ?m p = Some e)"
    using map_of_eq_Some_iff [OF d] by force
  also have "\<dots> \<longleftrightarrow> (\<exists>e0. last_at entries (en_Path e) = Some e0 \<and> e = e0\<lparr>en_Path := en_Path e\<rparr>
      \<and> matches_path (Clean pattern) (en_Path e))"
    by (auto simp: byPath_map_of split: if_splits) (metis (no_types))
  finally show ?thesis by (auto simp: mounts_Match_def Let_def)
qed

lemma mounts_Match_keys:
  assumes "e \<in> snd ` set (fold (match_step pattern) entries [])"
  shows "(en_Path e, e) \<in> set (fold (match_step pattern) entries [])"
proof -
  have d: "distinct (map fst (fold (match_step pattern) entries []))" by (rule byPath_distinct) simp
  obtain p where "map_of (fold (match_step pattern) entries []) p = Some e"
    using assms map_of_eq_Some_iff [OF d] by force
  moreover from this have "p = en_Path e" by (auto simp: byPath_map_of split: if_splits)
  ultimately show ?thesis by (simp add: map_of_SomeD)
qed

lemma inj_on_path: "inj_on en_Path (snd ` set (fold (match_step pattern) entries []))"
proof (rule inj_onI)
  fix x y
  assume "x \<in> snd ` set (fold (match_step pattern) entries [])" "y \<in> snd ` set (fold (match_step pattern) entries [])"
    and e: "en_Path x = en_Path y"
  then have "(en_Path x, x) \<in> set (fold (match_step pattern) entries [])"
    "(en_Path x, y) \<in> set (fold (match_step pattern) entries [])"
    using mounts_Match_keys by (metis, metis)
  moreover have "distinct (map fst (fold (match_step pattern) entries []))" by (rule byPath_distinct) simp
  ultimately show "x = y" by (meson eq_key_imp_eq_value)
qed

lemma distinct_byPath: "distinct (map snd (fold (match_step pattern) entries []))"
proof -
  let ?m = "fold (match_step pattern) entries []"
  have "map fst ?m = map en_Path (map snd ?m)"
  proof -
    have "p = en_Path e" if "(p, e) \<in> set ?m" for p e
    proof -
      have "map_of ?m p = Some e" using that by (simp add: map_of_is_SomeI byPath_distinct)
      then show ?thesis by (auto simp: byPath_map_of split: if_splits)
    qed
    then have "\<forall>kv \<in> set ?m. fst kv = (en_Path \<circ> snd) kv" by auto
    then show ?thesis by simp
  qed
  then show ?thesis using byPath_distinct [of "[]" pattern entries] by (metis distinct_map list.simps(8) distinct.simps(1))
qed

text \<open>The order in which Go visits the map does not matter, since the paths are all different.\<close>

lemma mounts_Match_order:
  assumes "mset ms = mset (filter (\<lambda>e. en_FSType e \<noteq> ''autofs'') (map snd (fold (match_step (Clean pattern)) entries [])))"
  shows "sort_key en_Path ms = mounts_Match entries pattern"
proof -
  let ?xs = "filter (\<lambda>e. en_FSType e \<noteq> ''autofs'') (map snd (fold (match_step (Clean pattern)) entries []))"
  have "inj_on en_Path (set ?xs)" by (rule inj_on_subset [OF inj_on_path]) auto
  then have "inj_on en_Path (set ms)" using mset_eq_setD [OF assms] by simp
  then show ?thesis unfolding mounts_Match_def Let_def
    by (rule sort_key_inj_key_eq [rotated]) (use assms in simp_all)
qed

text \<open>
  C30. A wildcard reports exactly the mount points it matches: for each cleaned mount point in the table
  that the cleaned pattern matches, the last entry mounted there, unless that is an autofs trigger;
  strictly sorted by path, so each is listed once.
\<close>

theorem mounts_match_correct:
  "sorted_wrt (<) (map en_Path (mounts_Match entries pattern))
   \<and> (\<forall>e. e \<in> set (mounts_Match entries pattern) \<longleftrightarrow>
        (\<exists>e0. last_at entries (en_Path e) = Some e0 \<and> e = e0\<lparr>en_Path := en_Path e\<rparr>
           \<and> Match (Clean pattern) (en_Path e) = Inr True \<and> en_FSType e \<noteq> ''autofs''))"
proof -
  let ?xs = "filter (\<lambda>e. en_FSType e \<noteq> ''autofs'') (map snd (fold (match_step (Clean pattern)) entries []))"
  have "distinct ?xs" using distinct_byPath by (rule distinct_filter)
  moreover have "inj_on en_Path (set ?xs)" by (rule inj_on_subset [OF inj_on_path]) auto
  ultimately have "distinct (map en_Path (mounts_Match entries pattern))"
    by (simp add: mounts_Match_def Let_def distinct_map)
  moreover have "sorted (map en_Path (mounts_Match entries pattern))"
    by (simp add: mounts_Match_def Let_def)
  ultimately show ?thesis by (simp add: strict_sorted_iff mounts_Match_set matches_path_def)
qed

end
