(* ===== verification/Disk.thy ===== *)
theory Disk
  imports Float64
begin

text \<open>
  \<^verbatim>\<open>src/storage/disk\<close>: a filesystem's block counts as bytes, with guarded subtractions on \<open>uint64\<close>, and
  the sum over several filesystems.
\<close>

text \<open>The fields of \<^verbatim>\<open>syscall.Statfs_t\<close> that are used; \<^verbatim>\<open>Frsize\<close> is an \<open>int64\<close>, here its 64 bits.\<close>

record Statfs_t =
  st_Blocks :: u64
  st_Bfree :: u64
  st_Bavail :: u64
  st_Frsize :: u64

record disk_Sample =
  Blocks :: u64
  FreeBlocks :: u64
  AvailableBlocks :: u64
  BlockSize :: u64

definition disk_Parse :: "Statfs_t \<Rightarrow> disk_Sample" where
  "disk_Parse stat = \<lparr>Blocks = st_Blocks stat, FreeBlocks = st_Bfree stat,
     AvailableBlocks = st_Bavail stat, BlockSize = st_Frsize stat\<rparr>"

record Usage =
  TotalBytes :: u64
  UsedBytes :: u64
  FreeBytes :: u64
  ReservedBytes :: u64
  UsedPercent :: rat

definition ToBytes :: "disk_Sample \<Rightarrow> Usage" where
  "ToBytes s =
     (let usedBlocks = (if FreeBlocks s < Blocks s then Blocks s - FreeBlocks s else 0);
          reservedBlocks = (if AvailableBlocks s < FreeBlocks s then FreeBlocks s - AvailableBlocks s else 0);
          used = usedBlocks * BlockSize s;
          free = AvailableBlocks s * BlockSize s
      in \<lparr>TotalBytes = Blocks s * BlockSize s, UsedBytes = used, FreeBytes = free,
          ReservedBytes = reservedBlocks * BlockSize s,
          UsedPercent = (if 0 < used + free then percent_of used (used + free) else 0)\<rparr>)"

definition add_usage :: "Usage \<Rightarrow> Usage \<Rightarrow> Usage" where
  "add_usage u t = t\<lparr>TotalBytes := TotalBytes t + TotalBytes u, UsedBytes := UsedBytes t + UsedBytes u,
     FreeBytes := FreeBytes t + FreeBytes u, ReservedBytes := ReservedBytes t + ReservedBytes u\<rparr>"

definition Total :: "Usage list \<Rightarrow> Usage" where
  "Total usages =
     (let t = fold add_usage usages
            \<lparr>TotalBytes = 0, UsedBytes = 0, FreeBytes = 0, ReservedBytes = 0, UsedPercent = 0\<rparr>
      in if 0 < UsedBytes t + FreeBytes t
         then t\<lparr>UsedPercent := percent_of (UsedBytes t) (UsedBytes t + FreeBytes t)\<rparr> else t)"

section \<open>One filesystem\<close>

text \<open>A filesystem whose counts make sense, small enough for its size in bytes to fit.\<close>

definition sane :: "disk_Sample \<Rightarrow> bool" where
  "sane s \<longleftrightarrow> AvailableBlocks s \<le> FreeBlocks s \<and> FreeBlocks s \<le> Blocks s
     \<and> unat (Blocks s) * unat (BlockSize s) < 2 ^ 64"

lemma unat_le_sum: "unat (a :: u64) + unat b < 2 ^ 64 \<Longrightarrow> a \<le> a + b"
  by (simp add: word_le_nat_alt unat_plus_no_wrap)

lemma percent_used_bounds [percent_intros]:
  "unat (used :: u64) + unat free < 2 ^ 64 \<Longrightarrow> 0 < used + free \<Longrightarrow>
   0 \<le> percent_of used (used + free) \<and> percent_of used (used + free) \<le> 100"
  by (intro percent_of_bounds unat_le_sum)

lemma guarded_sub: "b \<le> a \<Longrightarrow> (if b < a then a - b else 0) = (a - b :: u64)"
  by auto

lemma ToBytes_sane:
  assumes "sane s"
  shows "UsedBytes (ToBytes s) = (Blocks s - FreeBlocks s) * BlockSize s"
    "FreeBytes (ToBytes s) = AvailableBlocks s * BlockSize s"
    "ReservedBytes (ToBytes s) = (FreeBlocks s - AvailableBlocks s) * BlockSize s"
    "TotalBytes (ToBytes s) = Blocks s * BlockSize s"
  using assms by (simp_all add: ToBytes_def Let_def sane_def guarded_sub)

lemma ToBytes_unat:
  assumes "sane s"
  shows "unat (TotalBytes (ToBytes s)) = unat (Blocks s) * unat (BlockSize s)"
    "unat (UsedBytes (ToBytes s)) = (unat (Blocks s) - unat (FreeBlocks s)) * unat (BlockSize s)"
    "unat (FreeBytes (ToBytes s)) = unat (AvailableBlocks s) * unat (BlockSize s)"
    "unat (ReservedBytes (ToBytes s)) = (unat (FreeBlocks s) - unat (AvailableBlocks s)) * unat (BlockSize s)"
proof -
  let ?z = "unat (BlockSize s)"
  have le: "unat (AvailableBlocks s) \<le> unat (FreeBlocks s)" "unat (FreeBlocks s) \<le> unat (Blocks s)"
    using assms by (simp_all add: sane_def word_le_nat_alt)
  have lt: "n * ?z < 2 ^ 64" if "n \<le> unat (Blocks s)" for n
    using assms le_less_trans [OF mult_le_mono1 [OF that, of ?z]] by (simp add: sane_def)
  have u: "unat (Blocks s - FreeBlocks s) = unat (Blocks s) - unat (FreeBlocks s)"
    "unat (FreeBlocks s - AvailableBlocks s) = unat (FreeBlocks s) - unat (AvailableBlocks s)"
    using assms by (simp_all add: sane_def unat_sub_le)
  have m: "unat (x * BlockSize s) = unat x * ?z" if "unat x \<le> unat (Blocks s)" for x
    by (rule unat_mult_no_wrap) (rule lt [OF that])
  show "unat (TotalBytes (ToBytes s)) = unat (Blocks s) * ?z"
    "unat (UsedBytes (ToBytes s)) = (unat (Blocks s) - unat (FreeBlocks s)) * ?z"
    "unat (FreeBytes (ToBytes s)) = unat (AvailableBlocks s) * ?z"
    "unat (ReservedBytes (ToBytes s)) = (unat (FreeBlocks s) - unat (AvailableBlocks s)) * ?z"
    using le by (simp_all add: ToBytes_sane [OF assms] m u)
qed

lemma ToBytes_sum:
  assumes "sane s"
  shows "unat (UsedBytes (ToBytes s)) + unat (FreeBytes (ToBytes s)) + unat (ReservedBytes (ToBytes s))
       = unat (TotalBytes (ToBytes s))"
proof -
  have le: "unat (AvailableBlocks s) \<le> unat (FreeBlocks s)" "unat (FreeBlocks s) \<le> unat (Blocks s)"
    using assms by (simp_all add: sane_def word_le_nat_alt)
  have "(unat (Blocks s) - unat (FreeBlocks s)) + unat (AvailableBlocks s)
      + (unat (FreeBlocks s) - unat (AvailableBlocks s)) = unat (Blocks s)" using le by simp
  then show ?thesis by (simp add: ToBytes_unat [OF assms] distrib_right [symmetric] del: add_mult_distrib)
qed

text \<open>Every subtraction is guarded and every product wraps, whatever a filesystem reports.\<close>

lemma unat_guarded_sub: "unat (if b < a then a - b else (0 :: u64)) = unat a - unat b"
  by (cases "b < a") (simp_all add: unat_sub_le [OF less_imp_le] not_less word_le_nat_alt)

lemma unat_times_u64: "unat (a * b :: u64) = unat a * unat b mod 2 ^ 64"
  by (simp add: unat_word_ariths)

lemma ToBytes_exact:
  "unat (TotalBytes (ToBytes s)) = unat (Blocks s) * unat (BlockSize s) mod 2 ^ 64"
  "unat (UsedBytes (ToBytes s)) = (unat (Blocks s) - unat (FreeBlocks s)) * unat (BlockSize s) mod 2 ^ 64"
  "unat (FreeBytes (ToBytes s)) = unat (AvailableBlocks s) * unat (BlockSize s) mod 2 ^ 64"
  "unat (ReservedBytes (ToBytes s)) = (unat (FreeBlocks s) - unat (AvailableBlocks s)) * unat (BlockSize s) mod 2 ^ 64"
  by (simp_all only: ToBytes_def Let_def Usage.simps unat_times_u64 unat_guarded_sub)

lemma ToBytes_percent:
  "UsedPercent (ToBytes s) = (let u = UsedBytes (ToBytes s); f = FreeBytes (ToBytes s)
      in if 0 < u + f then percent_of u (u + f) else 0)"
  by (simp add: ToBytes_def Let_def)

text \<open>
  C33. Disk usage as \<^verbatim>\<open>df\<close> shows it, for whatever a filesystem reports: used blocks are total minus free and reserved ones
  free minus available, 0 where that would be negative, and the bytes are those times the block size, modulo
  \<open>2^64\<close>. While used plus free fits 64 bits the percentage is between 0 and 100; it is 0 exactly when nothing is used
  (an empty filesystem included), and 100 when something is used and nothing is free. For a filesystem with at most as many
  available as free and as many free as total blocks, whose size fits 64 bits, used, free and reserved bytes are the total
  and nothing wraps.
\<close>

theorem disk_usage_adds_up:
  "unat (TotalBytes (ToBytes s)) = unat (Blocks s) * unat (BlockSize s) mod 2 ^ 64
   \<and> unat (UsedBytes (ToBytes s)) = (unat (Blocks s) - unat (FreeBlocks s)) * unat (BlockSize s) mod 2 ^ 64
   \<and> unat (FreeBytes (ToBytes s)) = unat (AvailableBlocks s) * unat (BlockSize s) mod 2 ^ 64
   \<and> unat (ReservedBytes (ToBytes s)) = (unat (FreeBlocks s) - unat (AvailableBlocks s)) * unat (BlockSize s) mod 2 ^ 64
   \<and> (unat (UsedBytes (ToBytes s)) + unat (FreeBytes (ToBytes s)) < 2 ^ 64 \<longrightarrow>
        0 \<le> UsedPercent (ToBytes s) \<and> UsedPercent (ToBytes s) \<le> 100
        \<and> (UsedPercent (ToBytes s) = 0 \<longleftrightarrow> UsedBytes (ToBytes s) = 0)
        \<and> (FreeBytes (ToBytes s) = 0 \<and> UsedBytes (ToBytes s) \<noteq> 0 \<longrightarrow> UsedPercent (ToBytes s) = 100))
   \<and> (sane s \<longrightarrow>
        unat (UsedBytes (ToBytes s)) + unat (FreeBytes (ToBytes s)) + unat (ReservedBytes (ToBytes s)) = unat (TotalBytes (ToBytes s))
        \<and> unat (TotalBytes (ToBytes s)) = unat (Blocks s) * unat (BlockSize s))"
proof (intro conjI impI ToBytes_exact)
  let ?u = "UsedBytes (ToBytes s)" and ?f = "FreeBytes (ToBytes s)"
  assume lt: "unat ?u + unat ?f < 2 ^ 64"
  note p = ToBytes_percent [of s, unfolded Let_def]
  show "0 \<le> UsedPercent (ToBytes s)" "UsedPercent (ToBytes s) \<le> 100"
    using percent_used_bounds [OF lt] by (simp_all add: p)
  show "UsedPercent (ToBytes s) = 0 \<longleftrightarrow> ?u = 0"
    using percent_of_eq_0 [of "?u + ?f" ?u] by (simp add: p word_neq_0_conv [symmetric])
       (metis add.right_neutral lt unat_0 unat_plus_no_wrap add_is_0 unat_eq_zero)
  show "UsedPercent (ToBytes s) = 100" if "?f = 0 \<and> ?u \<noteq> 0"
    using that percent_of_full [of ?u] by (simp add: p word_neq_0_conv)
next
  assume "sane s"
  then show "unat (UsedBytes (ToBytes s)) + unat (FreeBytes (ToBytes s)) + unat (ReservedBytes (ToBytes s)) = unat (TotalBytes (ToBytes s))"
    "unat (TotalBytes (ToBytes s)) = unat (Blocks s) * unat (BlockSize s)"
    by (rule ToBytes_sum, rule ToBytes_unat(1))
qed

theorem disk_usage_adds_up_witness:
  "unat (UsedBytes (ToBytes \<lparr>Blocks = 1000, FreeBlocks = 400, AvailableBlocks = 350, BlockSize = 4096\<rparr>)) = 2457600
   \<and> UsedPercent (ToBytes \<lparr>Blocks = 1000, FreeBlocks = 400, AvailableBlocks = 350, BlockSize = 4096\<rparr>) \<le> 100
   \<and> UsedPercent (ToBytes \<lparr>Blocks = 0, FreeBlocks = 0, AvailableBlocks = 0, BlockSize = 4096\<rparr>) = 0
   \<and> UsedBytes (ToBytes \<lparr>Blocks = 5, FreeBlocks = 9, AvailableBlocks = 7, BlockSize = 4096\<rparr>) = 0"
proof -
  let ?s = "\<lparr>Blocks = 1000, FreeBlocks = 400, AvailableBlocks = 350, BlockSize = 4096\<rparr>"
  have "UsedBytes (ToBytes ?s) = 2457600" "FreeBytes (ToBytes ?s) = 1433600" by (simp_all add: ToBytes_def Let_def)
  then show ?thesis
    using disk_usage_adds_up [of ?s] disk_usage_adds_up [of "\<lparr>Blocks = 0, FreeBlocks = 0, AvailableBlocks = 0, BlockSize = 4096\<rparr>"]
      disk_usage_adds_up [of "\<lparr>Blocks = 5, FreeBlocks = 9, AvailableBlocks = 7, BlockSize = 4096\<rparr>"]
    by (simp add: unat_eq_zero)
qed

section \<open>Several filesystems\<close>

definition sum_of :: "(Usage \<Rightarrow> u64) \<Rightarrow> Usage list \<Rightarrow> nat" where
  "sum_of f us = sum_list (map (\<lambda>u. unat (f u)) us)"

lemma fold_add_usage:
  "TotalBytes (fold add_usage us t) = TotalBytes t + of_nat (sum_of TotalBytes us)"
  "UsedBytes (fold add_usage us t) = UsedBytes t + of_nat (sum_of UsedBytes us)"
  "FreeBytes (fold add_usage us t) = FreeBytes t + of_nat (sum_of FreeBytes us)"
  "ReservedBytes (fold add_usage us t) = ReservedBytes t + of_nat (sum_of ReservedBytes us)"
  by (induction us arbitrary: t) (simp_all add: sum_of_def add_usage_def algebra_simps)

lemma Total_fields:
  "TotalBytes (Total us) = of_nat (sum_of TotalBytes us)" "UsedBytes (Total us) = of_nat (sum_of UsedBytes us)"
  "FreeBytes (Total us) = of_nat (sum_of FreeBytes us)" "ReservedBytes (Total us) = of_nat (sum_of ReservedBytes us)"
  by (simp_all add: Total_def Let_def fold_add_usage)

lemma Total_percent:
  "UsedPercent (Total us) = (let u = UsedBytes (Total us); f = FreeBytes (Total us)
     in if 0 < u + f then percent_of u (u + f) else 0)"
proof -
  have "UsedPercent (fold add_usage us t) = UsedPercent t" for t
    by (induction us arbitrary: t) (simp_all add: add_usage_def)
  then show ?thesis by (simp add: Total_def Let_def fold_add_usage)
qed

lemma sum_of_add:
  "(\<forall>u \<in> set us. unat (UsedBytes u) + unat (FreeBytes u) + unat (ReservedBytes u) = unat (TotalBytes u)) \<Longrightarrow>
   sum_of UsedBytes us + sum_of FreeBytes us + sum_of ReservedBytes us = sum_of TotalBytes us"
  by (induction us) (auto simp: sum_of_def)

lemma Total_sums:
  assumes "\<forall>u \<in> set us. unat (UsedBytes u) + unat (FreeBytes u) + unat (ReservedBytes u) = unat (TotalBytes u)"
    and "sum_of TotalBytes us < 2 ^ 64"
  shows "unat (TotalBytes (Total us)) = sum_of TotalBytes us" "unat (UsedBytes (Total us)) = sum_of UsedBytes us"
    "unat (UsedBytes (Total us)) + unat (FreeBytes (Total us)) + unat (ReservedBytes (Total us))
       = unat (TotalBytes (Total us))"
    "unat (UsedBytes (Total us)) + unat (FreeBytes (Total us)) < 2 ^ 64"
    "unat (FreeBytes (Total us)) = sum_of FreeBytes us" "unat (ReservedBytes (Total us)) = sum_of ReservedBytes us"
proof -
  note s = sum_of_add [OF assms(1)]
  have w: "unat (of_nat n :: u64) = n" if "n \<le> sum_of TotalBytes us" for n
    using that assms(2) by (simp add: unat_of_nat)
  have u: "unat (TotalBytes (Total us)) = sum_of TotalBytes us" "unat (UsedBytes (Total us)) = sum_of UsedBytes us"
    "unat (FreeBytes (Total us)) = sum_of FreeBytes us" "unat (ReservedBytes (Total us)) = sum_of ReservedBytes us"
    unfolding Total_fields by (rule w, use s in simp)+
  then show "unat (FreeBytes (Total us)) = sum_of FreeBytes us" "unat (ReservedBytes (Total us)) = sum_of ReservedBytes us"
    by simp_all
  show "unat (TotalBytes (Total us)) = sum_of TotalBytes us" "unat (UsedBytes (Total us)) = sum_of UsedBytes us"
    "unat (UsedBytes (Total us)) + unat (FreeBytes (Total us)) + unat (ReservedBytes (Total us))
       = unat (TotalBytes (Total us))"
    "unat (UsedBytes (Total us)) + unat (FreeBytes (Total us)) < 2 ^ 64"
    using s u assms(2) by simp_all
qed

text \<open>
  The server-wide total adds up too: over filesystems that each add up and whose total fits 64
  bits, the sums are exact, they add up, and the percentage is that of the summed bytes, between
  0 and 100, and not an average.
\<close>

theorem storage_total_adds_up:
  assumes "\<forall>u \<in> set us. unat (UsedBytes u) + unat (FreeBytes u) + unat (ReservedBytes u) = unat (TotalBytes u)"
    and "sum_of TotalBytes us < 2 ^ 64"
  shows "unat (TotalBytes (Total us)) = sum_of TotalBytes us
     \<and> unat (UsedBytes (Total us)) = sum_of UsedBytes us
     \<and> unat (UsedBytes (Total us)) + unat (FreeBytes (Total us)) + unat (ReservedBytes (Total us))
         = unat (TotalBytes (Total us))
     \<and> 0 \<le> UsedPercent (Total us) \<and> UsedPercent (Total us) \<le> 100
     \<and> (0 < UsedBytes (Total us) + FreeBytes (Total us) \<longrightarrow>
          UsedPercent (Total us) = percent_of (UsedBytes (Total us)) (UsedBytes (Total us) + FreeBytes (Total us)))"
  using Total_sums [OF assms] percent_used_bounds [OF Total_sums(4) [OF assms]]
  by (simp add: Total_percent Let_def)

theorem storage_total_adds_up_witness:
  "let u = \<lparr>TotalBytes = 100, UsedBytes = 60, FreeBytes = 30, ReservedBytes = 10, UsedPercent = 0\<rparr>
   in unat (TotalBytes (Total [u, u])) = 200 \<and> unat (UsedBytes (Total [u, u])) = 120"
proof -
  let ?u = "\<lparr>TotalBytes = 100, UsedBytes = 60, FreeBytes = 30, ReservedBytes = 10, UsedPercent = 0\<rparr> :: Usage"
  have "sum_of TotalBytes [?u, ?u] = 200" "sum_of UsedBytes [?u, ?u] = 120" by (simp_all add: sum_of_def)
  then show ?thesis using storage_total_adds_up [of "[?u, ?u]"] by (simp add: Let_def)
qed

end
