(* ===== verification/Storage.thy ===== *)
theory Storage
  imports Mounts Disk RedisPublisher
begin

text \<open>
  \<^verbatim>\<open>src/storage/collector.go\<close>: the server total over the local filesystems, one entry per configured
  path or wildcard match, failures logged on their edges, and statfs calls that never stack up on a
  dead mount.

  A statfs call of a configured path runs in its own goroutine. \<open>running\<close> holds the calls that have not
  returned, by the channel they will answer on, and \<open>pending\<close> the channel of the call that outlived the
  timeout, by path. What the kernel does is an input: \<open>sy_returned k\<close> are the channels whose calls have
  returned by the time of the \<open>k\<close>-th use of \<^verbatim>\<open>statfs\<close>, and \<open>sy_answer k\<close> what a call started there answers
  within the timeout, \<open>None\<close> when it does not answer in time.
\<close>

datatype stat_err = StatTimeout | StatErr bytes

fun error_text :: "stat_err \<Rightarrow> bytes" where
  "error_text StatTimeout = ''timeout''"
| "error_text (StatErr e) = e"

record calls =
  pending :: "bytes \<rightharpoonup> nat"
  running :: "(nat \<times> bytes) set"
  next_chan :: nat
  uses :: nat

record sys =
  sy_returned :: "nat \<Rightarrow> nat set"
  sy_answer :: "nat \<Rightarrow> (bytes + Statfs_t) option"

definition start_call :: "(bytes + Statfs_t) option \<Rightarrow> bytes \<Rightarrow> calls \<Rightarrow> calls \<times> (stat_err + Statfs_t)" where
  "start_call answer path c =
     (let ch = next_chan c; c = c\<lparr>next_chan := Suc ch\<rparr>
      in case answer of
           Some (Inl err) \<Rightarrow> (c, Inl (StatErr err))
         | Some (Inr stat) \<Rightarrow> (c, Inr stat)
         | None \<Rightarrow> (c\<lparr>running := insert (ch, path) (running c), pending := (pending c)(path \<mapsto> ch)\<rparr>, Inl StatTimeout))"

text \<open>Calls return: their goroutines are gone.\<close>

definition calls_return :: "nat set \<Rightarrow> calls \<Rightarrow> calls" where
  "calls_return chs c = c\<lparr>running := {(ch, p) \<in> running c. ch \<notin> chs}\<rparr>"

definition statfs :: "sys \<Rightarrow> bytes \<Rightarrow> calls \<Rightarrow> calls \<times> (stat_err + Statfs_t)" where
  "statfs os path c0 =
     (let k = uses c0; c = (calls_return (sy_returned os k) c0)\<lparr>uses := Suc k\<rparr>
      in case pending c path of
           Some ch \<Rightarrow>
             if (ch, path) \<in> running c then (c, Inl StatTimeout)
             else start_call (sy_answer os k) path (c\<lparr>pending := (pending c)(path := None)\<rparr>)
         | None \<Rightarrow> start_call (sy_answer os k) path c)"

section \<open>The collector\<close>

record 'w Storage =
  sc_mounts :: "bytes list"
  sc_channel :: bytes
  sc_serverID :: bytes
  sc_interval :: duration
  sc_world :: 'w
  sc_failing :: "bytes set"
  sc_mountFailing :: "bytes set"
  sc_calls :: calls
  sc_log :: "(bytes \<times> bool) list"
  sc_mountLog :: "(bytes \<times> bool) list"

definition storage_New :: "bytes list \<Rightarrow> bytes \<Rightarrow> bytes \<Rightarrow> duration \<Rightarrow> 'w \<Rightarrow> 'w Storage" where
  "storage_New mounts channel serverID interval w =
     \<lparr>sc_mounts = mounts, sc_channel = channel, sc_serverID = serverID, sc_interval = interval, sc_world = w,
      sc_failing = {}, sc_mountFailing = {},
      sc_calls = \<lparr>pending = Map.empty, running = {}, next_chan = 0, uses = 0\<rparr>, sc_log = [], sc_mountLog = []\<rparr>"

record storage_env =
  st_stamp :: bytes
  st_table :: "bytes + bytes"
  st_disk :: "bytes \<Rightarrow> bytes + Statfs_t"
  st_sys :: sys

definition readMountTable :: "storage_env \<Rightarrow> Entry list option" where
  "readMountTable e =
     (case st_table e of Inl _ \<Rightarrow> None
      | Inr data \<Rightarrow> (case mounts_Parse data of [] \<Rightarrow> None | table \<Rightarrow> Some table))"

definition table_entries :: "Entry list option \<Rightarrow> Entry list" where
  "table_entries table = (case table of None \<Rightarrow> [] | Some es \<Rightarrow> es)"

definition to_DiskUsage :: "Usage \<Rightarrow> DiskUsage" where
  "to_DiskUsage u = \<lparr>du_TotalBytes = TotalBytes u, du_UsedBytes = UsedBytes u, du_FreeBytes = FreeBytes u,
     du_ReservedBytes = ReservedBytes u, du_UsedPercent = UsedPercent u\<rparr>"

definition note_failing :: "bytes \<Rightarrow> bool \<Rightarrow> 'w Storage \<Rightarrow> 'w Storage" where
  "note_failing path ok c =
     (case edge_report path ok (sc_failing c) of
        (failing, ls) \<Rightarrow> c\<lparr>sc_failing := failing, sc_log := sc_log c @ ls\<rparr>)"

definition note_mountFailing :: "bytes \<Rightarrow> bool \<Rightarrow> 'w Storage \<Rightarrow> 'w Storage" where
  "note_mountFailing path ok c =
     (case edge_report path ok (sc_mountFailing c) of
        (failing, ls) \<Rightarrow> c\<lparr>sc_mountFailing := failing, sc_mountLog := sc_mountLog c @ ls\<rparr>)"

definition server_step ::
  "(bytes \<Rightarrow> bytes + Statfs_t) \<Rightarrow> Entry \<Rightarrow> 'w Storage \<times> Usage list \<times> bytes list \<Rightarrow> 'w Storage \<times> Usage list \<times> bytes list" where
  "server_step read fs acc =
     (case acc of (c, usages, missing) \<Rightarrow>
        (case read (en_Path fs) of
           Inl _ \<Rightarrow> (note_failing (en_Path fs) False c, usages, missing @ [en_Path fs])
         | Inr stat \<Rightarrow>
             let c = note_failing (en_Path fs) True c; usage = ToBytes (disk_Parse stat)
             in if TotalBytes usage = 0 then (c, usages, missing) else (c, usages @ [usage], missing)))"

definition serverStorage ::
  "storage_env \<Rightarrow> Entry list option \<Rightarrow> 'w Storage \<Rightarrow> 'w Storage \<times> ServerStorage option" where
  "serverStorage e table c =
     (case fold (server_step (st_disk e)) (LocalFilesystems (table_entries table)) (c, [], []) of
        (c, usages, missing) \<Rightarrow>
          (c, if usages = [] then None
              else Some \<lparr>ss_DiskUsage = to_DiskUsage (Total usages), ss_Partial = (0 < length missing),
                         ss_MissingPaths = sort missing\<rparr>))"

definition errNoMatch :: bytes where
  "errNoMatch = ''no mounts match''"

definition errNoMountTable :: bytes where
  "errNoMountTable = ''mount table unreadable''"

definition mountUsage :: "sys \<Rightarrow> Entry list option \<Rightarrow> bytes \<Rightarrow> 'w Storage \<Rightarrow> 'w Storage \<times> MountUsage" where
  "mountUsage os table path c =
     (let entry = (case Find (table_entries table) path of
                     None \<Rightarrow> \<lparr>en_Device = [], en_Path = [], en_FSType = []\<rparr> | Some e \<Rightarrow> e);
          (calls, r) = statfs os path (sc_calls c);
          c = c\<lparr>sc_calls := calls\<rparr>
      in case r of
           Inl err \<Rightarrow>
             (note_mountFailing path False c,
              \<lparr>mu_Path = path,
               mu_Device = (if err = StatTimeout then en_Device entry else []),
               mu_FSType = (if err = StatTimeout then en_FSType entry else []),
               mu_Pattern = [], mu_DiskUsage = None, mu_Error = error_text err\<rparr>)
         | Inr stat \<Rightarrow>
             (note_mountFailing path True c,
              \<lparr>mu_Path = path, mu_Device = en_Device entry, mu_FSType = en_FSType entry, mu_Pattern = [],
               mu_DiskUsage = Some (to_DiskUsage (ToBytes (disk_Parse stat))), mu_Error = []\<rparr>))"

definition add_mount :: "MountUsage \<Rightarrow> MountUsage list \<Rightarrow> MountUsage list" where
  "add_mount u usage = (if mu_Path u \<in> mu_Path ` set usage then usage else usage @ [u])"

definition unmatched :: "bytes \<Rightarrow> bytes \<Rightarrow> MountUsage" where
  "unmatched path err = \<lparr>mu_Path = path, mu_Device = [], mu_FSType = [], mu_Pattern = path,
     mu_DiskUsage = None, mu_Error = err\<rparr>"

fun match_usages ::
  "sys \<Rightarrow> Entry list option \<Rightarrow> bytes \<Rightarrow> Entry list \<Rightarrow> 'w Storage \<times> MountUsage list \<Rightarrow> 'w Storage \<times> MountUsage list" where
  "match_usages os table path [] acc = acc"
| "match_usages os table path (m # ms) (c, usage) =
     (let (c, u) = mountUsage os table (en_Path m) c
      in match_usages os table path ms (c, add_mount (u\<lparr>mu_Pattern := path\<rparr>) usage))"

definition mounts_step ::
  "sys \<Rightarrow> Entry list option \<Rightarrow> bytes \<Rightarrow> 'w Storage \<times> MountUsage list \<Rightarrow> 'w Storage \<times> MountUsage list" where
  "mounts_step os table path acc =
     (case acc of (c, usage) \<Rightarrow>
        if \<not> HasWildcard path
        then (case mountUsage os table path c of (c, u) \<Rightarrow> (c, add_mount u usage))
        else case table of
          None \<Rightarrow> (c, add_mount (unmatched path errNoMountTable) usage)
        | Some entries \<Rightarrow>
            (case mounts_Match entries path of
               [] \<Rightarrow> (c, add_mount (unmatched path errNoMatch) usage)
             | matches \<Rightarrow> match_usages os table path matches (c, usage)))"

definition mountUsages :: "sys \<Rightarrow> Entry list option \<Rightarrow> 'w Storage \<Rightarrow> 'w Storage \<times> MountUsage list" where
  "mountUsages os table c = fold (mounts_step os table) (sc_mounts c) (c, [])"

definition storage_event :: "storage_env \<Rightarrow> 'w Storage \<Rightarrow> 'w Storage \<times> StorageEvent" where
  "storage_event e c =
     (let table = readMountTable e;
          (c1, server) = serverStorage e table c;
          (c2, mounts) = mountUsages (st_sys e) table c1
      in (c2, \<lparr>se_ServerID = sc_serverID c, se_Timestamp = st_stamp e, se_Server = server, se_Mounts = mounts\<rparr>))"

definition storage_collect :: "'w publish \<Rightarrow> storage_env \<Rightarrow> 'w Storage \<Rightarrow> 'w Storage" where
  "storage_collect pb e c =
     (case storage_event e c of
        (c, event) \<Rightarrow>
          (case StorageEvent_json event of
             None \<Rightarrow> c
           | Some payload \<Rightarrow> c\<lparr>sc_world := fst (pb (sc_world c) (sc_channel c) [payload])\<rparr>))"

definition storage_Run ::
  "'w publish \<Rightarrow> duration option \<Rightarrow> storage_env \<Rightarrow> storage_env select list \<Rightarrow> 'w Storage \<Rightarrow> 'w Storage" where
  "storage_Run pb cancelled first es c = run_ticks cancelled (sc_interval c) (storage_collect pb) first es c"

section \<open>Statfs calls do not stack up\<close>

text \<open>Every call still running is the pending one of its path.\<close>

definition one_call :: "calls \<Rightarrow> bool" where
  "one_call c \<longleftrightarrow> (\<forall>(ch, p) \<in> running c. pending c p = Some ch)"

definition calls_init :: calls where
  "calls_init = \<lparr>pending = Map.empty, running = {}, next_chan = 0, uses = 0\<rparr>"

text \<open>What can happen to the calls: some return, or the collector asks for a path.\<close>

inductive stat_step :: "calls \<Rightarrow> calls \<Rightarrow> bool" where
  returned: "stat_step c (calls_return chs c)"
| asked: "stat_step c (fst (statfs os path c))"

inductive_cases stat_stepE: "stat_step c c'"

lemma one_call_init [inv_intros]: "one_call calls_init"
  by (simp add: one_call_def calls_init_def)

lemma one_call_return [inv_intros]: "one_call c \<Longrightarrow> one_call (calls_return chs c)"
  by (auto simp: one_call_def calls_return_def)

lemma one_call_start:
  assumes "one_call c" "\<forall>ch. (ch, path) \<notin> running c"
  shows "one_call (fst (start_call answer path c))"
  using assms by (auto simp: start_call_def one_call_def Let_def split: option.splits sum.splits)

lemma one_call_statfs [inv_intros]:
  assumes "one_call c"
  shows "one_call (fst (statfs os path c))"
proof -
  let ?c = "(calls_return (sy_returned os (uses c)) c)\<lparr>uses := Suc (uses c)\<rparr>"
  have inv: "one_call ?c" using one_call_return [OF assms] by (simp add: one_call_def)
  show ?thesis
  proof (cases "pending ?c path")
    case None
    then have "\<forall>ch. (ch, path) \<notin> running ?c" using inv by (auto simp: one_call_def)
    then show ?thesis using one_call_start [OF inv] None by (simp add: statfs_def Let_def)
  next
    case (Some ch)
    show ?thesis
    proof (cases "(ch, path) \<in> running ?c")
      case True
      then show ?thesis using inv Some by (simp add: statfs_def Let_def)
    next
      case False
      then have none: "\<forall>ch. (ch, path) \<notin> running ?c" using inv Some by (auto simp: one_call_def)
      let ?d = "?c\<lparr>pending := (pending ?c)(path := None)\<rparr>"
      have "one_call ?d" using inv none by (auto simp: one_call_def)
      then have "one_call (fst (start_call (sy_answer os (uses c)) path ?d))"
        by (rule one_call_start) (use none in simp)
      then show ?thesis using Some False by (simp add: statfs_def Let_def)
    qed
  qed
qed

lemma one_call_reachable: "stat_step\<^sup>*\<^sup>* calls_init c \<Longrightarrow> one_call c"
  by (induction rule: rtranclp_induct) (auto elim!: stat_stepE intro: inv_intros)

lemma one_call_card: "one_call c \<Longrightarrow> card {ch. (ch, p) \<in> running c} \<le> 1"
proof -
  assume "one_call c"
  then have "{ch. (ch, p) \<in> running c} \<subseteq> set_option (pending c p)" by (auto simp: one_call_def)
  moreover have "finite (set_option (pending c p))" "card (set_option (pending c p)) \<le> 1"
    by (cases "pending c p"; simp)+
  ultimately show ?thesis using card_mono le_trans by metis
qed

section \<open>Invariants of the collector\<close>

text \<open>The two logs are the edges of some sequence of outcomes, and statfs calls do not stack up.\<close>

definition storage_inv :: "'w Storage \<Rightarrow> bool" where
  "storage_inv c \<longleftrightarrow> (\<exists>rs. reports edge_report rs {} = (sc_failing c, sc_log c))
     \<and> (\<exists>rs. reports edge_report rs {} = (sc_mountFailing c, sc_mountLog c)) \<and> one_call (sc_calls c)"

lemma storage_inv_New [inv_intros]: "storage_inv (storage_New ms ch sid iv w)"
proof -
  have "reports edge_report [] {} = ({} :: bytes set, [])" by simp
  then have "\<exists>rs. reports edge_report rs {} = ({} :: bytes set, [])" by blast
  then show ?thesis using one_call_init by (simp add: storage_inv_def storage_New_def calls_init_def)
qed

lemma storage_inv_note [inv_intros]:
  "storage_inv c \<Longrightarrow> storage_inv (note_failing path ok c)"
  "storage_inv c \<Longrightarrow> storage_inv (note_mountFailing path ok c)"
  unfolding storage_inv_def note_failing_def note_mountFailing_def
  by (auto simp: split_beta intro!: ex_reports_snoc)

lemma storage_inv_calls: "storage_inv c \<Longrightarrow> one_call cs \<Longrightarrow> storage_inv (c\<lparr>sc_calls := cs\<rparr>)"
  by (simp add: storage_inv_def)

lemma storage_inv_server [inv_intros]: "storage_inv c \<Longrightarrow> storage_inv (fst (serverStorage e table c))"
proof -
  have "storage_inv (fst acc) \<Longrightarrow> storage_inv (fst (fold (server_step read) fs acc))"
    for read and fs and acc :: "'a Storage \<times> Usage list \<times> bytes list"
  proof (induction fs arbitrary: acc)
    case (Cons f fs)
    have "storage_inv (fst (server_step read f acc))"
      using Cons.prems by (auto simp: server_step_def split_beta Let_def intro: inv_intros split: sum.split)
    then show ?case using Cons.IH by simp
  qed simp
  then show "storage_inv c \<Longrightarrow> ?thesis" by (simp add: serverStorage_def split_beta)
qed

lemma storage_inv_mountUsage [inv_intros]: "storage_inv c \<Longrightarrow> storage_inv (fst (mountUsage os table path c))"
  by (auto simp: mountUsage_def Let_def split_beta storage_inv_def [of c]
      intro!: inv_intros storage_inv_calls split: sum.split)

lemma storage_inv_match: "storage_inv (fst acc) \<Longrightarrow> storage_inv (fst (match_usages os table path ms acc))"
proof (induction ms arbitrary: acc)
  case (Cons m ms)
  then show ?case by (cases acc) (simp add: Let_def split_beta storage_inv_mountUsage)
qed simp

lemma storage_inv_mounts [inv_intros]: "storage_inv c \<Longrightarrow> storage_inv (fst (mountUsages os table c))"
proof -
  have "storage_inv (fst acc) \<Longrightarrow> storage_inv (fst (fold (mounts_step os table) ms acc))"
    for ms and acc :: "'a Storage \<times> MountUsage list"
  proof (induction ms arbitrary: acc)
    case (Cons m ms)
    have "storage_inv (fst (mounts_step os table m acc))"
      using Cons.prems storage_inv_mountUsage [of "fst acc"] storage_inv_match [of "(fst acc, snd acc)"]
      by (auto simp: mounts_step_def split_beta split: option.split list.split)
    then show ?case using Cons.IH by simp
  qed simp
  then show "storage_inv c \<Longrightarrow> ?thesis" by (simp add: mountUsages_def)
qed

lemma storage_inv_event: "storage_inv c \<Longrightarrow> storage_inv (fst (storage_event e c))"
  by (simp add: storage_event_def Let_def split_beta inv_intros)

lemma storage_inv_collect [inv_intros]: "storage_inv c \<Longrightarrow> storage_inv (storage_collect pb e c)"
  using storage_inv_event [of c e]
  by (simp add: storage_collect_def split_beta storage_inv_def split: option.split)

lemma storage_inv_ticks: "storage_inv c \<Longrightarrow> storage_inv (fold (storage_collect pb) es c)"
  by (induction es arbitrary: c) (simp_all add: inv_intros)

lemma storage_inv_Run: "storage_inv (storage_Run pb cancelled first es (storage_New ms ch sid iv w))"
  unfolding storage_Run_def run_ticks_fired by (intro storage_inv_ticks inv_intros)

text \<open>
  C13. A dead mount holds one goroutine, not one per tick: however the kernel answers, or does not, and
  however often the collector has run, no path has more than one statfs call still running.
\<close>

theorem storage_one_call_per_mount:
  "card {ch. (ch, path) \<in> running (sc_calls (storage_Run pb cancelled first es (storage_New ms ch0 sid iv w)))} \<le> 1"
  using storage_inv_Run [of pb cancelled first es ms ch0 sid iv w] unfolding storage_inv_def
  by (intro one_call_card) simp

text \<open>
  C16. Failures are logged on their edges: after any run, the log lines of each configured path, and of
  each local filesystem, alternate between failing and readable again, and a path's last line says
  what it was on its last reading.
\<close>

theorem storage_failures_logged_once:
  "let c = storage_Run pb cancelled first es (storage_New ms ch sid iv w)
   in alternating (outcomes_of path (sc_mountLog c)) \<and> alternating (outcomes_of path (sc_log c))
      \<and> (path \<in> sc_mountFailing c \<longleftrightarrow> outcomes_of path (sc_mountLog c) \<noteq> [] \<and> \<not> last (outcomes_of path (sc_mountLog c)))"
proof -
  let ?c = "storage_Run pb cancelled first es (storage_New ms ch sid iv w)"
  obtain rs rs' where r: "reports edge_report rs {} = (sc_failing ?c, sc_log ?c)"
    "reports edge_report rs' {} = (sc_mountFailing ?c, sc_mountLog ?c)"
    using storage_inv_Run [of pb cancelled first es ms ch sid iv w] by (auto simp: storage_inv_def)
  show ?thesis
    using edge.log_alternates [of path rs "{}"] edge.log_alternates [of path rs' "{}"] edge.failing_last [of path rs' "{}"] r
    by (simp add: Let_def)
qed

section \<open>The configured mounts\<close>

text \<open>What the configured paths stand for, in config order, before repeats are dropped.\<close>

definition expected_paths :: "Entry list option \<Rightarrow> bytes \<Rightarrow> bytes list" where
  "expected_paths table m =
     (if \<not> HasWildcard m then [m]
      else case table of None \<Rightarrow> [m]
        | Some es \<Rightarrow> (case mounts_Match es m of [] \<Rightarrow> [m] | ms \<Rightarrow> map en_Path ms))"

definition add_path :: "bytes \<Rightarrow> bytes list \<Rightarrow> bytes list" where
  "add_path p ps = (if p \<in> set ps then ps else ps @ [p])"

text \<open>An entry has sizes or an error, never both and never neither.\<close>

definition entry_ok :: "MountUsage \<Rightarrow> bool" where
  "entry_ok u \<longleftrightarrow> (mu_DiskUsage u = None \<longleftrightarrow> mu_Error u \<noteq> [])"

definition sys_ok :: "sys \<Rightarrow> bool" where
  "sys_ok os \<longleftrightarrow> (\<forall>k. sy_answer os k \<noteq> Some (Inl []))"

lemma fold_add_path:
  "distinct ps \<Longrightarrow> distinct (fold add_path xs ps) \<and> set (fold add_path xs ps) = set ps \<union> set xs
     \<and> (\<exists>ys. fold add_path xs ps = ps @ ys \<and> subseq ys xs)"
proof (induction xs arbitrary: ps)
  case (Cons x xs)
  have d: "distinct (add_path x ps)" "set (add_path x ps) = insert x (set ps)"
    using Cons.prems by (auto simp: add_path_def)
  from Cons.IH [OF d(1)] obtain ys where ys: "distinct (fold add_path xs (add_path x ps))"
    "set (fold add_path xs (add_path x ps)) = set (add_path x ps) \<union> set xs"
    "fold add_path xs (add_path x ps) = add_path x ps @ ys" "subseq ys xs" by blast
  show ?case
  proof (cases "x \<in> set ps")
    case True
    then have "add_path x ps = ps" by (simp add: add_path_def)
    then show ?thesis using ys d by auto
  next
    case False
    then have "add_path x ps = ps @ [x]" by (simp add: add_path_def)
    then have "fold add_path (x # xs) ps = ps @ (x # ys)" using ys(3) by simp
    moreover have "subseq (x # ys) (x # xs)" using ys(4) by simp
    ultimately show ?thesis using ys d by auto
  qed
qed simp

lemma statfs_error_text:
  assumes "sys_ok os" "statfs os path c = (c', Inl err)"
  shows "error_text err \<noteq> []"
  using assms
  by (auto simp: statfs_def start_call_def sys_ok_def Let_def split: option.splits sum.splits if_splits)

lemma mountUsage_entry:
  "mu_Path (snd (mountUsage os table path c)) = path"
  "sys_ok os \<Longrightarrow> entry_ok (snd (mountUsage os table path c))"
  using statfs_error_text [of os path "sc_calls c"]
  by (auto simp: mountUsage_def entry_ok_def Let_def split_beta split: sum.split) (metis prod.collapse)

lemma add_mount_paths: "map mu_Path (add_mount u us) = add_path (mu_Path u) (map mu_Path us)"
  by (simp add: add_mount_def add_path_def)

lemma match_usages_step:
  "match_usages os table path (m # ms) acc =
     match_usages os table path ms (fst (mountUsage os table (en_Path m) (fst acc)),
       add_mount (snd (mountUsage os table (en_Path m) (fst acc))\<lparr>mu_Pattern := path\<rparr>) (snd acc))"
  by (cases acc) (simp add: Let_def split_beta)

lemma match_usages_paths:
  "map mu_Path (snd (match_usages os table path ms acc)) = fold add_path (map en_Path ms) (map mu_Path (snd acc))"
proof (induction ms arbitrary: acc)
  case (Cons m ms)
  show ?case unfolding match_usages_step Cons.IH by (simp add: add_mount_paths mountUsage_entry)
qed simp

lemma match_usages_entries:
  "sys_ok os \<Longrightarrow> list_all entry_ok (snd acc) \<Longrightarrow> list_all entry_ok (snd (match_usages os table path ms acc))"
proof (induction ms arbitrary: acc)
  case (Cons m ms)
  then show ?case
    using mountUsage_entry(2) [of os table "en_Path m" "fst acc"] unfolding match_usages_step
    by (intro Cons.IH) (simp_all add: add_mount_def entry_ok_def)
qed simp

lemma mounts_step_paths:
  "map mu_Path (snd (mounts_step os table m acc)) = fold add_path (expected_paths table m) (map mu_Path (snd acc))"
  by (auto simp: mounts_step_def expected_paths_def split_beta add_mount_paths mountUsage_entry unmatched_def
      match_usages_paths split: option.split list.split)

lemma mounts_step_entries:
  assumes "sys_ok os" "list_all entry_ok (snd acc)"
  shows "list_all entry_ok (snd (mounts_step os table m acc))"
proof -
  have "entry_ok (unmatched m errNoMatch)" "entry_ok (unmatched m errNoMountTable)"
    by (simp_all add: entry_ok_def unmatched_def errNoMatch_def errNoMountTable_def)
  then show ?thesis using assms mountUsage_entry(2) [OF assms(1), of table m "fst acc"]
      match_usages_entries [OF assms(1), of "(fst acc, snd acc)"]
    by (auto simp: mounts_step_def split_beta add_mount_def split: option.split list.split)
qed

lemma mountUsages_paths:
  "map mu_Path (snd (mountUsages os table c)) = fold add_path (concat (map (expected_paths table) (sc_mounts c))) []"
  "sys_ok os \<Longrightarrow> list_all entry_ok (snd (mountUsages os table c))"
proof -
  have "map mu_Path (snd (fold (mounts_step os table) ms acc))
      = fold add_path (concat (map (expected_paths table) ms)) (map mu_Path (snd acc))"
    for ms and acc :: "'a Storage \<times> MountUsage list"
    by (induction ms arbitrary: acc) (simp_all add: mounts_step_paths)
  then show "map mu_Path (snd (mountUsages os table c)) = fold add_path (concat (map (expected_paths table) (sc_mounts c))) []"
    by (simp add: mountUsages_def)
  have "sys_ok os \<Longrightarrow> list_all entry_ok (snd acc) \<Longrightarrow> list_all entry_ok (snd (fold (mounts_step os table) ms acc))"
    for ms and acc :: "'a Storage \<times> MountUsage list"
    by (induction ms arbitrary: acc) (simp_all add: mounts_step_entries)
  then show "sys_ok os \<Longrightarrow> list_all entry_ok (snd (mountUsages os table c))" by (simp add: mountUsages_def)
qed

text \<open>
  C14. Every configured mount is reported, once: the paths of the event are exactly those the config
  stands for, in config order with repeats dropped: a plain path itself, a wildcard its matches, or itself
  when it has none or the table could not be read. Each entry carries either sizes or an error.
\<close>

theorem storage_mounts_complete:
  assumes "sys_ok os"
  shows "let paths = map mu_Path (snd (mountUsages os table c));
             expected = concat (map (expected_paths table) (sc_mounts c))
     in distinct paths \<and> set paths = set expected \<and> subseq paths expected
        \<and> (\<forall>u \<in> set (snd (mountUsages os table c)). mu_DiskUsage u = None \<longleftrightarrow> mu_Error u \<noteq> [])"
  using fold_add_path [of "[]" "concat (map (expected_paths table) (sc_mounts c))"] mountUsages_paths(2) [OF assms, of table c]
  by (simp add: Let_def mountUsages_paths(1) list_all_iff entry_ok_def)

theorem storage_mounts_complete_witness:
  "distinct (map mu_Path (snd (mountUsages \<lparr>sy_returned = \<lambda>_. {}, sy_answer = \<lambda>_. None\<rparr> None
     (storage_New [''/'', ''/mnt/*'', ''/''] ''ch'' ''srv'' second ()))))"
  using storage_mounts_complete [of "\<lparr>sy_returned = \<lambda>_. {}, sy_answer = \<lambda>_. None\<rparr>" None
      "storage_New [''/'', ''/mnt/*'', ''/''] ''ch'' ''srv'' second ()"]
  by (simp add: sys_ok_def Let_def)

section \<open>The server total\<close>

definition readable :: "(bytes \<Rightarrow> bytes + Statfs_t) \<Rightarrow> Entry list \<Rightarrow> Usage list" where
  "readable read fs = filter (\<lambda>u. TotalBytes u \<noteq> 0)
     (concat (map (\<lambda>f. case read (en_Path f) of Inl _ \<Rightarrow> [] | Inr stat \<Rightarrow> [ToBytes (disk_Parse stat)]) fs))"

definition unreadable :: "(bytes \<Rightarrow> bytes + Statfs_t) \<Rightarrow> Entry list \<Rightarrow> bytes list" where
  "unreadable read fs = filter (\<lambda>p. \<not> is_ok (read p)) (map en_Path fs)"

lemma server_fold:
  "snd (fold (server_step read) fs (c, us, ms)) = (us @ readable read fs, ms @ unreadable read fs)"
proof (induction fs arbitrary: c us ms)
  case (Cons f fs)
  then show ?case
    by (cases "read (en_Path f)") (auto simp: server_step_def readable_def unreadable_def Let_def)
qed (simp add: readable_def unreadable_def)

lemma serverStorage_eq:
  "snd (serverStorage e table c) =
     (let fs = LocalFilesystems (table_entries table); us = readable (st_disk e) fs; ms = unreadable (st_disk e) fs
      in if us = [] then None
         else Some \<lparr>ss_DiskUsage = to_DiskUsage (Total us), ss_Partial = (ms \<noteq> []), ss_MissingPaths = sort ms\<rparr>)"
proof -
  let ?f = "fold (server_step (st_disk e)) (LocalFilesystems (table_entries table)) (c, [], [])"
  have f: "snd ?f = ([] @ readable (st_disk e) (LocalFilesystems (table_entries table)),
      [] @ unreadable (st_disk e) (LocalFilesystems (table_entries table)))" by (rule server_fold)
  then show ?thesis by (simp add: serverStorage_def split_beta Let_def)
qed

text \<open>
  What a disk reports, in bytes: \<open>0\<close> if it cannot be read. \<open>figures\<close> is what each disk would report, by its
  device; a disk of \<open>fs\<close> is \<open>visible\<close> if no other one of \<open>fs\<close> is mounted on its path and the stat of its mount point
  reads it, and not a filesystem mounted on top of it.
\<close>

definition reported :: "(Statfs_t \<Rightarrow> nat) \<Rightarrow> bytes + Statfs_t \<Rightarrow> nat" where
  "reported g r = (case r of Inl _ \<Rightarrow> 0 | Inr stat \<Rightarrow> g stat * unat (st_Frsize stat))"

definition visible :: "storage_env \<Rightarrow> (bytes \<Rightarrow> bytes + Statfs_t) \<Rightarrow> Entry list \<Rightarrow> Entry \<Rightarrow> bool" where
  "visible e figures fs f \<longleftrightarrow> st_disk e (en_Path f) = figures (en_Device f)
     \<and> (\<forall>f' \<in> set fs. en_Path f' = en_Path f \<longrightarrow> en_Device f' = en_Device f)"

definition sane_stat :: "bytes + Statfs_t \<Rightarrow> bool" where
  "sane_stat r \<longleftrightarrow> (case r of Inl _ \<Rightarrow> True | Inr stat \<Rightarrow> sane (disk_Parse stat))"

text \<open>A size of a disk's usage that is \<open>g\<close> blocks of it, and with it \<open>0\<close> for an empty disk.\<close>

definition size_of :: "(Usage \<Rightarrow> u64) \<Rightarrow> (Statfs_t \<Rightarrow> nat) \<Rightarrow> bool" where
  "size_of f g \<longleftrightarrow> (\<forall>st. sane (disk_Parse st) \<longrightarrow> unat (f (ToBytes (disk_Parse st))) = g st * unat (st_Frsize st)
     \<and> g st \<le> unat (st_Blocks st))"

lemma sizes: "size_of TotalBytes (\<lambda>st. unat (st_Blocks st))" "size_of UsedBytes (\<lambda>st. unat (st_Blocks st) - unat (st_Bfree st))"
  "size_of FreeBytes (\<lambda>st. unat (st_Bavail st))" "size_of ReservedBytes (\<lambda>st. unat (st_Bfree st) - unat (st_Bavail st))"
proof -
  have le: "unat (st_Bavail st) \<le> unat (st_Blocks st)" "unat (st_Bfree st) - unat (st_Bavail st) \<le> unat (st_Blocks st)"
    if "sane (disk_Parse st)" for st
    using that unfolding sane_def disk_Parse_def by (auto simp: word_le_nat_alt)
  show "size_of TotalBytes (\<lambda>st. unat (st_Blocks st))" "size_of UsedBytes (\<lambda>st. unat (st_Blocks st) - unat (st_Bfree st))"
    "size_of FreeBytes (\<lambda>st. unat (st_Bavail st))" "size_of ReservedBytes (\<lambda>st. unat (st_Bfree st) - unat (st_Bavail st))"
    unfolding size_of_def by (auto simp: ToBytes_unat le) (simp_all add: disk_Parse_def)
qed

lemma readable_Cons:
  "readable read (f # fs) = (case read (en_Path f) of Inl _ \<Rightarrow> []
     | Inr stat \<Rightarrow> if TotalBytes (ToBytes (disk_Parse stat)) = 0 then [] else [ToBytes (disk_Parse stat)]) @ readable read fs"
  by (simp add: readable_def split: sum.split)

lemma sum_of_append: "sum_of f (us @ vs) = sum_of f us + sum_of f vs"
  by (simp add: sum_of_def)

lemma sum_readable:
  assumes "size_of f g" "distinct (map en_Device fs)" "\<forall>x \<in> set fs. st_disk e (en_Path x) = figures (en_Device x) \<and> sane_stat (figures (en_Device x))"
  shows "sum_of f (readable (st_disk e) fs) = (\<Sum>d \<in> en_Device ` set fs. reported g (figures d))"
  using assms(2,3)
proof (induction fs)
  case (Cons x fs)
  have x: "st_disk e (en_Path x) = figures (en_Device x)" "sane_stat (figures (en_Device x))"
    using Cons.prems(2) by simp_all
  have "sum_of f (readable (st_disk e) [x]) = reported g (figures (en_Device x))"
  proof (cases "figures (en_Device x)")
    case (Inr st)
    then have st: "sane (disk_Parse st)" using x(2) by (simp add: sane_stat_def)
    have s: "unat (f (ToBytes (disk_Parse st))) = g st * unat (st_Frsize st)" "g st \<le> unat (st_Blocks st)"
      "unat (TotalBytes (ToBytes (disk_Parse st))) = unat (st_Blocks st) * unat (st_Frsize st)"
      using assms(1) sizes(1) st by (simp_all add: size_of_def)
    have "g st * unat (st_Frsize st) = 0" if "TotalBytes (ToBytes (disk_Parse st)) = 0"
      using s(2) s(3) [unfolded that] by auto
    then show ?thesis using s(1) by (simp add: readable_Cons x(1) Inr reported_def sum_of_def) (simp add: readable_def)
  qed (simp add: readable_def x(1) reported_def sum_of_def)
  moreover have "readable (st_disk e) (x # fs) = readable (st_disk e) [x] @ readable (st_disk e) fs"
    by (simp add: readable_def)
  moreover have "en_Device x \<notin> en_Device ` set fs" using Cons.prems(1) by simp
  ultimately show ?case using Cons by (simp add: sum_of_append)
qed (simp add: readable_def sum_of_def)

lemma sum_of_eq_0: "sum_of TotalBytes (readable read fs) = 0 \<longleftrightarrow> readable read fs = []"
proof -
  have "\<forall>u \<in> set (readable read fs). TotalBytes u \<noteq> 0" by (simp add: readable_def)
  then show ?thesis by (cases "readable read fs") (auto simp: sum_of_def unat_eq_zero)
qed

text \<open>
  C15. The server total counts each local disk of the mount table once: if every one is visible at its mount point (no two of
  them on one path, nothing mounted on top) and reports figures that make sense, and the sum fits 64 bits, then total, used, free and reserved bytes are the exact sums of
  what the readable disks report, and the percentage is that of the summed bytes, between 0 and 100. The total is left out exactly when that sum is 0. It
  is marked partial exactly when some local disk could not be read, and names the mount points of those, sorted. (A disk that is
  not visible, under another one mounted on the same path, is the case of \<open>overmounted_disk_counted_twice\<close> below.)
\<close>

theorem storage_server_total:
  assumes "\<forall>f \<in> set (LocalFilesystems (table_entries table)). visible e figures (LocalFilesystems (table_entries table)) f"
    and "\<forall>d \<in> server_devices (table_entries table). sane_stat (figures d)"
    and "(\<Sum>d \<in> server_devices (table_entries table). reported (\<lambda>st. unat (st_Blocks st)) (figures d)) < 2 ^ 64"
  shows "let disks = server_devices (table_entries table);
             sum = (\<lambda>g. \<Sum>d \<in> disks. reported g (figures d))
     in case snd (serverStorage e table c) of
          None \<Rightarrow> sum (\<lambda>st. unat (st_Blocks st)) = 0
        | Some s \<Rightarrow>
            let u = ss_DiskUsage s
            in 0 < sum (\<lambda>st. unat (st_Blocks st))
               \<and> unat (du_TotalBytes u) = sum (\<lambda>st. unat (st_Blocks st))
               \<and> unat (du_UsedBytes u) = sum (\<lambda>st. unat (st_Blocks st) - unat (st_Bfree st))
               \<and> unat (du_FreeBytes u) = sum (\<lambda>st. unat (st_Bavail st))
               \<and> unat (du_ReservedBytes u) = sum (\<lambda>st. unat (st_Bfree st) - unat (st_Bavail st))
               \<and> 0 \<le> du_UsedPercent u \<and> du_UsedPercent u \<le> 100
               \<and> (0 < du_UsedBytes u + du_FreeBytes u \<longrightarrow>
                    du_UsedPercent u = percent_of (du_UsedBytes u) (du_UsedBytes u + du_FreeBytes u))
               \<and> (ss_Partial s \<longleftrightarrow> (\<exists>d \<in> disks. \<not> is_ok (figures d)))
               \<and> sorted (ss_MissingPaths s)
               \<and> set (ss_MissingPaths s) =
                   {en_Path f |f. f \<in> set (LocalFilesystems (table_entries table)) \<and> \<not> is_ok (figures (en_Device f))}"
proof -
  let ?fs = "LocalFilesystems (table_entries table)"
  let ?us = "readable (st_disk e) ?fs" and ?ms = "unreadable (st_disk e) ?fs"
  note dev = LocalFilesystems_devices [of "table_entries table"]
  have v: "st_disk e (en_Path f) = figures (en_Device f)" if "f \<in> set ?fs" for f
    using bspec [OF assms(1) that] unfolding visible_def by (rule conjunct1)
  have ok: "\<forall>x \<in> set ?fs. st_disk e (en_Path x) = figures (en_Device x) \<and> sane_stat (figures (en_Device x))"
    using v assms(2) [folded dev] by blast
  note sums = sum_readable [OF _ LocalFilesystems_distinct ok, unfolded dev]
  have "\<forall>u \<in> set ?us. unat (UsedBytes u) + unat (FreeBytes u) + unat (ReservedBytes u) = unat (TotalBytes u)"
    using ok ToBytes_sum by (auto simp: readable_def sane_stat_def split: sum.splits)
  note tot = Total_sums [OF this]
  have lt: "sum_of TotalBytes ?us < 2 ^ 64" using assms(3) sums [OF sizes(1)] by simp
  have missing: "set ?ms = {en_Path f |f. f \<in> set ?fs \<and> \<not> is_ok (figures (en_Device f))}"
    using v by (auto simp: unreadable_def)
  have partial: "?ms \<noteq> [] \<longleftrightarrow> (\<exists>d \<in> server_devices (table_entries table). \<not> is_ok (figures d))"
    unfolding set_empty [symmetric] missing dev [symmetric] by auto
  show ?thesis
  proof (cases "?us = []")
    case True
    then show ?thesis using sums [OF sizes(1)] by (simp add: serverStorage_eq Let_def sum_of_def)
  next
    case False
    then have "0 < sum_of TotalBytes ?us" using sum_of_eq_0 by blast
    moreover have "snd (serverStorage e table c) = Some \<lparr>ss_DiskUsage = to_DiskUsage (Total ?us), ss_Partial = (?ms \<noteq> []), ss_MissingPaths = sort ?ms\<rparr>"
      using False by (simp add: serverStorage_eq Let_def)
    ultimately show ?thesis
      using tot [OF lt] percent_used_bounds [OF tot(4) [OF lt]] sums [OF sizes(1)] sums [OF sizes(2)] sums [OF sizes(3)] sums [OF sizes(4)]
      unfolding Let_def by (simp add: to_DiskUsage_def missing partial Total_percent Let_def)
  qed
qed

definition example_disk :: Entry where
  "example_disk = \<lparr>en_Device = ''/dev/sda1'', en_Path = ''/'', en_FSType = ''ext4''\<rparr>"

definition example_statfs :: Statfs_t where
  "example_statfs = \<lparr>st_Blocks = 1000, st_Bfree = 400, st_Bavail = 350, st_Frsize = 4096\<rparr>"

definition example_env :: storage_env where
  "example_env = \<lparr>st_stamp = [], st_table = Inl [], st_disk = \<lambda>_. Inr example_statfs,
     st_sys = \<lparr>sy_returned = \<lambda>_. {}, sy_answer = \<lambda>_. None\<rparr>\<rparr>"

lemma LocalFilesystems_example: "LocalFilesystems [example_disk] = [example_disk]"
  by (simp add: LocalFilesystems_def is_server_disk_def IsLocal_def localTypes_def HasPrefix_def example_disk_def)

lemma readable_example: "readable (st_disk example_env) [f] = [ToBytes (disk_Parse example_statfs)]"
  by (simp add: readable_def example_env_def example_statfs_def disk_Parse_def ToBytes_def Let_def)

theorem storage_server_total_witness:
  "\<exists>s. snd (serverStorage example_env (Some [example_disk]) (storage_New [] ''ch'' ''srv'' second ())) = Some s
     \<and> unat (du_TotalBytes (ss_DiskUsage s)) = 4096000 \<and> \<not> ss_Partial s"
proof -
  let ?figures = "\<lambda>_. Inr example_statfs" and ?table = "Some [example_disk]" and ?c = "storage_New [] ''ch'' ''srv'' second ()"
  have es: "table_entries ?table = [example_disk]" by (simp add: table_entries_def)
  have dev: "server_devices [example_disk] = {''/dev/sda1''}"
    by (auto simp: server_devices_def example_disk_def is_server_disk_def IsLocal_def localTypes_def HasPrefix_def)
  have sum: "reported (\<lambda>st. unat (st_Blocks st)) (Inr example_statfs) = 4096000" by (simp add: reported_def example_statfs_def)
  have h: "\<forall>f \<in> set (LocalFilesystems (table_entries ?table)).
      visible example_env ?figures (LocalFilesystems (table_entries ?table)) f"
    "\<forall>d \<in> server_devices (table_entries ?table). sane_stat (?figures d)"
    "(\<Sum>d \<in> server_devices (table_entries ?table). reported (\<lambda>st. unat (st_Blocks st)) (?figures d)) < 2 ^ 64"
    by (simp_all add: es dev sum visible_def LocalFilesystems_example example_env_def sane_stat_def sane_def disk_Parse_def example_statfs_def)
      (simp_all add: reported_def)
  show ?thesis using storage_server_total [OF h, of ?c]
    by (cases "snd (serverStorage example_env ?table ?c)") (simp_all add: Let_def es dev sum)
qed

text \<open>
  Two disks mounted on the same path are two devices, but a stat of the path reads the one on top: it
  is counted twice, and the one below not at all.
\<close>

lemma overmounted_disk_counted_twice:
  assumes "st_disk e ''/data'' = Inr example_statfs"
  shows "\<exists>s. snd (serverStorage e (Some [\<lparr>en_Device = ''/dev/sda1'', en_Path = ''/data'', en_FSType = ''ext4''\<rparr>,
      \<lparr>en_Device = ''/dev/sdb1'', en_Path = ''/data'', en_FSType = ''ext4''\<rparr>]) c) = Some s
     \<and> unat (du_TotalBytes (ss_DiskUsage s)) = 2 * 4096000"
proof -
  let ?a = "\<lparr>en_Device = ''/dev/sda1'', en_Path = ''/data'', en_FSType = ''ext4''\<rparr> :: Entry"
  let ?b = "\<lparr>en_Device = ''/dev/sdb1'', en_Path = ''/data'', en_FSType = ''ext4''\<rparr> :: Entry"
  have fs: "LocalFilesystems (table_entries (Some [?a, ?b])) = [?a, ?b]"
    by (simp add: table_entries_def LocalFilesystems_def is_server_disk_def IsLocal_def localTypes_def HasPrefix_def)
  have r: "readable (st_disk e) [?a, ?b] = [ToBytes (disk_Parse example_statfs), ToBytes (disk_Parse example_statfs)]"
    by (simp add: readable_def assms example_statfs_def disk_Parse_def ToBytes_def Let_def)
  have "TotalBytes (Total [ToBytes (disk_Parse example_statfs), ToBytes (disk_Parse example_statfs)]) = 8192000"
    by (simp add: Total_fields sum_of_def ToBytes_def disk_Parse_def example_statfs_def Let_def)
  then show ?thesis by (simp add: serverStorage_eq Let_def fs r to_DiskUsage_def)
qed

section \<open>Publishing\<close>

lemma note_simps [simp]:
  "sc_world (note_failing p ok c) = sc_world c" "sc_channel (note_failing p ok c) = sc_channel c"
  "sc_serverID (note_failing p ok c) = sc_serverID c" "sc_mounts (note_failing p ok c) = sc_mounts c"
  "sc_world (note_mountFailing p ok c) = sc_world c" "sc_channel (note_mountFailing p ok c) = sc_channel c"
  "sc_serverID (note_mountFailing p ok c) = sc_serverID c"
  by (simp_all add: note_failing_def note_mountFailing_def split_beta)

abbreviation same_target :: "'w Storage \<Rightarrow> 'w Storage \<Rightarrow> bool" where
  "same_target c c' \<equiv> sc_world c = sc_world c' \<and> sc_channel c = sc_channel c' \<and> sc_serverID c = sc_serverID c'"

lemma server_target: "same_target (fst (serverStorage e table c)) c"
proof -
  have "same_target (fst (fold (server_step read) fs acc)) (fst acc)"
    for read and fs and acc :: "'a Storage \<times> Usage list \<times> bytes list"
  proof (induction fs arbitrary: acc)
    case (Cons f fs)
    have "same_target (fst (server_step read f acc)) (fst acc)"
      by (auto simp: server_step_def split_beta Let_def split: sum.split)
    then show ?case using Cons.IH [of "server_step read f acc"] by simp
  qed simp
  from this [of "st_disk e" _ "(c, [], [])"] show ?thesis by (simp add: serverStorage_def split_beta)
qed

lemma mountUsage_target: "same_target (fst (mountUsage os table path c)) c"
  by (simp add: mountUsage_def Let_def split_beta split: sum.split)

lemma match_target: "same_target (fst (match_usages os table path ms acc)) (fst acc)"
proof (induction ms arbitrary: acc)
  case (Cons m ms)
  show ?case unfolding match_usages_step using Cons.IH mountUsage_target by simp
qed simp

lemma mounts_target: "same_target (fst (mountUsages os table c)) c"
proof -
  have "same_target (fst (fold (mounts_step os table) ms acc)) (fst acc)"
    for ms and acc :: "'a Storage \<times> MountUsage list"
  proof (induction ms arbitrary: acc)
    case (Cons m ms)
    have "same_target (fst (mounts_step os table m acc)) (fst acc)"
      using mountUsage_target [of os table m "fst acc"] match_target [of os table m _ "(fst acc, snd acc)"]
      by (auto simp: mounts_step_def split_beta split: option.split list.split)
    then show ?case using Cons.IH [of "mounts_step os table m acc"] by simp
  qed simp
  from this [of _ "(c, [])"] show ?thesis by (simp add: mountUsages_def)
qed

lemma event_target: "same_target (fst (storage_event e c)) c"
  by (simp add: storage_event_def Let_def split_beta mounts_target server_target)

interpretation storage_ticks: ticking "storage_collect PublishBatch" "\<lambda>c. wire (sc_world c)"
  "\<lambda>c. (sc_channel c, sc_serverID c)" "\<lambda>_. True"
proof
  fix e and s :: "redis Storage"
  obtain j where j: "StorageEvent_json (snd (storage_event e s)) = Some j" by (simp add: StorageEvent_json_def)
  have "se_ServerID (snd (storage_event e s)) = sc_serverID s" by (simp add: storage_event_def Let_def split_beta)
  then have "belongs (sc_channel s, sc_serverID s) (sc_channel s, j)"
    using j by (auto simp: belongs_def StorageEvent_json_def)
  then show "\<exists>p. wire (sc_world (storage_collect PublishBatch e s)) = wire (sc_world s) @ [p]
      \<and> belongs (sc_channel s, sc_serverID s) p"
    using event_target [of e s] by (intro exI [of _ "(sc_channel s, j)"]) (simp add: storage_collect_def split_beta j)
  show "(sc_channel (storage_collect PublishBatch e s), sc_serverID (storage_collect PublishBatch e s))
      = (sc_channel s, sc_serverID s)"
    using event_target [of e s] by (simp add: storage_collect_def split_beta split: option.split)
qed simp

text \<open>
  The storage collector publishes exactly one event a tick, however many mounts are dead: a tick
  always returns and always publishes, on its channel and with its server id.
\<close>

theorem storage_one_event_per_tick:
  "\<exists>ps. wire (sc_world (storage_Run PublishBatch cancelled first es c)) = wire (sc_world c) @ ps
     \<and> length ps = length (run_fired cancelled (sc_interval c) first es)
     \<and> list_all (belongs (sc_channel c, sc_serverID c)) ps"
  using storage_ticks.run_published [of cancelled "sc_interval c" first es c]
  by (simp add: storage_Run_def)

end
