(* ===== verification/GoTime.thy ===== *)
theory GoTime
  imports GoText Float64
begin

text \<open>
  \<^verbatim>\<open>time.ParseDuration\<close>: a sign, then numbers with units. Whole parts are exact integers below \<open>2^63\<close>, with
  Go's overflow checks; a fraction is scaled in \<open>float64\<close> and truncated.
\<close>

datatype duration_error = ErrDuration

fun leadingInt :: "nat \<Rightarrow> bytes \<Rightarrow> (nat \<times> bytes) option" where
  "leadingInt x [] = Some (x, [])"
| "leadingInt x (c # cs) =
     (if \<not> is_digit c then Some (x, c # cs)
      else if 2 ^ 63 div 10 < x then None
      else let x = x * 10 + (byte_nat c - 48) in if 2 ^ 63 < x then None else leadingInt x cs)"

text \<open>The digits of a fraction, its scale, and what follows; digits beyond the range are dropped.\<close>

fun leadingFraction :: "nat \<Rightarrow> nat \<Rightarrow> bool \<Rightarrow> bytes \<Rightarrow> nat \<times> nat \<times> bytes" where
  "leadingFraction x scale overflow [] = (x, scale, [])"
| "leadingFraction x scale overflow (c # cs) =
     (if \<not> is_digit c then (x, scale, c # cs)
      else if overflow \<or> (2 ^ 63 - 1) div 10 < x then leadingFraction x scale True cs
      else let y = x * 10 + (byte_nat c - 48)
           in if 2 ^ 63 < y then leadingFraction x scale True cs
              else leadingFraction y (scale * 10) False cs)"

definition unitMap :: "(bytes \<times> nat) list" where
  "unitMap = [(''ns'', 1), (''us'', 1000), ([CHR 0xC2, CHR 0xB5, CHR ''s''], 1000),
     ([CHR 0xCE, CHR 0xBC, CHR ''s''], 1000), (''ms'', 1000000), (''s'', 1000000000),
     (''m'', 60000000000), (''h'', 3600000000000)]"

definition unit_byte :: "char \<Rightarrow> bool" where
  "unit_byte c \<longleftrightarrow> c \<noteq> CHR ''.'' \<and> \<not> is_digit c"

text \<open>One number with its unit: its nanoseconds and what follows.\<close>

definition duration_term :: "bytes \<Rightarrow> (nat \<times> bytes) option" where
  "duration_term s =
     (if s = [] \<or> \<not> (hd s = CHR ''.'' \<or> is_digit (hd s)) then None
      else case leadingInt 0 s of
        None \<Rightarrow> None
      | Some (v, s1) \<Rightarrow>
          let pre = (length s1 \<noteq> length s);
              (f, scale, s2, post) =
                (if s1 \<noteq> [] \<and> hd s1 = CHR ''.''
                 then (case leadingFraction 0 1 False (tl s1) of (f, scale, r) \<Rightarrow> (f, scale, r, length r \<noteq> length (tl s1)))
                 else (0, 1, s1, False));
              u = takeWhile unit_byte s2; rest = dropWhile unit_byte s2
          in if \<not> pre \<and> \<not> post then None
             else if u = [] then None
             else case map_of unitMap u of
                None \<Rightarrow> None
              | Some unit \<Rightarrow>
                  if 2 ^ 63 div unit < v then None
                  else let v = v * unit
                       in if f = 0 then Some (v, rest)
                          else let v = v + nat \<lfloor>fmul (of_i64 (int f)) (fdiv (of_i64 (int unit)) (of_i64 (int scale)))\<rfloor>
                               in if 2 ^ 63 < v then None else Some (v, rest))"

lemma leadingInt_length: "leadingInt x s = Some (v, r) \<Longrightarrow> length r \<le> length s"
proof (induction s arbitrary: x)
  case (Cons c cs)
  then show ?case by (auto simp: Let_def intro: le_SucI split: if_splits)
qed simp

lemma leadingFraction_length: "leadingFraction x sc ov s = (f, sc', r) \<Longrightarrow> length r \<le> length s"
proof (induction s arbitrary: x sc ov)
  case (Cons c cs)
  then show ?case by (auto simp: Let_def intro: le_SucI split: if_splits)
qed simp

lemma dropWhile_shorter: "takeWhile P s \<noteq> [] \<Longrightarrow> length (dropWhile P s) < length s"
  using arg_cong [OF takeWhile_dropWhile_id [of P s], of length] by (cases "takeWhile P s") auto

lemma duration_term_shorter:
  assumes "duration_term s = Some (v, rest)"
  shows "length rest < length s"
proof -
  obtain v0 s1 where l: "leadingInt 0 s = Some (v0, s1)"
    using assms by (auto simp: duration_term_def split: if_splits option.splits)
  let ?x = "if s1 \<noteq> [] \<and> hd s1 = CHR ''.'' then (case leadingFraction 0 1 False (tl s1) of (f, scale, r) \<Rightarrow> (f, scale, r, length r \<noteq> length (tl s1))) else (0, 1, s1, False)"
  obtain f sc s2 post where x: "?x = (f, sc, s2, post)" by (cases ?x rule: prod_cases4)
  have "length s2 \<le> length s1"
  proof (cases "s1 \<noteq> [] \<and> hd s1 = CHR ''.''")
    case True
    obtain f' sc' r where "leadingFraction 0 1 False (tl s1) = (f', sc', r)" by (metis prod_cases3)
    then show ?thesis using x True leadingFraction_length by fastforce
  qed (use x in auto)
  moreover have "takeWhile unit_byte s2 \<noteq> [] \<and> rest = dropWhile unit_byte s2"
    using assms l x by (auto simp: duration_term_def Let_def split: if_splits option.splits)
  ultimately show ?thesis using dropWhile_shorter [of unit_byte s2] leadingInt_length [OF l] by simp
qed

function duration_terms :: "nat \<Rightarrow> bytes \<Rightarrow> nat option" where
  "duration_terms d s =
     (if s = [] then Some d
      else case duration_term s of
        None \<Rightarrow> None
      | Some (v, rest) \<Rightarrow>
          let d = (d + v) mod 2 ^ 64 in if 2 ^ 63 < d then None else duration_terms d rest)"
  by pat_completeness auto
termination
  by (relation "measure (\<lambda>(d, s). length s)") (auto dest: duration_term_shorter)

declare duration_terms.simps [simp del]

definition ParseDuration :: "bytes \<Rightarrow> duration_error + duration" where
  "ParseDuration s0 =
     (let neg = (s0 \<noteq> [] \<and> hd s0 = CHR ''-'');
          s = (if s0 \<noteq> [] \<and> (hd s0 = CHR ''-'' \<or> hd s0 = CHR ''+'') then tl s0 else s0)
      in if s = ''0'' then Inr 0
         else if s = [] then Inl ErrDuration
         else case duration_terms 0 s of
           None \<Rightarrow> Inl ErrDuration
         | Some d \<Rightarrow>
             if neg then Inr (- int d) else if 2 ^ 63 - 1 < d then Inl ErrDuration else Inr (int d))"

section \<open>A whole number of one unit\<close>

lemma leadingInt_show_nat:
  assumes "n \<le> 2 ^ 63" "s = [] \<or> \<not> is_digit (hd s)"
  shows "leadingInt 0 (show_nat n @ s) = Some (n, s)"
  using assms
proof (induction n arbitrary: s rule: show_nat.induct)
  case (1 n)
  have stop: "leadingInt x s = Some (x, s)" for x using "1.prems"(2) by (cases s) auto
  have app: "leadingInt x (a @ b) = (case leadingInt x a of None \<Rightarrow> None | Some (y, []) \<Rightarrow> leadingInt y b
      | Some (y, r) \<Rightarrow> Some (y, r @ b))" for x a b
    by (induction x a rule: leadingInt.induct) (auto simp: Let_def)
  show ?case
  proof (cases "n < 10")
    case True
    then show ?thesis using is_digit_char_of [of n] stop by (simp add: show_nat.simps)
  next
    case False
    let ?d = "n mod 10"
    have d: "is_digit (char_of (48 + ?d))" "byte_nat (char_of (48 + ?d)) = 48 + ?d"
      using is_digit_char_of [of ?d] by simp_all
    have IH: "leadingInt 0 (show_nat (n div 10) @ []) = Some (n div 10, [])"
      using 1 False by (intro "1.IH") auto
    have "n div 10 \<le> 2 ^ 63 div 10" using "1.prems"(1) by (rule div_le_mono)
    then have "leadingInt (n div 10) (char_of (48 + ?d) # s) = Some (n, s)"
      using d "1.prems"(1) stop by (simp add: Let_def)
    then show ?thesis using False IH by (subst show_nat.simps) (simp add: app)
  qed
qed

lemma ParseDuration_whole:
  assumes "map_of unitMap u = Some unit" "list_all unit_byte u" "u \<noteq> []" "n * unit < 2 ^ 63" "0 < unit"
  shows "ParseDuration (show_nat n @ u) = Inr (int (n * unit))"
proof -
  obtain c ds where cd: "show_nat n = c # ds" using show_nat_not_Nil by (cases "show_nat n") auto
  have dig: "is_digit c" using list_all_digit_show_nat [of n] by (simp add: cd)
  then have c: "c \<noteq> CHR ''-''" "c \<noteq> CHR ''+''" "c \<noteq> CHR ''.''" by (auto simp: is_digit_def in_range_def)
  have hdu: "\<not> is_digit (hd u)" "hd u \<noteq> CHR ''.''" using assms(2,3) by (cases u; simp add: unit_byte_def)+
  have le: "n \<le> 2 ^ 63 div unit" using assms(4,5) by (simp add: less_eq_div_iff_mult_less_eq)
  then have n: "n \<le> 2 ^ 63" using div_le_dividend le_trans by blast
  have l: "leadingInt 0 (show_nat n @ u) = Some (n, u)" using n hdu by (intro leadingInt_show_nat) auto
  have tw: "takeWhile unit_byte u = u" "dropWhile unit_byte u = []" using assms(2) by (simp_all add: list_all_iff)
  have t: "duration_term (show_nat n @ u) = Some (n * unit, [])"
    using dig hdu le assms(1,3) l by (simp add: duration_term_def cd tw Let_def not_less)
  have "duration_terms 0 (show_nat n @ u) = Some (n * unit)"
    using t assms(4) by (subst duration_terms.simps) (simp add: cd Let_def duration_terms.simps [of _ "[]"])
  moreover have "show_nat n @ u \<noteq> ''0''" using assms(3) by (cases ds; cases u) (auto simp: cd)
  ultimately show ?thesis using c assms(3,4) by (simp add: ParseDuration_def cd Let_def)
qed

end
