(* ===== verification/Config.thy ===== *)
theory Config
  imports GoDecode GoPath GoTime Interfaces
begin

text \<open>
  \<^verbatim>\<open>src/config\<close>: the configuration with its defaults and validation, and where it is loaded from. The error
  messages are the constructors of \<open>config_error\<close>, one for each message. A JSON file is decoded here; the
  decoder of YAML files, third-party code, and the wording of the JSON decoder's errors are inputs of \<open>Load\<close>.
\<close>

record RedisConfig =
  rd_Addr :: bytes
  rd_Password :: bytes
  rd_DB :: int

record LogFileConfig =
  lf_Path :: bytes
  lf_Channel :: bytes

record LogTailerConfig =
  lt_Enabled :: bool
  lt_Files :: "LogFileConfig list"

record TimedConfig =
  tc_Enabled :: bool
  tc_Channel :: bytes
  tc_Interval :: bytes

record StorageConfig = TimedConfig +
  so_Mounts :: "bytes list"

record HeartbeatConfig =
  hb_Enabled :: "bool option"
  hb_Channel :: bytes
  hb_Interval :: bytes

record AppConfig =
  ac_Redis :: RedisConfig
  ac_ServerID :: bytes
  ac_LogTailer :: LogTailerConfig
  ac_Resources :: TimedConfig
  ac_Storage :: StorageConfig
  ac_Heartbeat :: HeartbeatConfig
  ac_Docker :: TimedConfig
  ac_Postgres :: TimedConfig

definition IsEnabled :: "HeartbeatConfig \<Rightarrow> bool" where
  "IsEnabled h = (case hb_Enabled h of None \<Rightarrow> True | Some b \<Rightarrow> b)"

definition DefaultHeartbeatInterval :: bytes where
  "DefaultHeartbeatInterval = ''10s''"

definition DefaultHeartbeatChannel :: bytes where
  "DefaultHeartbeatChannel = ''agent-heartbeat''"

definition applyDefaults :: "AppConfig \<Rightarrow> AppConfig" where
  "applyDefaults c0 =
     (let c = (if hb_Interval (ac_Heartbeat c0) = []
               then c0\<lparr>ac_Heartbeat := (ac_Heartbeat c0)\<lparr>hb_Interval := DefaultHeartbeatInterval\<rparr>\<rparr> else c0)
      in if hb_Channel (ac_Heartbeat c) = []
         then c\<lparr>ac_Heartbeat := (ac_Heartbeat c)\<lparr>hb_Channel := DefaultHeartbeatChannel\<rparr>\<rparr> else c)"

datatype config_error =
    AddrRequired | ServerIDRequired | FilesEmpty | FilePathEmpty | FilePatternBad bytes | FileChannelEmpty
  | ChannelRequired bytes | IntervalBad bytes | MountEmpty | MountPatternBad bytes

definition bad_interval :: "bytes \<Rightarrow> bool" where
  "bad_interval s = (case ParseDuration s of Inl _ \<Rightarrow> True | Inr d \<Rightarrow> d \<le> 0)"

fun validate_files :: "LogFileConfig list \<Rightarrow> config_error option" where
  "validate_files [] = None"
| "validate_files (f # fs) =
     (if lf_Path f = [] then Some FilePathEmpty
      else if \<not> is_ok (Match (lf_Path f) []) then Some (FilePatternBad (lf_Path f))
      else if lf_Channel f = [] then Some FileChannelEmpty
      else validate_files fs)"

fun validate_mounts :: "bytes list \<Rightarrow> config_error option" where
  "validate_mounts [] = None"
| "validate_mounts (m # ms) =
     (if m = [] then Some MountEmpty
      else if \<not> is_ok (Match m []) then Some (MountPatternBad m)
      else validate_mounts ms)"

definition validate_tailer :: "LogTailerConfig \<Rightarrow> config_error option" where
  "validate_tailer t =
     (if \<not> lt_Enabled t then None
      else if lt_Files t = [] then Some FilesEmpty else validate_files (lt_Files t))"

definition validate_timed :: "bytes \<Rightarrow> 'a TimedConfig_scheme \<Rightarrow> config_error option" where
  "validate_timed name t =
     (if \<not> tc_Enabled t then None
      else if tc_Channel t = [] then Some (ChannelRequired name)
      else if bad_interval (tc_Interval t) then Some (IntervalBad name) else None)"

definition validate_storage :: "StorageConfig \<Rightarrow> config_error option" where
  "validate_storage t =
     (case validate_timed ''storage'' t of
        Some err \<Rightarrow> Some err
      | None \<Rightarrow> if tc_Enabled t then validate_mounts (so_Mounts t) else None)"

definition validate_heartbeat :: "HeartbeatConfig \<Rightarrow> config_error option" where
  "validate_heartbeat h = (if IsEnabled h \<and> bad_interval (hb_Interval h) then Some (IntervalBad ''heartbeat'') else None)"

fun first_error :: "config_error option list \<Rightarrow> config_error option" where
  "first_error [] = None"
| "first_error (Some err # _) = Some err"
| "first_error (None # es) = first_error es"

definition Validate :: "AppConfig \<Rightarrow> AppConfig \<times> config_error option" where
  "Validate c0 =
     (let c = applyDefaults c0
      in (c, first_error
           [if rd_Addr (ac_Redis c) = [] then Some AddrRequired else None,
            if ac_ServerID c = [] then Some ServerIDRequired else None,
            validate_tailer (ac_LogTailer c),
            validate_timed ''resources'' (ac_Resources c),
            validate_storage (ac_Storage c),
            validate_timed ''docker'' (ac_Docker c),
            validate_timed ''database.postgres'' (ac_Postgres c),
            validate_heartbeat (ac_Heartbeat c)]))"

section \<open>Where the config comes from\<close>

definition defaultPath :: bytes where
  "defaultPath = ''config/config.json''"

fun resolve_args :: "bytes list \<Rightarrow> bytes option" where
  "resolve_args [] = None"
| "resolve_args (arg # args) =
     (if HasPrefix arg ''--config='' then Some (TrimPrefix arg ''--config='')
      else if arg = ''--config'' \<and> args \<noteq> [] then Some (hd args)
      else if \<not> HasPrefix arg ''-'' \<and> TrimSpace arg \<noteq> [] then Some arg
      else resolve_args args)"

definition ResolvePath :: "bytes \<Rightarrow> bytes list \<Rightarrow> bytes" where
  "ResolvePath env args =
     (case resolve_args args of
        Some path \<Rightarrow> path
      | None \<Rightarrow> if env \<noteq> [] then env else defaultPath)"

datatype load_error = CannotOpen bytes bytes | CannotParse bytes bytes | Invalid config_error

text \<open>The JSON names of the fields.\<close>

definition redis_fields :: "(bytes \<times> RedisConfig dec) list" where
  "redis_fields = [(''addr'', sub rd_Addr rd_Addr_update dec_string), (''password'', sub rd_Password rd_Password_update dec_string),
     (''db'', sub rd_DB rd_DB_update dec_int)]"

definition file_fields :: "(bytes \<times> LogFileConfig dec) list" where
  "file_fields = [(''path'', sub lf_Path lf_Path_update dec_string), (''channel'', sub lf_Channel lf_Channel_update dec_string)]"

definition tailer_fields :: "(bytes \<times> LogTailerConfig dec) list" where
  "tailer_fields = [(''enabled'', sub lt_Enabled lt_Enabled_update dec_bool),
     (''files'', sub lt_Files lt_Files_update (dec_slice \<lparr>lf_Path = [], lf_Channel = []\<rparr> (dec_struct file_fields)))]"

definition timed_fields :: "(bytes \<times> 'a TimedConfig_scheme dec) list" where
  "timed_fields = [(''enabled'', sub tc_Enabled tc_Enabled_update dec_bool), (''channel'', sub tc_Channel tc_Channel_update dec_string),
     (''interval'', sub tc_Interval tc_Interval_update dec_string)]"

definition storage_fields :: "(bytes \<times> StorageConfig dec) list" where
  "storage_fields = timed_fields @ [(''mounts'', sub so_Mounts so_Mounts_update (dec_slice [] dec_string))]"

definition heartbeat_fields :: "(bytes \<times> HeartbeatConfig dec) list" where
  "heartbeat_fields = [(''enabled'', sub hb_Enabled hb_Enabled_update (dec_ptr False dec_bool)),
     (''channel'', sub hb_Channel hb_Channel_update dec_string), (''interval'', sub hb_Interval hb_Interval_update dec_string)]"

definition AppConfig_fields :: "(bytes \<times> AppConfig dec) list" where
  "AppConfig_fields =
     [(''redis'', sub ac_Redis ac_Redis_update (dec_struct redis_fields)),
      (''identity'', dec_struct [(''serverId'', sub ac_ServerID ac_ServerID_update dec_string)]),
      (''logTailer'', sub ac_LogTailer ac_LogTailer_update (dec_struct tailer_fields)),
      (''resources'', sub ac_Resources ac_Resources_update (dec_struct timed_fields)),
      (''storage'', sub ac_Storage ac_Storage_update (dec_struct storage_fields)),
      (''heartbeat'', sub ac_Heartbeat ac_Heartbeat_update (dec_struct heartbeat_fields)),
      (''docker'', sub ac_Docker ac_Docker_update (dec_struct timed_fields)),
      (''database'', dec_struct [(''postgres'', sub ac_Postgres ac_Postgres_update (dec_struct timed_fields))])]"

definition AppConfig_zero :: AppConfig where
  "AppConfig_zero =
     (let timed = \<lparr>tc_Enabled = False, tc_Channel = [], tc_Interval = []\<rparr>
      in \<lparr>ac_Redis = \<lparr>rd_Addr = [], rd_Password = [], rd_DB = 0\<rparr>, ac_ServerID = [],
          ac_LogTailer = \<lparr>lt_Enabled = False, lt_Files = []\<rparr>, ac_Resources = timed,
          ac_Storage = \<lparr>tc_Enabled = False, tc_Channel = [], tc_Interval = [], so_Mounts = []\<rparr>,
          ac_Heartbeat = \<lparr>hb_Enabled = None, hb_Channel = [], hb_Interval = []\<rparr>, ac_Docker = timed, ac_Postgres = timed\<rparr>)"

definition config_Unmarshal :: "bytes \<Rightarrow> AppConfig option" where
  "config_Unmarshal data = Unmarshal (dec_struct AppConfig_fields) AppConfig_zero data"

definition Load ::
  "(bytes \<Rightarrow> bytes + bytes) \<Rightarrow> (bytes \<Rightarrow> bytes + AppConfig) \<Rightarrow> (bytes \<Rightarrow> bytes) \<Rightarrow> bytes \<Rightarrow> load_error + AppConfig" where
  "Load readFile unmarshal_yaml json_error path =
     (case readFile path of
        Inl err \<Rightarrow> Inl (CannotOpen path err)
      | Inr data \<Rightarrow>
          (case (if ToLower (Ext path) \<in> {''.yaml'', ''.yml''} then unmarshal_yaml data
                 else case config_Unmarshal data of None \<Rightarrow> Inl (json_error data) | Some cfg \<Rightarrow> Inr cfg) of
             Inl err \<Rightarrow> Inl (CannotParse path err)
           | Inr cfg \<Rightarrow>
               (case Validate cfg of
                  (cfg, Some err) \<Rightarrow> Inl (Invalid err)
                | (cfg, None) \<Rightarrow> Inr cfg)))"

section \<open>What a valid configuration promises\<close>

definition good_interval :: "bytes \<Rightarrow> bool" where
  "good_interval s \<longleftrightarrow> (\<exists>d > 0. ParseDuration s = Inr d)"

text \<open>A pattern that matches without an error, whatever name it is tried on.\<close>

definition good_pattern :: "bytes \<Rightarrow> bool" where
  "good_pattern p \<longleftrightarrow> p \<noteq> [] \<and> (\<forall>name. \<exists>b. Match p name = Inr b)"

definition good_timed :: "'a TimedConfig_scheme \<Rightarrow> bool" where
  "good_timed t \<longleftrightarrow> (tc_Enabled t \<longrightarrow> tc_Channel t \<noteq> [] \<and> good_interval (tc_Interval t))"

definition good_config :: "AppConfig \<Rightarrow> bool" where
  "good_config c \<longleftrightarrow> rd_Addr (ac_Redis c) \<noteq> [] \<and> ac_ServerID c \<noteq> []
     \<and> (lt_Enabled (ac_LogTailer c) \<longrightarrow> lt_Files (ac_LogTailer c) \<noteq> []
          \<and> (\<forall>f \<in> set (lt_Files (ac_LogTailer c)). good_pattern (lf_Path f) \<and> lf_Channel f \<noteq> []))
     \<and> good_timed (ac_Resources c) \<and> good_timed (ac_Storage c) \<and> good_timed (ac_Docker c) \<and> good_timed (ac_Postgres c)
     \<and> (tc_Enabled (ac_Storage c) \<longrightarrow> (\<forall>m \<in> set (so_Mounts (ac_Storage c)). good_pattern m))
     \<and> (hb_Enabled (ac_Heartbeat c) \<noteq> Some False \<longrightarrow> good_interval (hb_Interval (ac_Heartbeat c)))"

lemma IsEnabled_iff: "IsEnabled h \<longleftrightarrow> hb_Enabled h \<noteq> Some False"
  by (simp add: IsEnabled_def split: option.split)

lemma is_ok_iff: "is_ok r \<longleftrightarrow> (\<exists>x. r = Inr x)"
  by (cases r) auto

lemma good_pattern_iff: "good_pattern p \<longleftrightarrow> p \<noteq> [] \<and> is_ok (Match p [])"
  unfolding good_pattern_def is_ok_iff [symmetric] using Match_well_formed by blast

lemma bad_interval_iff: "bad_interval s \<longleftrightarrow> \<not> good_interval s"
  by (cases "ParseDuration s") (auto simp: bad_interval_def good_interval_def)

lemma validate_files_None:
  "validate_files fs = None \<longleftrightarrow> (\<forall>f \<in> set fs. good_pattern (lf_Path f) \<and> lf_Channel f \<noteq> [])"
  by (induction fs) (auto simp: good_pattern_iff)

lemma validate_mounts_None: "validate_mounts ms = None \<longleftrightarrow> (\<forall>m \<in> set ms. good_pattern m)"
  by (induction ms) (auto simp: good_pattern_iff)

lemma validate_timed_None: "validate_timed name t = None \<longleftrightarrow> good_timed t"
  by (auto simp: validate_timed_def good_timed_def bad_interval_iff)

lemma first_error_None: "first_error es = None \<longleftrightarrow> (\<forall>e \<in> set es. e = None)"
  by (induction es rule: first_error.induct) auto

lemma validate_tailer_None:
  "validate_tailer t = None \<longleftrightarrow> (lt_Enabled t \<longrightarrow> lt_Files t \<noteq> []
     \<and> (\<forall>f \<in> set (lt_Files t). good_pattern (lf_Path f) \<and> lf_Channel f \<noteq> []))"
  by (simp add: validate_tailer_def validate_files_None)

lemma validate_storage_None:
  "validate_storage t = None \<longleftrightarrow> good_timed t \<and> (tc_Enabled t \<longrightarrow> (\<forall>m \<in> set (so_Mounts t). good_pattern m))"
  unfolding validate_timed_None [symmetric, of _ "''storage''"]
  by (simp add: validate_storage_def validate_mounts_None split: option.split)

lemma validate_heartbeat_None: "validate_heartbeat h = None \<longleftrightarrow> (hb_Enabled h \<noteq> Some False \<longrightarrow> good_interval (hb_Interval h))"
  by (simp add: validate_heartbeat_def bad_interval_iff IsEnabled_iff)

lemma Validate_None: "snd (Validate c) = None \<longleftrightarrow> good_config (applyDefaults c)"
  unfolding Validate_def Let_def snd_conv first_error_None good_config_def
  by (simp add: validate_tailer_None validate_storage_None validate_heartbeat_None validate_timed_None) blast

lemma applyDefaults_idem: "applyDefaults (applyDefaults c) = applyDefaults c"
  by (simp add: applyDefaults_def Let_def DefaultHeartbeatInterval_def DefaultHeartbeatChannel_def)

lemma applyDefaults_heartbeat:
  "hb_Channel (ac_Heartbeat (applyDefaults c)) \<noteq> []" "hb_Interval (ac_Heartbeat (applyDefaults c)) \<noteq> []"
  by (simp_all add: applyDefaults_def Let_def DefaultHeartbeatInterval_def DefaultHeartbeatChannel_def)

lemma Validate_fst: "fst (Validate c) = applyDefaults c"
  by (simp add: Validate_def Let_def)

text \<open>
  C37. Validation accepts exactly the usable configurations: it reports no problem if and only if, after
  defaults, the Redis address and server id are set, and everything enabled (the heartbeat unless it is switched off) has
  a channel, an interval that parses to a positive duration, and patterns that no file name can make fail. The
  configuration it returns is the one it was given, but for a heartbeat channel or interval that was left empty, which
  is now \<^verbatim>\<open>agent-heartbeat\<close> or \<^verbatim>\<open>10s\<close>; and validating it again changes nothing.
\<close>

theorem config_validate_exact:
  "let d = fst (Validate c); h = ac_Heartbeat c
   in (snd (Validate c) = None \<longleftrightarrow> good_config d)
      \<and> d = c\<lparr>ac_Heartbeat := \<lparr>hb_Enabled = hb_Enabled h,
             hb_Channel = (if hb_Channel h = [] then ''agent-heartbeat'' else hb_Channel h),
             hb_Interval = (if hb_Interval h = [] then ''10s'' else hb_Interval h)\<rparr>\<rparr>
      \<and> Validate d = Validate c"
proof -
  have "Validate (applyDefaults c) = Validate c" by (simp add: Validate_def applyDefaults_idem)
  moreover have "applyDefaults c = c\<lparr>ac_Heartbeat := \<lparr>hb_Enabled = hb_Enabled (ac_Heartbeat c),
      hb_Channel = (if hb_Channel (ac_Heartbeat c) = [] then ''agent-heartbeat'' else hb_Channel (ac_Heartbeat c)),
      hb_Interval = (if hb_Interval (ac_Heartbeat c) = [] then ''10s'' else hb_Interval (ac_Heartbeat c))\<rparr>\<rparr>"
    by (cases c; cases "ac_Heartbeat c") (simp add: applyDefaults_def Let_def DefaultHeartbeatInterval_def DefaultHeartbeatChannel_def)
  ultimately show ?thesis unfolding Let_def Validate_fst using Validate_None [of c] by blast
qed

text \<open>An argument that does not name a config: another flag, or an empty one.\<close>

definition other_flag :: "bytes \<Rightarrow> bool" where
  "other_flag a \<longleftrightarrow> HasPrefix a ''-'' \<and> \<not> HasPrefix a ''--config'' \<or> a = []"

text \<open>
  The configuration path is taken from the first usable command-line argument, then the environment,
  then the default: a \<^verbatim>\<open>--config=P\<close> or \<^verbatim>\<open>--config P\<close> behind other flags gives \<open>P\<close> whatever the environment says.
\<close>

theorem config_path_priority:
  assumes "list_all other_flag flags"
  shows "ResolvePath env (flags @ (''--config='' @ p) # rest) = p
     \<and> ResolvePath env (flags @ ''--config'' # p # rest) = p
     \<and> ResolvePath env flags = (if env = [] then defaultPath else env)"
proof -
  have nil: "TrimSpace [] = []"
    by (simp add: TrimSpace_def trim_left.simps [of "[]"] trim_right.simps [of "[]"] space_width_def)
  have skip: "resolve_args (flags @ args) = resolve_args args" for args
    using assms
  proof (induction flags)
    case (Cons a flags)
    have "\<not> HasPrefix a ''--config=''" "a \<noteq> ''--config''" "HasPrefix a ''-'' \<or> TrimSpace a = []"
      using Cons.prems nil by (auto simp: other_flag_def HasPrefix_iff prefix_def)
    then show ?case using Cons by auto
  qed simp
  have eq: "resolve_args ((''--config='' @ p) # rest) = Some p"
    using HasPrefix_append [of "''--config=''" p] by (simp add: TrimPrefix_def)
  have sp: "resolve_args (''--config'' # p # rest) = Some p" by (simp add: HasPrefix_def)
  have none: "resolve_args flags = None" using skip [of "[]"] by simp
  show ?thesis by (simp only: ResolvePath_def skip eq sp none option.case) simp
qed

theorem config_path_priority_witness:
  "ResolvePath ''/etc/agent.json'' [''-v'', ''--config=/tmp/a.yaml''] = ''/tmp/a.yaml''"
  using config_path_priority [of "[''-v'']" "''/etc/agent.json''" "''/tmp/a.yaml''" "[]"]
  by (simp add: other_flag_def HasPrefix_def)

section \<open>The heartbeat is on by default\<close>

lemma AppConfig_fields_keep:
  assumes "(n, u) \<in> set AppConfig_fields" "n \<noteq> ''heartbeat''" "u v r = Some r'"
  shows "ac_Heartbeat r' = ac_Heartbeat r"
proof -
  have nested: "ac_Heartbeat r' = ac_Heartbeat r"
    if "dec_struct [(k, sub get upd d)] v r = Some r'" "\<And>x r. ac_Heartbeat (upd (\<lambda>_. x) r) = ac_Heartbeat r"
    for k and get :: "AppConfig \<Rightarrow> 'b" and upd d
    using that by (auto simp: dec_struct_def sub_def split: jval.splits dest!: dec_fields_keep [where keep = ac_Heartbeat])
  show ?thesis using assms by (auto simp: AppConfig_fields_def sub_def dest: nested)
qed

text \<open>
  A JSON configuration that does not mention the heartbeat, in whatever case, gets it: enabled, every ten
  seconds, on the channel its consumers listen on.
\<close>

theorem heartbeat_on_by_default:
  assumes "readFile path = Inr data" "ToLower (Ext path) \<notin> {''.yaml'', ''.yml''}"
    and "json_text (VObj ps) data" "jval_ok (VObj ps)" "\<And>k v. (k, v) \<in> set ps \<Longrightarrow> fold_name (unquote_json k) \<noteq> ''HEARTBEAT''"
    and "Load readFile unmarshal_yaml json_error path = Inr cfg"
  shows "IsEnabled (ac_Heartbeat cfg) \<and> hb_Interval (ac_Heartbeat cfg) = ''10s'' \<and> hb_Channel (ac_Heartbeat cfg) = ''agent-heartbeat''"
proof -
  have hb: "fold_name ''heartbeat'' = ''HEARTBEAT''" by code_simp
  obtain cfg0 where c: "config_Unmarshal data = Some cfg0" "cfg = applyDefaults cfg0"
    using assms(1,2,6) Validate_fst
    by (auto simp: Load_def split: option.splits prod.splits sum.splits) (metis fst_conv)
  have "dec_fields AppConfig_fields ps AppConfig_zero = Some cfg0"
    using c(1) unfolding config_Unmarshal_def Unmarshal_text [OF assms(3,4)] by (simp add: dec_struct_def)
  then have "ac_Heartbeat cfg0 = ac_Heartbeat AppConfig_zero"
    by (rule dec_fields_keep) (metis AppConfig_fields_keep assms(5) hb)
  then show ?thesis
    by (simp add: c(2) applyDefaults_def Let_def AppConfig_zero_def IsEnabled_def DefaultHeartbeatInterval_def DefaultHeartbeatChannel_def)
qed

end
