(* ===== verification/Agent.thy ===== *)
theory Agent
  imports Config RedisPublisher
begin

text \<open>
  \<^verbatim>\<open>src/heartbeat/heartbeat.go\<close> and \<^verbatim>\<open>src/main.go\<close>: the liveness beat, the supervisor every component runs
  under, and which components a configuration starts.
\<close>

section \<open>The heartbeat\<close>

record 'w Emitter =
  em_payload :: json
  em_channel :: bytes
  em_interval :: duration
  em_world :: 'w

text \<open>
  Marshalling the fixed payload cannot fail; \<open>the\<close> stands for the ignored error.
\<close>

definition heartbeat_New :: "bytes \<Rightarrow> bytes \<Rightarrow> duration \<Rightarrow> 'w \<Rightarrow> 'w Emitter" where
  "heartbeat_New serverID channel interval w =
     \<lparr>em_payload = the (HeartbeatEvent_json \<lparr>he_ServerID = serverID\<rparr>), em_channel = channel,
      em_interval = interval, em_world = w\<rparr>"

definition beat :: "'w publish \<Rightarrow> unit \<Rightarrow> 'w Emitter \<Rightarrow> 'w Emitter" where
  "beat pb u e = e\<lparr>em_world := fst (pb (em_world e) (em_channel e) [em_payload e])\<rparr>"

definition heartbeat_Run :: "'w publish \<Rightarrow> duration option \<Rightarrow> unit select list \<Rightarrow> 'w Emitter \<Rightarrow> 'w Emitter" where
  "heartbeat_Run pb cancelled es e = run_ticks cancelled (em_interval e) (beat pb) () es e"

lemma beat_simps [simp]:
  "em_channel (beat pb u e) = em_channel e" "em_payload (beat pb u e) = em_payload e"
  "em_interval (beat pb u e) = em_interval e"
  by (simp_all add: beat_def)

lemma beats_wire:
  "wire (em_world (fold (beat PublishBatch) us e)) = wire (em_world e) @ replicate (length us) (em_channel e, em_payload e)"
proof (induction us arbitrary: e)
  case (Cons u us)
  have "wire (em_world (beat PublishBatch u e)) = wire (em_world e) @ [(em_channel e, em_payload e)]"
    by (simp add: beat_def redis_publisher.sent_one)
  then show ?case using Cons.IH [of "beat PublishBatch u e"] by simp
qed simp

text \<open>
  The beat is exactly periodic and never changes: a run publishes the same payload, the server id
  and nothing else, on its channel, once after startup and once per tick until cancelled, whatever
  Redis answers.
\<close>

theorem heartbeat_beats_every_tick:
  "wire (em_world (heartbeat_Run PublishBatch cancelled es (heartbeat_New sid ch iv w)))
     = wire w @ replicate (length (run_fired cancelled iv () es)) (ch, JObj [(''serverId'', JStr sid)])"
  by (simp add: heartbeat_Run_def run_ticks_fired beats_wire) (simp add: heartbeat_New_def HeartbeatEvent_json_def)

section \<open>The supervisor\<close>

definition restartDelay :: duration where
  "restartDelay = second"

text \<open>
  How one run of a component ends, and how long it took. \<open>supervised cancel now runs\<close> is when the
  supervisor starts each run, given when the context is cancelled, if ever; the select after a run ends
  at the restart delay or the cancellation, whichever is first. A panic is recovered and treated
  like a return. The second component says whether the goroutine has ended.
\<close>

datatype run_end = Returned | Panicked bytes

definition ctx_done :: "time option \<Rightarrow> time \<Rightarrow> bool" where
  "ctx_done cancel now = (case cancel of None \<Rightarrow> False | Some t \<Rightarrow> t \<le> now)"

definition wait_restart :: "time option \<Rightarrow> time \<Rightarrow> time" where
  "wait_restart cancel now =
     (case cancel of None \<Rightarrow> now + restartDelay | Some t \<Rightarrow> if t < now + restartDelay then max t now else now + restartDelay)"

fun supervised :: "time option \<Rightarrow> time \<Rightarrow> (duration \<times> run_end) list \<Rightarrow> time list \<times> bool" where
  "supervised cancel now runs =
     (if ctx_done cancel now then ([], True)
      else case runs of
        [] \<Rightarrow> ([], False)
      | (took, how) # runs \<Rightarrow>
          (case supervised cancel (wait_restart cancel (now + took)) runs of (starts, ended) \<Rightarrow> (now # starts, ended)))"

declare supervised.simps [simp del]

definition tooks_ok :: "(duration \<times> run_end) list \<Rightarrow> bool" where
  "tooks_ok runs \<longleftrightarrow> list_all (\<lambda>r. 0 \<le> fst r) runs"

lemma supervised_starts_ge: "tooks_ok runs \<Longrightarrow> t \<in> set (fst (supervised cancel now runs)) \<Longrightarrow> now \<le> t \<and> \<not> ctx_done cancel t"
proof (induction runs arbitrary: now)
  case Nil
  then show ?case by (simp add: supervised.simps split: if_splits)
next
  case (Cons r runs)
  obtain took how where r: "r = (took, how)" by (cases r)
  have nd: "\<not> ctx_done cancel now" using Cons.prems(2) by (auto simp: supervised.simps split: if_splits)
  have "t = now \<or> t \<in> set (fst (supervised cancel (wait_restart cancel (now + took)) runs))"
    using Cons.prems(2) nd by (simp add: supervised.simps [of cancel now] r split_beta)
  moreover have "now \<le> wait_restart cancel (now + took)"
    using Cons.prems(1) by (auto simp: r tooks_ok_def wait_restart_def restartDelay_def split: option.split)
  ultimately show ?case using Cons.IH Cons.prems(1) nd by (fastforce simp: tooks_ok_def)
qed

lemma supervised_facts:
  assumes "tooks_ok runs"
  shows "sorted_wrt (\<lambda>a b. a + restartDelay \<le> b) (fst (supervised cancel now runs))
     \<and> (\<forall>t \<in> set (fst (supervised cancel now runs)). \<not> ctx_done cancel t)
     \<and> (cancel = None \<longrightarrow> length (fst (supervised cancel now runs)) = length runs)
     \<and> (\<forall>tc. cancel = Some tc \<and> tc \<le> now + sum_list (map (\<lambda>r. fst r + restartDelay) runs) \<longrightarrow> snd (supervised cancel now runs))"
  using assms
proof (induction runs arbitrary: now)
  case Nil
  then show ?case by (simp add: supervised.simps ctx_done_def split: option.split)
next
  case (Cons r runs)
  obtain took how where r: "r = (took, how)" by (cases r)
  have ok: "tooks_ok runs" "0 \<le> took" using Cons.prems by (simp_all add: tooks_ok_def r)
  show ?case
  proof (cases "ctx_done cancel now")
    case True
    then have "supervised cancel now (r # runs) = ([], True)" by (simp add: supervised.simps [of cancel now])
    then show ?thesis using True by (auto simp: ctx_done_def)
  next
    case False
    let ?next = "wait_restart cancel (now + took)"
    let ?rest = "supervised cancel ?next runs"
    have s: "supervised cancel now (r # runs) = (now # fst ?rest, snd ?rest)"
      using False by (simp add: supervised.simps [of cancel now] r split_beta)
    have gap: "now + restartDelay \<le> t" if "t \<in> set (fst ?rest)" for t
      using supervised_starts_ge [OF ok(1) that] ok(2)
      by (auto simp: wait_restart_def ctx_done_def split: option.splits if_splits)
    have fin: "snd ?rest" if "cancel = Some tc" "tc \<le> now + sum_list (map (\<lambda>r. fst r + restartDelay) (r # runs))" for tc
    proof (cases "tc \<le> ?next")
      case True
      then have "ctx_done cancel ?next" using that(1) by (simp add: ctx_done_def)
      then show ?thesis by (simp add: supervised.simps [of cancel ?next])
    next
      case far: False
      then have "?next = now + took + restartDelay"
        using that(1) by (auto simp: wait_restart_def split: if_splits)
      then have "tc \<le> ?next + sum_list (map (\<lambda>r. fst r + restartDelay) runs)" using that(2) by (simp add: r)
      then show ?thesis using Cons.IH [OF ok(1), of ?next] that(1) by blast
    qed
    show ?thesis using Cons.IH [OF ok(1), of ?next] gap fin False unfolding s by simp
  qed
qed

text \<open>
  C39. The supervisor restarts a component after every panic, never in a hot loop, and never after
  cancellation: starts are at least the restart delay apart, each is before the cancellation, the number
  of starts is the number of runs when nothing is cancelled, and once the context is cancelled and the
  current run has returned the goroutine ends, so shutdown can complete.
\<close>

theorem supervisor_restarts:
  assumes "tooks_ok runs"
  shows "sorted_wrt (\<lambda>a b. a + restartDelay \<le> b) (fst (supervised cancel now runs))
     \<and> (\<forall>t \<in> set (fst (supervised cancel now runs)). \<not> ctx_done cancel t)
     \<and> (cancel = None \<longrightarrow> length (fst (supervised cancel now runs)) = length runs)
     \<and> (\<forall>tc. cancel = Some tc \<and> tc \<le> now + sum_list (map (\<lambda>r. fst r + restartDelay) runs) \<longrightarrow> snd (supervised cancel now runs))"
  by (rule supervised_facts [OF assms])

theorem supervisor_restarts_witness:
  "length (fst (supervised None 0 [(5, Panicked ''boom''), (7, Returned)])) = 2"
  using supervisor_restarts [of "[(5, Panicked ''boom''), (7, Returned)]" None 0] by (simp add: tooks_ok_def)

section \<open>What main starts\<close>

datatype component =
    TailerOf bytes bytes
  | ResourcesEvery bytes duration
  | StorageEvery "bytes list" bytes duration
  | DockerEvery bytes duration
  | PostgresEvery bytes duration
  | HeartbeatEvery bytes duration

datatype main_exit = NothingEnabled | IntervalUnparsed bytes

definition parse_interval :: "bytes \<Rightarrow> bool \<Rightarrow> bytes \<Rightarrow> main_exit + duration" where
  "parse_interval name enabled s =
     (if \<not> enabled then Inr 0 else case ParseDuration s of Inl _ \<Rightarrow> Inl (IntervalUnparsed name) | Inr d \<Rightarrow> Inr d)"

definition components :: "AppConfig \<Rightarrow> duration \<Rightarrow> duration \<Rightarrow> duration \<Rightarrow> duration \<Rightarrow> duration \<Rightarrow> component list" where
  "components cfg resources storage docker postgres heartbeat =
     (if lt_Enabled (ac_LogTailer cfg) then map (\<lambda>f. TailerOf (lf_Path f) (lf_Channel f)) (lt_Files (ac_LogTailer cfg)) else [])
     @ (if tc_Enabled (ac_Resources cfg) then [ResourcesEvery (tc_Channel (ac_Resources cfg)) resources] else [])
     @ (if tc_Enabled (ac_Storage cfg) then [StorageEvery (so_Mounts (ac_Storage cfg)) (tc_Channel (ac_Storage cfg)) storage] else [])
     @ (if tc_Enabled (ac_Docker cfg) then [DockerEvery (tc_Channel (ac_Docker cfg)) docker] else [])
     @ (if tc_Enabled (ac_Postgres cfg) then [PostgresEvery (tc_Channel (ac_Postgres cfg)) postgres] else [])
     @ (if IsEnabled (ac_Heartbeat cfg) then [HeartbeatEvery (hb_Channel (ac_Heartbeat cfg)) heartbeat] else [])"

definition main_start :: "AppConfig \<Rightarrow> main_exit + component list" where
  "main_start cfg =
     (if \<not> lt_Enabled (ac_LogTailer cfg) \<and> \<not> tc_Enabled (ac_Resources cfg) \<and> \<not> tc_Enabled (ac_Storage cfg)
         \<and> \<not> tc_Enabled (ac_Docker cfg) \<and> \<not> tc_Enabled (ac_Postgres cfg) \<and> \<not> IsEnabled (ac_Heartbeat cfg)
      then Inl NothingEnabled
      else case parse_interval ''resources'' (tc_Enabled (ac_Resources cfg)) (tc_Interval (ac_Resources cfg)) of
        Inl x \<Rightarrow> Inl x
      | Inr resources \<Rightarrow>
         (case parse_interval ''storage'' (tc_Enabled (ac_Storage cfg)) (tc_Interval (ac_Storage cfg)) of
            Inl x \<Rightarrow> Inl x
          | Inr storage \<Rightarrow>
             (case parse_interval ''docker'' (tc_Enabled (ac_Docker cfg)) (tc_Interval (ac_Docker cfg)) of
                Inl x \<Rightarrow> Inl x
              | Inr docker \<Rightarrow>
                 (case parse_interval ''postgres'' (tc_Enabled (ac_Postgres cfg)) (tc_Interval (ac_Postgres cfg)) of
                    Inl x \<Rightarrow> Inl x
                  | Inr postgres \<Rightarrow>
                     (case parse_interval ''heartbeat'' (IsEnabled (ac_Heartbeat cfg)) (hb_Interval (ac_Heartbeat cfg)) of
                        Inl x \<Rightarrow> Inl x
                      | Inr heartbeat \<Rightarrow> Inr (components cfg resources storage docker postgres heartbeat))))))"

definition redisConnectRetry :: duration where
  "redisConnectRetry = 5 * second"

text \<open>
  The first connection to Redis is tried until it succeeds: \<open>pings\<close> is how long each attempt takes and how it ends. The
  result is when the last attempt considered had ended, and whether it succeeded.
\<close>

fun redis_retry :: "time \<Rightarrow> (duration \<times> bytes option) list \<Rightarrow> time \<times> bool" where
  "redis_retry now [] = (now, False)"
| "redis_retry now ((took, None) # pings) = (now + took, True)"
| "redis_retry now ((took, Some err) # pings) = redis_retry (now + took + redisConnectRetry) pings"

text \<open>
  The whole of \<^verbatim>\<open>main\<close>. It exits on a configuration it cannot use; otherwise it starts the components once
  Redis has answered, each with a supervisor of its own, waits for a signal, cancels their context and
  waits for all of them. \<open>runs i\<close> is how the runs of the \<open>i\<close>-th component go, \<open>signal\<close> when the signal comes. The
  lists are the times at which each component was started.
\<close>

datatype main_result =
    ExitConfig load_error
  | ExitStart main_exit
  | Connecting time
  | Running "component list" "time list list"
  | Stopped "component list" "time list list"

definition supervise_all :: "time option \<Rightarrow> time \<Rightarrow> (nat \<Rightarrow> (duration \<times> run_end) list) \<Rightarrow> component list \<Rightarrow> main_result" where
  "supervise_all signal now runs cs =
     (let outs = map (\<lambda>i. supervised signal now (runs i)) [0..<length cs]
      in if signal \<noteq> None \<and> list_all snd outs then Stopped cs (map fst outs) else Running cs (map fst outs))"

definition main_run ::
  "(bytes \<Rightarrow> bytes + bytes) \<Rightarrow> (bytes \<Rightarrow> bytes + AppConfig) \<Rightarrow> (bytes \<Rightarrow> bytes) \<Rightarrow> bytes \<Rightarrow> bytes list \<Rightarrow> time \<Rightarrow> (duration \<times> bytes option) list
    \<Rightarrow> time option \<Rightarrow> (nat \<Rightarrow> (duration \<times> run_end) list) \<Rightarrow> main_result" where
  "main_run readFile unmarshal_yaml json_error env args now pings signal runs =
     (case Load readFile unmarshal_yaml json_error (ResolvePath env args) of
        Inl err \<Rightarrow> ExitConfig err
      | Inr cfg \<Rightarrow>
          (case main_start cfg of
             Inl x \<Rightarrow> ExitStart x
           | Inr cs \<Rightarrow>
               (case redis_retry now pings of
                  (t, False) \<Rightarrow> Connecting t
                | (t, True) \<Rightarrow> supervise_all signal t runs cs)))"

text \<open>The interval a component is started with; a tailer polls at a fixed rate.\<close>

fun interval_of :: "component \<Rightarrow> duration option" where
  "interval_of (TailerOf _ _) = None"
| "interval_of (ResourcesEvery _ d) = Some d"
| "interval_of (StorageEvery _ _ d) = Some d"
| "interval_of (DockerEvery _ d) = Some d"
| "interval_of (PostgresEvery _ d) = Some d"
| "interval_of (HeartbeatEvery _ d) = Some d"

fun channel_of :: "component \<Rightarrow> bytes" where
  "channel_of (TailerOf _ ch) = ch"
| "channel_of (ResourcesEvery ch _) = ch"
| "channel_of (StorageEvery _ ch _) = ch"
| "channel_of (DockerEvery ch _) = ch"
| "channel_of (PostgresEvery ch _) = ch"
| "channel_of (HeartbeatEvery ch _) = ch"

lemma Load_good:
  assumes "Load readFile unmarshal_yaml json_error path = Inr cfg"
  shows "good_config cfg" "hb_Channel (ac_Heartbeat cfg) \<noteq> []"
proof -
  obtain cfg0 where v: "Validate cfg0 = (cfg, None)"
    using assms by (auto simp: Load_def split: sum.splits prod.splits option.splits)
  then have c: "cfg = applyDefaults cfg0" using Validate_fst [of cfg0] by simp
  show "good_config cfg" using v Validate_None [of cfg0] by (simp add: c)
  show "hb_Channel (ac_Heartbeat cfg) \<noteq> []" unfolding c by (rule applyDefaults_heartbeat)
qed

text \<open>What a configuration enables, and the components it stands for when the intervals are these.\<close>

definition nothing_enabled :: "AppConfig \<Rightarrow> bool" where
  "nothing_enabled cfg \<longleftrightarrow> \<not> lt_Enabled (ac_LogTailer cfg) \<and> \<not> tc_Enabled (ac_Resources cfg) \<and> \<not> tc_Enabled (ac_Storage cfg)
     \<and> \<not> tc_Enabled (ac_Docker cfg) \<and> \<not> tc_Enabled (ac_Postgres cfg) \<and> hb_Enabled (ac_Heartbeat cfg) = Some False"

definition interval_is :: "bool \<Rightarrow> bytes \<Rightarrow> duration \<Rightarrow> bool" where
  "interval_is enabled s d \<longleftrightarrow> (enabled \<longrightarrow> ParseDuration s = Inr d \<and> 0 < d)"

lemma picked_Cons:
  "map snd (filter fst ((b, x) # xs)) = (if b then [x] else []) @ map snd (filter fst xs)" "map snd (filter fst []) = []"
  by simp_all

lemma good_interval_is:
  "good_interval s \<or> \<not> enabled \<Longrightarrow> \<exists>d. parse_interval name enabled s = Inr d \<and> interval_is enabled s d"
  by (auto simp: parse_interval_def good_interval_def interval_is_def)

lemma timed_interval_is:
  "good_timed t \<Longrightarrow> \<exists>d. parse_interval name (tc_Enabled t) (tc_Interval t) = Inr d \<and> interval_is (tc_Enabled t) (tc_Interval t) d"
  by (intro good_interval_is) (auto simp: good_timed_def)

lemma loaded_components:
  assumes "Load readFile unmarshal_yaml json_error path = Inr cfg"
  obtains r s d p h where
    "main_start cfg = (if nothing_enabled cfg then Inl NothingEnabled else Inr (components cfg r s d p h))"
    "interval_is (tc_Enabled (ac_Resources cfg)) (tc_Interval (ac_Resources cfg)) r"
    "interval_is (tc_Enabled (ac_Storage cfg)) (tc_Interval (ac_Storage cfg)) s"
    "interval_is (tc_Enabled (ac_Docker cfg)) (tc_Interval (ac_Docker cfg)) d"
    "interval_is (tc_Enabled (ac_Postgres cfg)) (tc_Interval (ac_Postgres cfg)) p"
    "interval_is (hb_Enabled (ac_Heartbeat cfg) \<noteq> Some False) (hb_Interval (ac_Heartbeat cfg)) h"
proof -
  have good: "good_timed (ac_Resources cfg)" "good_timed (ac_Storage cfg)" "good_timed (ac_Docker cfg)" "good_timed (ac_Postgres cfg)"
    "good_interval (hb_Interval (ac_Heartbeat cfg)) \<or> \<not> hb_Enabled (ac_Heartbeat cfg) \<noteq> Some False"
    using Load_good(1) [OF assms] unfolding good_config_def by blast+
  obtain r where r: "parse_interval ''resources'' (tc_Enabled (ac_Resources cfg)) (tc_Interval (ac_Resources cfg)) = Inr r"
    "interval_is (tc_Enabled (ac_Resources cfg)) (tc_Interval (ac_Resources cfg)) r" using timed_interval_is [OF good(1)] by blast
  obtain s where s: "parse_interval ''storage'' (tc_Enabled (ac_Storage cfg)) (tc_Interval (ac_Storage cfg)) = Inr s"
    "interval_is (tc_Enabled (ac_Storage cfg)) (tc_Interval (ac_Storage cfg)) s" using timed_interval_is [OF good(2)] by blast
  obtain d where d: "parse_interval ''docker'' (tc_Enabled (ac_Docker cfg)) (tc_Interval (ac_Docker cfg)) = Inr d"
    "interval_is (tc_Enabled (ac_Docker cfg)) (tc_Interval (ac_Docker cfg)) d" using timed_interval_is [OF good(3)] by blast
  obtain p where p: "parse_interval ''postgres'' (tc_Enabled (ac_Postgres cfg)) (tc_Interval (ac_Postgres cfg)) = Inr p"
    "interval_is (tc_Enabled (ac_Postgres cfg)) (tc_Interval (ac_Postgres cfg)) p" using timed_interval_is [OF good(4)] by blast
  obtain h where h: "parse_interval ''heartbeat'' (IsEnabled (ac_Heartbeat cfg)) (hb_Interval (ac_Heartbeat cfg)) = Inr h"
    "interval_is (hb_Enabled (ac_Heartbeat cfg) \<noteq> Some False) (hb_Interval (ac_Heartbeat cfg)) h"
    using good_interval_is [OF good(5)] unfolding IsEnabled_iff by blast
  have "main_start cfg = (if nothing_enabled cfg then Inl NothingEnabled else Inr (components cfg r s d p h))"
    unfolding main_start_def r(1) s(1) d(1) p(1) h(1) sum.case unfolding nothing_enabled_def IsEnabled_iff by simp
  then show thesis using r(2) s(2) d(2) p(2) h(2) by (rule that)
qed

lemma loaded_start:
  assumes "Load readFile unmarshal_yaml json_error path = Inr cfg" "main_start cfg = Inr cs"
  shows "cs \<noteq> [] \<and> (\<forall>c \<in> set cs. channel_of c \<noteq> [] \<and> (\<forall>d. interval_of c = Some d \<longrightarrow> 0 < d))"
proof -
  obtain r s d p h where st: "main_start cfg = (if nothing_enabled cfg then Inl NothingEnabled else Inr (components cfg r s d p h))"
    and i: "interval_is (tc_Enabled (ac_Resources cfg)) (tc_Interval (ac_Resources cfg)) r"
      "interval_is (tc_Enabled (ac_Storage cfg)) (tc_Interval (ac_Storage cfg)) s"
      "interval_is (tc_Enabled (ac_Docker cfg)) (tc_Interval (ac_Docker cfg)) d"
      "interval_is (tc_Enabled (ac_Postgres cfg)) (tc_Interval (ac_Postgres cfg)) p"
      "interval_is (hb_Enabled (ac_Heartbeat cfg) \<noteq> Some False) (hb_Interval (ac_Heartbeat cfg)) h"
    by (rule loaded_components [OF assms(1)])
  have cs: "cs = components cfg r s d p h" "\<not> nothing_enabled cfg" using st assms(2) by (auto split: if_splits)
  note good = Load_good [OF assms(1)]
  have files: "lt_Enabled (ac_LogTailer cfg) \<Longrightarrow> lt_Files (ac_LogTailer cfg) \<noteq> []
      \<and> (\<forall>f \<in> set (lt_Files (ac_LogTailer cfg)). lf_Channel f \<noteq> [])"
    and ch: "tc_Enabled (ac_Resources cfg) \<Longrightarrow> tc_Channel (ac_Resources cfg) \<noteq> []"
      "tc_Enabled (ac_Storage cfg) \<Longrightarrow> tc_Channel (ac_Storage cfg) \<noteq> []"
      "tc_Enabled (ac_Docker cfg) \<Longrightarrow> tc_Channel (ac_Docker cfg) \<noteq> []"
      "tc_Enabled (ac_Postgres cfg) \<Longrightarrow> tc_Channel (ac_Postgres cfg) \<noteq> []"
    using good by (simp_all add: good_config_def good_timed_def)
  have "\<forall>x \<in> set cs. channel_of x \<noteq> [] \<and> (\<forall>i. interval_of x = Some i \<longrightarrow> 0 < i)"
    unfolding cs components_def using files ch good(2) i by (simp add: ball_Un interval_is_def IsEnabled_iff) auto
  moreover have "cs \<noteq> []" using cs(2) files unfolding cs(1) by (auto simp: components_def nothing_enabled_def IsEnabled_iff)
  ultimately show ?thesis by blast
qed

text \<open>
  C38. A configuration that loads starts exactly what it enables: main refuses it if and only if nothing is
  enabled, and never for an interval; otherwise it starts, in this order, one tailer for each log file with its path and channel, and one of
  each enabled collector with its channel and the positive interval its text stands for, the heartbeat unless it is
  switched off, and nothing else. Each has a channel that is not empty and an interval on which its ticker cannot panic.
\<close>

theorem main_starts_what_is_enabled:
  assumes "Load readFile unmarshal_yaml json_error path = Inr cfg"
  shows "case main_start cfg of
      Inl x \<Rightarrow> x = NothingEnabled \<and> nothing_enabled cfg
    | Inr cs \<Rightarrow> \<not> nothing_enabled cfg \<and> cs \<noteq> []
        \<and> (\<forall>c \<in> set cs. channel_of c \<noteq> [] \<and> (\<forall>d. interval_of c = Some d \<longrightarrow> 0 < d))
        \<and> (\<exists>resources storage docker postgres beat.
             interval_is (tc_Enabled (ac_Resources cfg)) (tc_Interval (ac_Resources cfg)) resources
             \<and> interval_is (tc_Enabled (ac_Storage cfg)) (tc_Interval (ac_Storage cfg)) storage
             \<and> interval_is (tc_Enabled (ac_Docker cfg)) (tc_Interval (ac_Docker cfg)) docker
             \<and> interval_is (tc_Enabled (ac_Postgres cfg)) (tc_Interval (ac_Postgres cfg)) postgres
             \<and> interval_is (hb_Enabled (ac_Heartbeat cfg) \<noteq> Some False) (hb_Interval (ac_Heartbeat cfg)) beat
             \<and> cs = (if lt_Enabled (ac_LogTailer cfg)
                     then map (\<lambda>f. TailerOf (lf_Path f) (lf_Channel f)) (lt_Files (ac_LogTailer cfg)) else [])
                 @ map snd (filter fst
                     [(tc_Enabled (ac_Resources cfg), ResourcesEvery (tc_Channel (ac_Resources cfg)) resources),
                      (tc_Enabled (ac_Storage cfg), StorageEvery (so_Mounts (ac_Storage cfg)) (tc_Channel (ac_Storage cfg)) storage),
                      (tc_Enabled (ac_Docker cfg), DockerEvery (tc_Channel (ac_Docker cfg)) docker),
                      (tc_Enabled (ac_Postgres cfg), PostgresEvery (tc_Channel (ac_Postgres cfg)) postgres),
                      (hb_Enabled (ac_Heartbeat cfg) \<noteq> Some False, HeartbeatEvery (hb_Channel (ac_Heartbeat cfg)) beat)]))"
proof -
  obtain r s d p h where st: "main_start cfg = (if nothing_enabled cfg then Inl NothingEnabled else Inr (components cfg r s d p h))"
    and i: "interval_is (tc_Enabled (ac_Resources cfg)) (tc_Interval (ac_Resources cfg)) r"
      "interval_is (tc_Enabled (ac_Storage cfg)) (tc_Interval (ac_Storage cfg)) s"
      "interval_is (tc_Enabled (ac_Docker cfg)) (tc_Interval (ac_Docker cfg)) d"
      "interval_is (tc_Enabled (ac_Postgres cfg)) (tc_Interval (ac_Postgres cfg)) p"
      "interval_is (hb_Enabled (ac_Heartbeat cfg) \<noteq> Some False) (hb_Interval (ac_Heartbeat cfg)) h"
    by (rule loaded_components [OF assms])
  show ?thesis
  proof (cases "nothing_enabled cfg")
    case False
    then have cs: "main_start cfg = Inr (components cfg r s d p h)" using st by simp
    note start = loaded_start [OF assms cs]
    show ?thesis unfolding cs sum.case
      by (rule conjI [OF False conjI [OF conjunct1 [OF start] conjI [OF conjunct2 [OF start]]]], rule exI [of _ r], rule exI [of _ s],
          rule exI [of _ d], rule exI [of _ p], rule exI [of _ h], intro conjI i,
          simp only: components_def IsEnabled_iff picked_Cons append_assoc append_Nil2)
  qed (simp add: st)
qed

definition example_config :: AppConfig where
  "example_config = \<lparr>ac_Redis = \<lparr>rd_Addr = ''localhost:6379'', rd_Password = [], rd_DB = 0\<rparr>, ac_ServerID = ''srv'',
     ac_LogTailer = \<lparr>lt_Enabled = False, lt_Files = []\<rparr>,
     ac_Resources = \<lparr>tc_Enabled = False, tc_Channel = [], tc_Interval = []\<rparr>,
     ac_Storage = \<lparr>tc_Enabled = False, tc_Channel = [], tc_Interval = [], so_Mounts = []\<rparr>,
     ac_Heartbeat = \<lparr>hb_Enabled = None, hb_Channel = [], hb_Interval = []\<rparr>,
     ac_Docker = \<lparr>tc_Enabled = False, tc_Channel = [], tc_Interval = []\<rparr>,
     ac_Postgres = \<lparr>tc_Enabled = False, tc_Channel = [], tc_Interval = []\<rparr>\<rparr>"

lemma default_interval_parses: "ParseDuration DefaultHeartbeatInterval = Inr (10 * second)"
proof -
  have "show_nat 10 = ''10''" by code_simp
  then show ?thesis
    using ParseDuration_whole [of "''s''" 1000000000 10]
    by (simp add: DefaultHeartbeatInterval_def unitMap_def unit_byte_def is_digit_def in_range_def)
qed

lemma example_config_loads:
  "Load (\<lambda>_. Inr []) (\<lambda>_. Inr example_config) id ''c.yaml'' = Inr (applyDefaults example_config)"
proof -
  have i: "good_interval (hb_Interval (ac_Heartbeat (applyDefaults example_config)))"
    using default_interval_parses by (simp add: good_interval_def applyDefaults_def Let_def example_config_def)
  have "good_config (applyDefaults example_config)"
    using i by (simp add: good_config_def good_timed_def) (simp add: applyDefaults_def Let_def example_config_def)
  then have "Validate example_config = (applyDefaults example_config, None)"
    using Validate_None [of example_config] Validate_fst [of example_config] by (metis prod.collapse)
  moreover have "ToLower (Ext ''c.yaml'') \<in> {''.yaml'', ''.yml''}"
    by (simp add: Ext_def Let_def ToLower.simps HasPrefix_def in_range_def)
  ultimately show ?thesis by (simp add: Load_def)
qed

theorem main_starts_what_is_enabled_witness:
  "\<exists>d. main_start (applyDefaults example_config) = Inr [HeartbeatEvery ''agent-heartbeat'' d] \<and> 0 < d"
proof -
  let ?c = "applyDefaults example_config"
  have c: "hb_Enabled (ac_Heartbeat ?c) \<noteq> Some False" "hb_Channel (ac_Heartbeat ?c) = ''agent-heartbeat''"
    "\<not> lt_Enabled (ac_LogTailer ?c)" "\<not> tc_Enabled (ac_Resources ?c)" "\<not> tc_Enabled (ac_Storage ?c)" "\<not> tc_Enabled (ac_Docker ?c)"
    "\<not> tc_Enabled (ac_Postgres ?c)"
    by (simp_all add: applyDefaults_def Let_def example_config_def DefaultHeartbeatChannel_def)
  then have "\<not> nothing_enabled ?c" by (simp add: nothing_enabled_def)
  with main_starts_what_is_enabled [OF example_config_loads] c show ?thesis
    by (cases "main_start ?c") (auto simp: interval_is_def)
qed

section \<open>From start to shutdown\<close>

definition refused_for :: "(duration \<times> bytes) list \<Rightarrow> duration" where
  "refused_for fails = sum_list (map (\<lambda>(took, err). took + redisConnectRetry) fails)"

lemma redis_retry_steps:
  "redis_retry now (map (map_prod id Some) fails @ (took, None) # pings) = (now + refused_for fails + took, True)"
  by (induction fails arbitrary: now) (auto simp: refused_for_def)

text \<open>
  C40. With a configuration that loads, the agent gets going and comes to its end: it waits for Redis as long as
  it takes, with five seconds between an attempt and the next, starts every component then and not before, and after the signal,
  once the run that each component was in has returned, it has stopped; no component is started
  after the signal.
\<close>

theorem main_runs_to_shutdown:
  assumes "Load readFile unmarshal_yaml json_error (ResolvePath env args) = Inr cfg" "main_start cfg = Inr cs"
    and "pings = map (map_prod id Some) fails @ (took, None) # rest" "t = now + refused_for fails + took" "t < tc"
    and "\<And>i. i < length cs \<Longrightarrow> tooks_ok (runs i) \<and> tc \<le> t + sum_list (map (\<lambda>r. fst r + restartDelay) (runs i))"
  shows "\<exists>starts. main_run readFile unmarshal_yaml json_error env args now pings (Some tc) runs = Stopped cs starts
     \<and> length starts = length cs
     \<and> (\<forall>ts \<in> set starts. ts \<noteq> [] \<and> hd ts = t \<and> (\<forall>s \<in> set ts. s < tc) \<and> sorted_wrt (\<lambda>a b. a + restartDelay \<le> b) ts)"
proof -
  let ?out = "\<lambda>i. supervised (Some tc) t (runs i)"
  have out: "snd (?out i)" "fst (?out i) \<noteq> []" "hd (fst (?out i)) = t" "\<forall>s \<in> set (fst (?out i)). s < tc"
    "sorted_wrt (\<lambda>a b. a + restartDelay \<le> b) (fst (?out i))" if "i < length cs" for i
  proof -
    note f = supervised_facts [of "runs i" "Some tc" t] assms(6) [OF that]
    show "snd (?out i)" "sorted_wrt (\<lambda>a b. a + restartDelay \<le> b) (fst (?out i))" using f by blast+
    show "\<forall>s \<in> set (fst (?out i)). s < tc" using f by (auto simp: ctx_done_def)
    have "runs i \<noteq> []" using f(2) assms(5) by auto
    then show "fst (?out i) \<noteq> []" "hd (fst (?out i)) = t"
      using assms(5) by (auto simp: supervised.simps [of "Some tc" t] ctx_done_def split: list.splits prod.splits)
  qed
  have "main_run readFile unmarshal_yaml json_error env args now pings (Some tc) runs = Stopped cs (map (fst \<circ> ?out) [0..<length cs])"
    using out(1) assms(1,2) by (simp add: main_run_def assms(3) redis_retry_steps supervise_all_def Let_def list_all_iff assms(4) comp_def)
  then show ?thesis using out(2-5) by auto
qed

theorem main_runs_to_shutdown_witness:
  "\<exists>cs starts. main_run (\<lambda>_. Inr []) (\<lambda>_. Inr example_config) id [] [''--config'', ''c.yaml''] 0 [(second, Some ''refused''), (0, None)] (Some (8 * second))
       (\<lambda>_. [(second, Panicked ''boom''), (3 * second, Returned)]) = Stopped cs starts \<and> (\<forall>ts \<in> set starts. hd ts = 6 * second)"
proof -
  have r: "ResolvePath [] [''--config'', ''c.yaml''] = ''c.yaml''" by (simp add: ResolvePath_def HasPrefix_def)
  obtain cs where cs: "main_start (applyDefaults example_config) = Inr cs"
    using default_interval_parses
    by (simp add: main_start_def applyDefaults_def Let_def example_config_def IsEnabled_def parse_interval_def)
  have p: "[(second, Some ''refused''), (0, None)] = map (map_prod id Some) [(second, ''refused'')] @ (0, None) # []" by simp
  have l: "Load (\<lambda>_. Inr []) (\<lambda>_. Inr example_config) id (ResolvePath [] [''--config'', ''c.yaml'']) = Inr (applyDefaults example_config)"
    unfolding r by (rule example_config_loads)
  have "0 + refused_for [(second, ''refused'')] + 0 < 8 * second" by (simp add: refused_for_def redisConnectRetry_def)
  note main_runs_to_shutdown [OF l cs p refl this, of "\<lambda>_. [(second, Panicked ''boom''), (3 * second, Returned)]"]
  moreover have "0 + refused_for [(second, ''refused'')] + 0 = 6 * second" by (simp add: refused_for_def redisConnectRetry_def)
  moreover have "tooks_ok [(second, Panicked ''boom''), (3 * second, Returned)]" by (simp add: tooks_ok_def)
  moreover have "8 * second \<le> 6 * second + sum_list (map (\<lambda>r. fst r + restartDelay) [(second, Panicked ''boom''), (3 * second, Returned)])"
    by (simp add: restartDelay_def)
  ultimately show ?thesis by metis
qed

end
