(* ===== verification/DockerClient.thy ===== *)
theory DockerClient
  imports Events
begin

text \<open>
  \<^verbatim>\<open>src/docker/client\<close>: the HTTP client of the Docker socket and its guard, which lets through a GET on
  one of four request targets and nothing else, and the request paths of the docker subpackages.

  The daemon behind the socket is a parameter: \<open>nxt req w\<close> is what \<^verbatim>\<open>http.Transport\<close> does with a
  request in the world \<open>w\<close>. A request that is refused leaves the world alone. What the client uses of
  \<^verbatim>\<open>net/url\<close> (the request target of \<^verbatim>\<open>"http://docker" + path\<close>, with its percent-escapes) is modelled.
\<close>

section \<open>Request targets\<close>

definition is_hex :: "char \<Rightarrow> bool" where
  "is_hex c \<longleftrightarrow> in_range 48 57 (byte_nat c) \<or> in_range 97 102 (byte_nat c) \<or> in_range 65 70 (byte_nat c)"

definition unhex :: "char \<Rightarrow> nat" where
  "unhex c = (if in_range 48 57 (byte_nat c) then byte_nat c - 48
     else if in_range 97 102 (byte_nat c) then byte_nat c - 87 else byte_nat c - 55)"

definition upperhex :: "nat \<Rightarrow> char" where
  "upperhex n = (if n < 10 then char_of (48 + n) else char_of (55 + n))"

text \<open>\<^verbatim>\<open>url.unescape\<close> in path mode: every percent sign starts an escape of two hexadecimal digits.\<close>

fun url_unescape :: "bytes \<Rightarrow> bytes option" where
  "url_unescape [] = Some []"
| "url_unescape (c # s) =
     (if c = CHR ''%''
      then (case s of a # b # r \<Rightarrow>
              if is_hex a \<and> is_hex b
              then map_option (Cons (char_of (16 * unhex a + unhex b))) (url_unescape r) else None
            | _ \<Rightarrow> None)
      else map_option (Cons c) (url_unescape s))"

text \<open>\<^verbatim>\<open>url.shouldEscape\<close>, \<^verbatim>\<open>url.escape\<close> and \<^verbatim>\<open>url.validEncoded\<close> in path mode.\<close>

definition alnum :: "char \<Rightarrow> bool" where
  "alnum c \<longleftrightarrow> in_range 97 122 (byte_nat c) \<or> in_range 65 90 (byte_nat c) \<or> in_range 48 57 (byte_nat c)"

definition shouldEscape :: "char \<Rightarrow> bool" where
  "shouldEscape c \<longleftrightarrow> \<not> (alnum c \<or> c \<in> set ''-_.~$&+,/:;=@'')"

definition url_escape :: "bytes \<Rightarrow> bytes" where
  "url_escape s = concat (map (\<lambda>c. if shouldEscape c
     then [CHR ''%'', upperhex (byte_nat c div 16), upperhex (byte_nat c mod 16)] else [c]) s)"

definition validEncoded :: "bytes \<Rightarrow> bool" where
  "validEncoded s \<longleftrightarrow> list_all (\<lambda>c. c = CHR 0x27 \<or> c \<in> set ''!$&()*+,;=:@[]%'' \<or> \<not> shouldEscape c) s"

definition is_ctl :: "char \<Rightarrow> bool" where
  "is_ctl c \<longleftrightarrow> byte_nat c < 32 \<or> byte_nat c = (127 :: nat)"

text \<open>
  \<^verbatim>\<open>u.RequestURI()\<close> of the URL that \<^verbatim>\<open>http.NewRequestWithContext\<close> parses from
  \<^verbatim>\<open>"http://docker" + path\<close>, for a path that starts with a slash; \<open>None\<close> when it does not parse.
  The steps are those of \<^verbatim>\<open>url.Parse\<close>: cut the fragment, refuse control bytes, cut the query (a single
  question mark at the very end is an empty query that is kept), unescape the path, and then
  \<^verbatim>\<open>EscapedPath\<close>.
\<close>

definition cut_query :: "bytes \<Rightarrow> bytes \<times> bytes" where
  "cut_query u =
     (case Cut (CHR ''?'') u of
        None \<Rightarrow> (u, [])
      | Some (p, q) \<Rightarrow> (p, CHR ''?'' # q))"

definition EscapedPath :: "bytes \<Rightarrow> bytes \<Rightarrow> bytes" where
  "EscapedPath raw path =
     (if url_escape path \<noteq> raw \<and> raw \<noteq> [] \<and> validEncoded raw then raw
      else if path = ''*'' then ''%2A'' else url_escape path)"

definition RequestURI :: "bytes \<Rightarrow> bytes option" where
  "RequestURI path =
     (let (u, frag) = (case Cut (CHR ''#'') path of None \<Rightarrow> (path, []) | Some uf \<Rightarrow> uf)
      in if list_ex is_ctl u then None
         else let (raw, query) = cut_query u
              in case (url_unescape raw, url_unescape frag) of
                   (Some p, Some _) \<Rightarrow>
                     Some ((if EscapedPath raw p = [] then ''/'' else EscapedPath raw p) @ query)
                 | _ \<Rightarrow> None)"

section \<open>The allow-list\<close>

text \<open>The regular expressions of the list are sequences of literals and of one counted class.\<close>

datatype re_atom = Lit bytes | Rep "char \<Rightarrow> bool" nat

definition lower_hex :: "char \<Rightarrow> bool" where
  "lower_hex c \<longleftrightarrow> in_range 48 57 (byte_nat c) \<or> in_range 97 102 (byte_nat c)"

fun MatchString :: "re_atom list \<Rightarrow> bytes \<Rightarrow> bool" where
  "MatchString [] s \<longleftrightarrow> s = []"
| "MatchString (Lit l # re) s \<longleftrightarrow> HasPrefix s l \<and> MatchString re (drop (length l) s)"
| "MatchString (Rep cls n # re) s \<longleftrightarrow>
     n \<le> length s \<and> list_all cls (take n s) \<and> MatchString re (drop n s)"

definition allowed :: "re_atom list list" where
  "allowed =
     [[Lit ''/info''],
      [Lit ''/containers/json?all=true''],
      [Lit ''/containers/'', Rep lower_hex 64, Lit ''/stats?stream=false&one-shot=true''],
      [Lit ''/containers/'', Rep lower_hex 64, Lit ''/json'']]"

section \<open>The client\<close>

record Request =
  rq_Method :: bytes
  rq_Path :: bytes
  rq_Target :: bytes

record Response =
  rs_StatusCode :: int
  rs_Status :: bytes
  rs_Body :: bytes

text \<open>
  The errors, one constructor for each message of the source. \<open>NetErr deadline msg\<close> is an error of the
  transport or the context, and says whether it is \<^verbatim>\<open>context.DeadlineExceeded\<close>; \<open>UrlErr\<close> is
  the \<^verbatim>\<open>url.Error\<close> that \<^verbatim>\<open>http.Client.Do\<close> wraps a failed round trip in;
  \<open>BadJSON what data\<close> is the error of \<^verbatim>\<open>encoding/json\<close> on a reply it cannot decode.
\<close>

datatype go_err =
    NetErr bool bytes
  | BadURL bytes
  | RefusedMethod bytes bytes
  | NotAllowed bytes
  | UrlErr bytes go_err
  | TooLarge bytes
  | BadStatus bytes bytes bytes
  | UnknownCgroup bytes
  | BadJSON bytes bytes

type_synonym 'w round_trip = "Request \<Rightarrow> 'w \<Rightarrow> 'w \<times> (go_err + Response)"

definition RoundTrip :: "'w round_trip \<Rightarrow> 'w round_trip" where
  "RoundTrip nxt req w =
     (if rq_Method req \<noteq> ''GET'' then (w, Inl (RefusedMethod (rq_Method req) (rq_Target req)))
      else if list_ex (\<lambda>re. MatchString re (rq_Target req)) allowed then nxt req w
      else (w, Inl (NotAllowed (rq_Target req))))"

definition maxBody :: nat where
  "maxBody = 8388608"

definition docker_Get :: "'w round_trip \<Rightarrow> bytes \<Rightarrow> 'w \<Rightarrow> 'w \<times> (go_err + bytes)" where
  "docker_Get nxt path w =
     (case RequestURI path of
        None \<Rightarrow> (w, Inl (BadURL path))
      | Some target \<Rightarrow>
          (case RoundTrip nxt \<lparr>rq_Method = ''GET'', rq_Path = path, rq_Target = target\<rparr> w of
             (w, Inl err) \<Rightarrow> (w, Inl (UrlErr path err))
           | (w, Inr resp) \<Rightarrow>
               (w, let body = take (Suc maxBody) (rs_Body resp)
                   in if maxBody < length body then Inl (TooLarge path)
                      else if rs_StatusCode resp \<noteq> 200
                           then Inl (BadStatus path (rs_Status resp) (TrimSpace body))
                      else Inr body)))"

text \<open>The request paths of the subpackages.\<close>

definition cgroup_Path :: bytes where
  "cgroup_Path = ''/info''"

definition containers_Path :: bytes where
  "containers_Path = ''/containers/json?all=true''"

definition stats_Path :: "bytes \<Rightarrow> bytes" where
  "stats_Path cid = ''/containers/'' @ cid @ ''/stats?stream=false&one-shot=true''"

definition state_Path :: "bytes \<Rightarrow> bytes" where
  "state_Path cid = ''/containers/'' @ cid @ ''/json''"

section \<open>What the guard lets through\<close>

definition full_id :: "bytes \<Rightarrow> bool" where
  "full_id cid \<longleftrightarrow> length cid = 64 \<and> list_all lower_hex cid"

text \<open>The only request targets that may reach the socket.\<close>

definition read_target :: "bytes \<Rightarrow> bool" where
  "read_target t \<longleftrightarrow> t = cgroup_Path \<or> t = containers_Path
     \<or> (\<exists>cid. full_id cid \<and> (t = stats_Path cid \<or> t = state_Path cid))"

lemma MatchString_Lit: "MatchString (Lit l # re) s \<longleftrightarrow> (\<exists>r. s = l @ r \<and> MatchString re r)"
  by (auto simp: HasPrefix_def) (metis append_take_drop_id)

lemma MatchString_Rep:
  "MatchString (Rep cls n # re) s \<longleftrightarrow> (\<exists>a r. s = a @ r \<and> length a = n \<and> list_all cls a \<and> MatchString re r)"
proof -
  have "\<exists>a r. s = a @ r \<and> length a = n \<and> list_all cls a \<and> MatchString re r"
    if "n \<le> length s" "list_all cls (take n s)" "MatchString re (drop n s)"
    by (rule exI [of _ "take n s"], rule exI [of _ "drop n s"]) (use that in simp)
  then show ?thesis by auto
qed

lemma allowed_iff: "list_ex (\<lambda>re. MatchString re t) allowed \<longleftrightarrow> read_target t"
proof -
  have "MatchString [Lit l] t \<longleftrightarrow> t = l" for l by (simp add: MatchString_Lit del: MatchString.simps(2))
  moreover have "MatchString [Lit a, Rep lower_hex 64, Lit b] t \<longleftrightarrow> (\<exists>cid. full_id cid \<and> t = a @ cid @ b)" for a b
    by (auto simp: MatchString_Lit MatchString_Rep full_id_def simp del: MatchString.simps(2,3))
  ultimately show ?thesis
    unfolding allowed_def read_target_def cgroup_Path_def containers_Path_def stats_Path_def state_Path_def
    by (simp only: list_ex_iff list.set bex_simps) blast
qed

lemma RoundTrip_cases:
  "RoundTrip nxt req w =
     (if rq_Method req = ''GET'' \<and> read_target (rq_Target req) then nxt req w
      else (w, Inl (if rq_Method req = ''GET'' then NotAllowed (rq_Target req)
                    else RefusedMethod (rq_Method req) (rq_Target req))))"
  by (simp add: RoundTrip_def allowed_iff)

section \<open>The agent's own requests\<close>

definition plain :: "bytes \<Rightarrow> bool" where
  "plain p \<longleftrightarrow> list_all (\<lambda>c. \<not> shouldEscape c) p"

lemma plain_append [simp]: "plain (a @ b) \<longleftrightarrow> plain a \<and> plain b"
  by (simp add: plain_def)

lemma plain_bytes: "plain p \<Longrightarrow> c \<in> set p \<Longrightarrow> c \<noteq> CHR ''%'' \<and> c \<noteq> CHR ''?'' \<and> c \<noteq> CHR ''#'' \<and> \<not> is_ctl c"
  by (auto simp: plain_def list_all_iff shouldEscape_def alnum_def in_range_def is_ctl_def)

lemma plain_full_id: "full_id cid \<Longrightarrow> plain cid"
  by (auto simp: full_id_def plain_def list_all_iff shouldEscape_def alnum_def lower_hex_def in_range_def)

lemma url_escape_plain: "plain p \<Longrightarrow> url_escape p = p"
  by (induction p) (auto simp: plain_def url_escape_def)

lemma url_unescape_plain: "CHR ''%'' \<notin> set p \<Longrightarrow> url_unescape p = Some p"
  by (induction p) auto

lemma RequestURI_plain:
  assumes "plain p" "p \<noteq> []" "p \<noteq> ''*''" "q = [] \<or> (\<exists>q'. q = CHR ''?'' # q' \<and> CHR ''#'' \<notin> set q' \<and> \<not> list_ex is_ctl q')"
  shows "RequestURI (p @ q) = Some (p @ q)"
proof -
  have p: "CHR ''%'' \<notin> set p" "CHR ''?'' \<notin> set p" "CHR ''#'' \<notin> set p" "\<not> list_ex is_ctl p"
    using plain_bytes [OF assms(1)] by (auto simp: list_ex_iff)
  have "CHR ''#'' \<notin> set (p @ q)" using p assms(4) by auto
  then have "Cut (CHR ''#'') (p @ q) = None" by (rule Cut_None)
  moreover have "cut_query (p @ q) = (p, q)"
    using p assms(4) by (auto simp: cut_query_def Cut_None Cut_append)
  moreover have "\<not> list_ex is_ctl (p @ q)" using p assms(4) by (auto simp: is_ctl_def)
  ultimately show ?thesis
    using assms(2,3) url_unescape_plain [OF p(1)] url_escape_plain [OF assms(1)]
    by (simp add: RequestURI_def EscapedPath_def)
qed

lemma RequestURI_paths:
  "RequestURI cgroup_Path = Some cgroup_Path"
  "RequestURI containers_Path = Some containers_Path"
  "full_id cid \<Longrightarrow> RequestURI (stats_Path cid) = Some (stats_Path cid)"
  "full_id cid \<Longrightarrow> RequestURI (state_Path cid) = Some (state_Path cid)"
proof -
  have lits: "plain ''/info''" "plain ''/containers/json''" "plain ''/containers/''" "plain ''/stats''" "plain ''/json''"
    by code_simp+
  have q: "CHR ''#'' \<notin> set ''all=true''" "\<not> list_ex is_ctl ''all=true''"
    "CHR ''#'' \<notin> set ''stream=false&one-shot=true''" "\<not> list_ex is_ctl ''stream=false&one-shot=true''"
    by code_simp+
  show "RequestURI cgroup_Path = Some cgroup_Path"
    using RequestURI_plain [OF lits(1), of "[]"] by (simp add: cgroup_Path_def)
  show "RequestURI containers_Path = Some containers_Path"
    using RequestURI_plain [OF lits(2), of "CHR ''?'' # ''all=true''"] q(1,2) by (simp add: containers_Path_def)
  assume cid: "full_id cid"
  have pl: "plain (''/containers/'' @ cid @ ''/stats'')" "plain (''/containers/'' @ cid @ ''/json'')"
    by (simp_all only: plain_append lits plain_full_id [OF cid])
  show "RequestURI (stats_Path cid) = Some (stats_Path cid)"
    using RequestURI_plain [OF pl(1), of "CHR ''?'' # ''stream=false&one-shot=true''"] q(3,4)
    by (simp add: stats_Path_def)
  show "RequestURI (state_Path cid) = Some (state_Path cid)"
    using RequestURI_plain [OF pl(2), of "[]"] by (simp add: state_Path_def)
qed

definition get_request :: "bytes \<Rightarrow> Request" where
  "get_request path = \<lparr>rq_Method = ''GET'', rq_Path = path, rq_Target = path\<rparr>"

text \<open>What \<open>docker_Get\<close> makes of the answer of a request that was let through.\<close>

definition reply_body :: "bytes \<Rightarrow> go_err + Response \<Rightarrow> go_err + bytes" where
  "reply_body path r =
     (case r of Inl err \<Rightarrow> Inl (UrlErr path err)
      | Inr resp \<Rightarrow>
          if maxBody < length (rs_Body resp) then Inl (TooLarge path)
          else if rs_StatusCode resp \<noteq> 200 then Inl (BadStatus path (rs_Status resp) (TrimSpace (rs_Body resp)))
          else Inr (rs_Body resp))"

lemma reply_take: "(let b = take (Suc maxBody) body in if maxBody < length b then x else y b)
    = (if maxBody < length body then x else y body)"
  by (simp add: Let_def min_def)

lemma docker_Get_allowed:
  assumes "RequestURI path = Some path" "read_target path"
  shows "docker_Get nxt path w = map_prod id (reply_body path) (nxt (get_request path) w)"
  using assms
  by (auto simp: docker_Get_def RoundTrip_cases get_request_def reply_body_def reply_take split: prod.split sum.split)

lemma read_target_uri: "read_target path \<Longrightarrow> RequestURI path = Some path"
  unfolding read_target_def by (elim disjE exE conjE) (simp_all only: RequestURI_paths)

lemma docker_Get_cases:
  "(\<exists>req. rq_Method req = ''GET'' \<and> read_target (rq_Target req)
       \<and> docker_Get nxt path w = map_prod id (reply_body path) (nxt req w))
     \<or> (fst (docker_Get nxt path w) = w \<and> \<not> is_ok (snd (docker_Get nxt path w)))"
proof (cases "RequestURI path")
  case None
  then show ?thesis by (simp add: docker_Get_def)
next
  case (Some target)
  let ?req = "\<lparr>rq_Method = ''GET'', rq_Path = path, rq_Target = target\<rparr>"
  show ?thesis
  proof (cases "read_target target")
    case True
    then have "docker_Get nxt path w = map_prod id (reply_body path) (nxt ?req w)" using Some
      by (auto simp: docker_Get_def RoundTrip_cases reply_body_def reply_take split: prod.split sum.split)
    then show ?thesis using True by (intro disjI1 exI [of _ ?req]) simp
  qed (use Some in \<open>simp add: docker_Get_def RoundTrip_cases\<close>)
qed

lemma reply_body_bounded: "reply_body path r = Inr body \<Longrightarrow> length body \<le> maxBody"
  by (auto simp: reply_body_def split: sum.splits if_splits)

lemma docker_Get_bounded:
  assumes "snd (docker_Get nxt path w) = Inr body"
  shows "length body \<le> maxBody"
  using docker_Get_cases [of nxt path w]
proof
  assume "\<exists>req. rq_Method req = ''GET'' \<and> read_target (rq_Target req)
       \<and> docker_Get nxt path w = map_prod id (reply_body path) (nxt req w)"
  then obtain req where "docker_Get nxt path w = map_prod id (reply_body path) (nxt req w)" by blast
  then have "reply_body path (snd (nxt req w)) = Inr body" using assms by simp
  then show ?thesis by (rule reply_body_bounded)
qed (simp add: assms)

text \<open>
  C4. The client is read-only: whatever is asked of it, by any path and in any state of the daemon, the
  request that reaches the socket is a GET on \<^verbatim>\<open>/info\<close>, on the container list, or on the stats or the
  details of a container named by its full 64-digit id; every other request is refused, with an error
  that says so, and leaves the daemon untouched. The agent's own four requests do go through, each to
  exactly the path it names, and no reply over \<^verbatim>\<open>maxBody\<close> bytes is returned.
\<close>

theorem docker_client_is_read_only:
  "((\<exists>req. rq_Method req = ''GET'' \<and> read_target (rq_Target req)
        \<and> docker_Get nxt path w = map_prod id (reply_body path) (nxt req w))
      \<or> (fst (docker_Get nxt path w) = w \<and> \<not> is_ok (snd (docker_Get nxt path w))))
   \<and> (rq_Method req \<noteq> ''GET'' \<or> \<not> read_target (rq_Target req) \<longrightarrow>
        fst (RoundTrip nxt req w) = w \<and> \<not> is_ok (snd (RoundTrip nxt req w)))
   \<and> (read_target path \<longrightarrow>
        docker_Get nxt path w = map_prod id (reply_body path) (nxt (get_request path) w))
   \<and> (snd (docker_Get nxt path w) = Inr body \<longrightarrow> length body \<le> maxBody)"
proof (intro conjI impI)
  show "length body \<le> maxBody" if "snd (docker_Get nxt path w) = Inr body"
    using that by (rule docker_Get_bounded)
  show "docker_Get nxt path w = map_prod id (reply_body path) (nxt (get_request path) w)" if "read_target path"
    by (rule docker_Get_allowed [OF read_target_uri [OF that] that])
  assume "rq_Method req \<noteq> ''GET'' \<or> \<not> read_target (rq_Target req)"
  then have "\<not> (rq_Method req = ''GET'' \<and> read_target (rq_Target req))" by (simp only: de_Morgan_conj)
  then show "fst (RoundTrip nxt req w) = w" "\<not> is_ok (snd (RoundTrip nxt req w))"
    unfolding RoundTrip_cases by (simp_all only: if_False fst_conv snd_conv sum.case not_False_eq_True)
qed (rule docker_Get_cases)

theorem docker_client_is_read_only_witness:
  "let nxt = (\<lambda>req n. (Suc n, Inr \<lparr>rs_StatusCode = 200, rs_Status = ''200 OK'', rs_Body = ''[]''\<rparr>));
       cid = replicate 64 (CHR ''a'')
   in docker_Get nxt (stats_Path cid) (0 :: nat) = (1, Inr ''[]'')
      \<and> fst (RoundTrip nxt \<lparr>rq_Method = ''POST'', rq_Path = [], rq_Target = ''/info''\<rparr> (0 :: nat)) = 0"
proof -
  have "read_target (stats_Path (replicate 64 (CHR ''a'')))"
    unfolding read_target_def by (rule disjI2, rule disjI2, rule exI [of _ "replicate 64 (CHR ''a'')"])
      (simp add: full_id_def lower_hex_def in_range_def list_all_iff)
  moreover have "\<not> maxBody < length ''[]''" by (simp add: maxBody_def)
  ultimately show ?thesis
    using docker_client_is_read_only [where nxt = "\<lambda>req n. (Suc n, Inr \<lparr>rs_StatusCode = 200, rs_Status = ''200 OK'', rs_Body = ''[]''\<rparr>)"
        and path = "stats_Path (replicate 64 (CHR ''a''))" and w = 0
        and req = "\<lparr>rq_Method = ''POST'', rq_Path = [], rq_Target = ''/info''\<rparr>"]
    unfolding Let_def reply_body_def
    by (simp add: get_request_def)
qed

end
