(* ===== verification/DockerMetrics.thy ===== *)
theory DockerMetrics
  imports DockerClient GoDecode Float64 "HOL-Library.Product_Lexorder" "HOL-Library.Multiset"
begin

text \<open>
  The metrics of \<^verbatim>\<open>src/docker\<close>: \<^verbatim>\<open>containers\<close>, \<^verbatim>\<open>stats\<close>, \<^verbatim>\<open>state\<close> and \<^verbatim>\<open>cgroup\<close>, each from the bytes
  of a reply to what is published. A Go pointer that stays nil when the reply lacks the key is an option.
\<close>

section \<open>The container list\<close>

record ct_Entry =
  ce_ID :: bytes
  ce_Names :: "bytes list"
  ce_Image :: bytes
  ce_State :: bytes

record Container =
  ct_ID :: bytes
  ct_Name :: bytes
  ct_Image :: bytes
  ct_State :: bytes

definition decode :: "bytes \<Rightarrow> 'a dec \<Rightarrow> 'a \<Rightarrow> bytes \<Rightarrow> go_err + 'a" where
  "decode what d z data = (case Unmarshal d z data of None \<Rightarrow> Inl (BadJSON what data) | Some x \<Rightarrow> Inr x)"

definition entry_zero :: ct_Entry where
  "entry_zero = \<lparr>ce_ID = [], ce_Names = [], ce_Image = [], ce_State = []\<rparr>"

definition entry_fields :: "(bytes \<times> ct_Entry dec) list" where
  "entry_fields =
     [(''Id'', sub ce_ID ce_ID_update dec_string), (''Names'', sub ce_Names ce_Names_update (dec_slice [] dec_string)),
      (''Image'', sub ce_Image ce_Image_update dec_string), (''State'', sub ce_State ce_State_update dec_string)]"

definition containers_Parse :: "bytes \<Rightarrow> go_err + ct_Entry list" where
  "containers_Parse data = decode ''containers'' (dec_slice entry_zero (dec_struct entry_fields)) [] data"

definition to_container :: "ct_Entry \<Rightarrow> Container" where
  "to_container e =
     \<lparr>ct_ID = ce_ID e, ct_Name = (case ce_Names e of [] \<Rightarrow> [] | name # _ \<Rightarrow> TrimPrefix name ''/''),
      ct_Image = ce_Image e, ct_State = ce_State e\<rparr>"

definition container_key :: "Container \<Rightarrow> bytes \<times> bytes" where
  "container_key c = (ct_Name c, ct_ID c)"

text \<open>
  \<^verbatim>\<open>sort.Slice\<close> with the name, then the id. Go leaves the order of two entries with the same name and id
  open; the daemon's ids are unique.
\<close>

definition ToContainers :: "ct_Entry list \<Rightarrow> Container list" where
  "ToContainers entries = sort_key container_key (map to_container entries)"

section \<open>Stats\<close>

record rawStats =
  rw_Read :: time
  rw_TotalUsage :: u64
  rw_PercpuUsage :: "u64 list"
  rw_SystemCPUUsage :: "u64 option"
  rw_OnlineCPUs :: int
  rw_Usage :: "u64 option"
  rw_Limit :: u64
  rw_Stats :: "(bytes \<times> u64) list option"
  rw_Networks :: "(bytes \<times> u64 \<times> u64) list option"
  rw_PIDs :: "u64 option"
  rw_Blkio :: "(bytes \<times> u64) list"

record stats_Sample =
  st_Running :: bool
  st_CPUTotal :: u64
  st_SystemTotal :: u64
  st_HasSystem :: bool
  st_CPUs :: int
  st_HasMemory :: bool
  st_MemUsage :: u64
  st_MemLimit :: u64
  st_MemCache :: u64
  st_HasNetwork :: bool
  st_RxBytes :: u64
  st_TxBytes :: u64
  st_ReadBytes :: u64
  st_WriteBytes :: u64
  st_HasPIDs :: bool
  st_PIDs :: u64

definition stats_zero :: stats_Sample where
  "stats_zero = \<lparr>st_Running = False, st_CPUTotal = 0, st_SystemTotal = 0, st_HasSystem = False, st_CPUs = 0,
     st_HasMemory = False, st_MemUsage = 0, st_MemLimit = 0, st_MemCache = 0, st_HasNetwork = False,
     st_RxBytes = 0, st_TxBytes = 0, st_ReadBytes = 0, st_WriteBytes = 0, st_HasPIDs = False, st_PIDs = 0\<rparr>"

definition blkio_step :: "bytes \<times> u64 \<Rightarrow> stats_Sample \<Rightarrow> stats_Sample" where
  "blkio_step e s =
     (case e of (op, v) \<Rightarrow>
        if ToLower op = ''read'' then s\<lparr>st_ReadBytes := st_ReadBytes s + v\<rparr>
        else if ToLower op = ''write'' then s\<lparr>st_WriteBytes := st_WriteBytes s + v\<rparr> else s)"

definition network_step :: "u64 \<times> u64 \<Rightarrow> stats_Sample \<Rightarrow> stats_Sample" where
  "network_step n s =
     (case n of (rx, tx) \<Rightarrow> s\<lparr>st_RxBytes := st_RxBytes s + rx, st_TxBytes := st_TxBytes s + tx\<rparr>)"

text \<open>Looking a key up in a map that may be nil.\<close>

definition go_map :: "(bytes \<times> 'a) list option \<Rightarrow> (bytes \<rightharpoonup> 'a)" where
  "go_map m = (case m of None \<Rightarrow> Map.empty | Some ps \<Rightarrow> map_of ps)"

definition memory_cache :: "(bytes \<rightharpoonup> u64) \<Rightarrow> u64" where
  "memory_cache m =
     (case m ''total_inactive_file'' of Some v \<Rightarrow> v
      | None \<Rightarrow> (case m ''inactive_file'' of Some v \<Rightarrow> v | None \<Rightarrow> 0))"

definition raw_Sample :: "rawStats \<Rightarrow> stats_Sample" where
  "raw_Sample raw =
     (let s = stats_zero\<lparr>st_Running := \<not> IsZero (rw_Read raw)\<rparr>
      in if \<not> st_Running s then s
         else let s = s\<lparr>st_CPUTotal := rw_TotalUsage raw\<rparr>;
                  s = (case rw_SystemCPUUsage raw of None \<Rightarrow> s
                       | Some v \<Rightarrow> s\<lparr>st_SystemTotal := v, st_HasSystem := True\<rparr>);
                  s = s\<lparr>st_CPUs := (if rw_OnlineCPUs raw = 0 then int (length (rw_PercpuUsage raw))
                                     else rw_OnlineCPUs raw)\<rparr>;
                  s = (case rw_Usage raw of None \<Rightarrow> s
                       | Some v \<Rightarrow> s\<lparr>st_HasMemory := True, st_MemUsage := v, st_MemLimit := rw_Limit raw,
                                     st_MemCache := memory_cache (go_map (rw_Stats raw))\<rparr>);
                  s = (case rw_Networks raw of None \<Rightarrow> s
                       | Some ns \<Rightarrow> fold network_step (map snd ns) (s\<lparr>st_HasNetwork := True\<rparr>));
                  s = fold blkio_step (rw_Blkio raw) s
              in case rw_PIDs raw of None \<Rightarrow> s | Some v \<Rightarrow> s\<lparr>st_HasPIDs := True, st_PIDs := v\<rparr>)"

definition raw_zero :: rawStats where
  "raw_zero = \<lparr>rw_Read = 0, rw_TotalUsage = 0, rw_PercpuUsage = [], rw_SystemCPUUsage = None, rw_OnlineCPUs = 0,
     rw_Usage = None, rw_Limit = 0, rw_Stats = None, rw_Networks = None, rw_PIDs = None, rw_Blkio = []\<rparr>"

text \<open>The fields of \<^verbatim>\<open>rawStats\<close> by their JSON names; the nested structs decode into the one record.\<close>

definition network_fields :: "(bytes \<times> (u64 \<times> u64) dec) list" where
  "network_fields = [(''rx_bytes'', sub fst apfst dec_uint64), (''tx_bytes'', sub snd apsnd dec_uint64)]"

definition blkio_fields :: "(bytes \<times> (bytes \<times> u64) dec) list" where
  "blkio_fields = [(''op'', sub fst apfst dec_string), (''value'', sub snd apsnd dec_uint64)]"

definition cpu_usage_fields :: "(bytes \<times> rawStats dec) list" where
  "cpu_usage_fields =
     [(''total_usage'', sub rw_TotalUsage rw_TotalUsage_update dec_uint64),
      (''percpu_usage'', sub rw_PercpuUsage rw_PercpuUsage_update (dec_slice 0 dec_uint64))]"

definition cpu_stats_fields :: "(bytes \<times> rawStats dec) list" where
  "cpu_stats_fields =
     [(''cpu_usage'', dec_struct cpu_usage_fields),
      (''system_cpu_usage'', sub rw_SystemCPUUsage rw_SystemCPUUsage_update (dec_ptr 0 dec_uint64)),
      (''online_cpus'', sub rw_OnlineCPUs rw_OnlineCPUs_update dec_int)]"

definition memory_stats_fields :: "(bytes \<times> rawStats dec) list" where
  "memory_stats_fields =
     [(''usage'', sub rw_Usage rw_Usage_update (dec_ptr 0 dec_uint64)),
      (''limit'', sub rw_Limit rw_Limit_update dec_uint64),
      (''stats'', sub rw_Stats rw_Stats_update (dec_map 0 dec_uint64))]"

definition rawStats_fields :: "(bytes \<times> rawStats dec) list" where
  "rawStats_fields =
     [(''read'', sub rw_Read rw_Read_update dec_time),
      (''cpu_stats'', dec_struct cpu_stats_fields),
      (''memory_stats'', dec_struct memory_stats_fields),
      (''networks'', sub rw_Networks rw_Networks_update (dec_map (0, 0) (dec_struct network_fields))),
      (''pids_stats'', dec_struct [(''current'', sub rw_PIDs rw_PIDs_update (dec_ptr 0 dec_uint64))]),
      (''blkio_stats'', dec_struct
        [(''io_service_bytes_recursive'', sub rw_Blkio rw_Blkio_update (dec_slice ([], 0) (dec_struct blkio_fields)))])]"

definition stats_Parse :: "bytes \<Rightarrow> go_err + stats_Sample" where
  "stats_Parse data =
     (case decode ''stats'' (dec_struct rawStats_fields) raw_zero data of
        Inl err \<Rightarrow> Inl err
      | Inr raw \<Rightarrow> Inr (raw_Sample raw))"

definition docker_CPUPercent :: "stats_Sample \<Rightarrow> stats_Sample \<Rightarrow> rat option" where
  "docker_CPUPercent prev now =
     (if \<not> st_HasSystem prev \<or> \<not> st_HasSystem now \<or> st_CPUs now = 0 then None
      else if st_SystemTotal now \<le> st_SystemTotal prev \<or> st_CPUTotal now < st_CPUTotal prev then None
      else let cpuDelta = of_u64 (st_CPUTotal now - st_CPUTotal prev);
               systemDelta = of_u64 (st_SystemTotal now - st_SystemTotal prev)
           in Some (fmul (fmul (fdiv cpuDelta systemDelta) (of_i64 (st_CPUs now))) 100))"

definition docker_MemoryUsage :: "stats_Sample \<Rightarrow> DockerMemory option" where
  "docker_MemoryUsage s =
     (if \<not> st_HasMemory s then None
      else let used = (if st_MemCache s < st_MemUsage s then st_MemUsage s - st_MemCache s else st_MemUsage s)
           in Some \<lparr>dm_UsedBytes = used, dm_LimitBytes = st_MemLimit s,
                    dm_UsedPercent = (if 0 < st_MemLimit s then percent_of used (st_MemLimit s) else 0)\<rparr>)"

section \<open>Details and info\<close>

record state_Sample =
  ex_Running :: bool
  ex_ExitCode :: int
  ex_FinishedAt :: time

record LastExit =
  lx_ExitCode :: int
  lx_FinishedAt :: bytes

definition Exit :: "state_Sample \<Rightarrow> LastExit option" where
  "Exit s =
     (if ex_Running s \<or> IsZero (ex_FinishedAt s) then None
      else Some \<lparr>lx_ExitCode = ex_ExitCode s, lx_FinishedAt = FormatRFC3339 (ex_FinishedAt s)\<rparr>)"

definition state_Parse :: "bytes \<Rightarrow> go_err + state_Sample" where
  "state_Parse data = decode ''state''
     (dec_struct [(''State'', dec_struct
        [(''Running'', sub ex_Running ex_Running_update dec_bool), (''ExitCode'', sub ex_ExitCode ex_ExitCode_update dec_int),
         (''FinishedAt'', sub ex_FinishedAt ex_FinishedAt_update dec_time)])])
     \<lparr>ex_Running = False, ex_ExitCode = 0, ex_FinishedAt = 0\<rparr> data"

definition cgroup_Parse :: "bytes \<Rightarrow> go_err + int" where
  "cgroup_Parse data =
     (case decode ''info'' (dec_struct [(''CgroupVersion'', dec_string)]) [] data of
        Inl err \<Rightarrow> Inl err
      | Inr v \<Rightarrow>
          if v = [] \<or> v = ''1'' then Inr 1 else if v = ''2'' then Inr 2 else Inl (UnknownCgroup v))"

section \<open>The container list is in order and complete\<close>

lemma ToContainers_mset: "mset (ToContainers es) = mset (map to_container es)"
  by (simp add: ToContainers_def)

lemma sort_key_distinct_eq:
  assumes "mset ys = mset xs" "distinct (map k xs)"
  shows "sort_key k ys = sort_key k xs"
proof (rule map_sorted_distinct_set_unique [where f = k])
  have "mset (map k ys) = mset (map k xs)" using assms(1) by simp
  then have "distinct (map k ys)" using assms(2) mset_eq_imp_distinct_iff by blast
  moreover have "distinct (map k (sort_key k zs)) \<longleftrightarrow> distinct (map k zs)" for zs
    by (rule mset_eq_imp_distinct_iff) simp
  ultimately show "distinct (map k (sort_key k ys))" "distinct (map k (sort_key k xs))" using assms(2) by simp_all
  have "set ys = set xs" using assms(1) by (rule mset_eq_setD)
  then show "set (sort_key k ys) = set (sort_key k xs)" "inj_on k (set (sort_key k ys) \<union> set (sort_key k xs))"
    using assms(2) by (simp_all add: distinct_map)
qed simp_all

text \<open>
  What the daemon writes for a container: an object with the four keys in this order, among whatever other
  keys it has, each string in any spelling JSON allows.
\<close>

definition entry_value :: "jval \<Rightarrow> ct_Entry \<Rightarrow> bool" where
  "entry_value v e \<longleftrightarrow>
     (\<exists>ps i ns im st. v = VObj ps
        \<and> known_pairs entry_fields ps = [(''Id'', VStr i), (''Names'', VArr (map VStr ns)), (''Image'', VStr im), (''State'', VStr st)]
        \<and> e = \<lparr>ce_ID = unquote_json i, ce_Names = map unquote_json ns, ce_Image = unquote_json im, ce_State = unquote_json st\<rparr>)"

lemma plain_keys:
  "unquote_json ''Id'' = ''Id''" "unquote_json ''Names'' = ''Names''" "unquote_json ''Image'' = ''Image''" "unquote_json ''State'' = ''State''"
  by (rule unquote_json_plain, simp add: plain_byte_def in_range_def)+

lemma entry_field_of:
  "field_of entry_fields ''Id'' = Some (sub ce_ID ce_ID_update dec_string)"
  "field_of entry_fields ''Names'' = Some (sub ce_Names ce_Names_update (dec_slice [] dec_string))"
  "field_of entry_fields ''Image'' = Some (sub ce_Image ce_Image_update dec_string)"
  "field_of entry_fields ''State'' = Some (sub ce_State ce_State_update dec_string)"
  by (rule field_of_exact, simp add: entry_fields_def)+

lemma dec_names: "dec_elems [] dec_string (map VStr ns) [] = Some (map unquote_json ns)"
  by (rule dec_elems_map) (simp add: list_all2_conv_all_nth)

lemma decode_entry: "entry_value v e \<Longrightarrow> dec_struct entry_fields v entry_zero = Some e"
proof -
  assume "entry_value v e"
  then obtain ps i ns im st where v: "v = VObj ps"
    "known_pairs entry_fields ps = [(''Id'', VStr i), (''Names'', VArr (map VStr ns)), (''Image'', VStr im), (''State'', VStr st)]"
    "e = \<lparr>ce_ID = unquote_json i, ce_Names = map unquote_json ns, ce_Image = unquote_json im, ce_State = unquote_json st\<rparr>"
    unfolding entry_value_def by blast
  have "dec_struct entry_fields v entry_zero = dec_fields entry_fields (known_pairs entry_fields ps) entry_zero"
    unfolding v(1) dec_struct_def jval.case by (rule dec_fields_known)
  also have "\<dots> = Some e" unfolding v(2,3) dec_fields.simps plain_keys entry_field_of option.case sub_def dec_string_VStr option.map entry_zero_def
      dec_slice_def jval.case dec_names ct_Entry.simps
    by (simp add: dec_names)
  finally show ?thesis .
qed

lemma containers_Parse_text:
  assumes "json_text (VArr vs) s" "jval_ok (VArr vs)" "list_all2 entry_value vs es"
  shows "containers_Parse s = Inr es"
proof -
  have "list_all2 (\<lambda>v e. dec_struct entry_fields v entry_zero = Some e) vs es"
    using assms(3) by (rule list.rel_mono_strong) (rule decode_entry)
  then have "Unmarshal (dec_slice entry_zero (dec_struct entry_fields)) [] s = Some es"
    unfolding Unmarshal_text [OF assms(1,2)] by (simp add: dec_slice_def dec_elems_map)
  then show ?thesis by (simp add: containers_Parse_def decode_def)
qed

text \<open>
  The container list is read and ordered: whatever the layout of the reply, its white space, the other
  keys of its entries and the spelling of its strings, the published list is every listed container, once
  each, in order of name and then id; and two replies that list the same containers in a different order
  give the same list, so long as no two containers share both name and id.
\<close>

theorem docker_list_sorted_and_complete:
  assumes "json_text (VArr vs) s" "jval_ok (VArr vs)" "list_all2 entry_value vs es"
  shows "map_sum id ToContainers (containers_Parse s) = Inr (ToContainers es)
     \<and> mset (ToContainers es) = mset (map to_container es) \<and> sorted (map container_key (ToContainers es))
     \<and> (mset es' = mset es \<and> distinct (map (container_key \<circ> to_container) es) \<longrightarrow> ToContainers es' = ToContainers es)"
proof (intro conjI impI)
  show "map_sum id ToContainers (containers_Parse s) = Inr (ToContainers es)" by (simp add: containers_Parse_text [OF assms])
  assume "mset es' = mset es \<and> distinct (map (container_key \<circ> to_container) es)"
  then show "ToContainers es' = ToContainers es"
    unfolding ToContainers_def by (intro sort_key_distinct_eq) (simp_all add: comp_def)
qed (simp_all add: ToContainers_def)

definition listed_value :: "bytes \<Rightarrow> bytes \<Rightarrow> bytes \<Rightarrow> bytes \<Rightarrow> jval" where
  "listed_value cid name img state =
     VObj [(''Id'', VStr cid), (''Names'', VArr [VStr name]), (''Image'', VStr img), (''Created'', VNum ''17''), (''State'', VStr state)]"

lemma listed_value_ok:
  assumes "list_all plain_byte cid" "list_all plain_byte name" "list_all plain_byte img" "list_all plain_byte state"
  shows "entry_value (listed_value cid name img state) \<lparr>ce_ID = cid, ce_Names = [name], ce_Image = img, ce_State = state\<rparr>"
    and "list_all tok_ok (jtoks (listed_value cid name img state))" and "depth (listed_value cid name img state) = 2"
proof -
  have created: "unquote_json ''Created'' = ''Created''" by (rule unquote_json_plain) (simp add: plain_byte_def in_range_def)
  have unknown: "field_of entry_fields ''Created'' = None" by code_simp
  have known: "known_pairs entry_fields [(''Id'', VStr cid), (''Names'', VArr (map VStr [name])), (''Image'', VStr img),
      (''Created'', VNum ''17''), (''State'', VStr state)]
    = [(''Id'', VStr cid), (''Names'', VArr (map VStr [name])), (''Image'', VStr img), (''State'', VStr state)]"
    unfolding known_pairs_def filter.simps prod.case plain_keys created unknown entry_field_of by (simp only: simp_thms option.distinct if_True if_False)
  show "entry_value (listed_value cid name img state) \<lparr>ce_ID = cid, ce_Names = [name], ce_Image = img, ce_State = state\<rparr>"
    unfolding entry_value_def listed_value_def
  proof (intro exI conjI)
    show "VObj [(''Id'', VStr cid), (''Names'', VArr [VStr name]), (''Image'', VStr img), (''Created'', VNum ''17''), (''State'', VStr state)]
      = VObj [(''Id'', VStr cid), (''Names'', VArr (map VStr [name])), (''Image'', VStr img), (''Created'', VNum ''17''), (''State'', VStr state)]"
      unfolding list.map by (rule refl)
    show "\<lparr>ce_ID = cid, ce_Names = [name], ce_Image = img, ce_State = state\<rparr>
      = \<lparr>ce_ID = unquote_json cid, ce_Names = map unquote_json [name], ce_Image = unquote_json img, ce_State = unquote_json state\<rparr>"
      by (simp only: unquote_json_plain assms list.map)
  qed (rule known)
  have num: "tok_ok (TNum ''17'')" unfolding tok_ok_def jtok.case by code_simp
  have keys: "tok_ok (TStr ''Id'')" "tok_ok (TStr ''Names'')" "tok_ok (TStr ''Image'')" "tok_ok (TStr ''Created'')" "tok_ok (TStr ''State'')"
    by (rule tok_ok_plain, simp add: plain_byte_def in_range_def)+
  show "list_all tok_ok (jtoks (listed_value cid name img state))"
    unfolding listed_value_def jtoks.simps jtoks_arr.simps jtoks_obj.simps
    by (simp only: list.pred_inject list_all_append append.simps if_True if_False list.distinct simp_thms num keys tok_ok_marks tok_ok_plain assms)
  show "depth (listed_value cid name img state) = 2"
    unfolding listed_value_def depth.simps list.map by (simp add: depth.simps numeral_2_eq_2)
qed

theorem docker_list_sorted_and_complete_witness:
  "let a = listed_value ''1'' ''/web'' ''nginx'' ''running''; b = listed_value ''2'' ''/db'' ''postgres'' ''exited'';
       read = (\<lambda>vs. map_sum id (map ct_Name \<circ> ToContainers) (containers_Parse (json_print (VArr vs))))
   in read [a, b] = Inr [''db'', ''web''] \<and> read [b, a] = Inr [''db'', ''web'']"
proof -
  let ?a = "\<lparr>ce_ID = ''1'', ce_Names = [''/web''], ce_Image = ''nginx'', ce_State = ''running''\<rparr>"
  let ?b = "\<lparr>ce_ID = ''2'', ce_Names = [''/db''], ce_Image = ''postgres'', ce_State = ''exited''\<rparr>"
  let ?va = "listed_value ''1'' ''/web'' ''nginx'' ''running''" and ?vb = "listed_value ''2'' ''/db'' ''postgres'' ''exited''"
  have plain: "list_all plain_byte ''1''" "list_all plain_byte ''/web''" "list_all plain_byte ''nginx''" "list_all plain_byte ''running''"
    "list_all plain_byte ''2''" "list_all plain_byte ''/db''" "list_all plain_byte ''postgres''" "list_all plain_byte ''exited''"
    by (simp_all add: plain_byte_def in_range_def)
  note va = listed_value_ok [OF plain(1-4)] and vb = listed_value_ok [OF plain(5-8)]
  have ok: "jval_ok (VArr [?va, ?vb])" "jval_ok (VArr [?vb, ?va])"
    unfolding jval_ok_def jtoks.simps jtoks_arr.simps depth.simps list.map va(3) vb(3) maxNestingDepth_def
    by (simp_all only: list.pred_inject list_all_append append.simps if_True if_False list.distinct simp_thms tok_ok_marks va(2) vb(2))
      (simp_all add: numeral_2_eq_2)
  have "list_all2 entry_value [?va, ?vb] [?a, ?b]" "list_all2 entry_value [?vb, ?va] [?b, ?a]" using va(1) vb(1) by simp_all
  note read = docker_list_sorted_and_complete [OF json_text_print ok(1) this(1), THEN conjunct1]
    docker_list_sorted_and_complete [OF json_text_print ok(2) this(2), THEN conjunct1]
  have names: "map ct_Name (ToContainers [?a, ?b]) = [''db'', ''web'']" "map ct_Name (ToContainers [?b, ?a]) = [''db'', ''web'']"
    by code_simp+
  have "map_sum id (map ct_Name \<circ> ToContainers) x = map_sum id (map ct_Name) (map_sum id ToContainers x)"
    for x :: "go_err + ct_Entry list" by (cases x) simp_all
  then show ?thesis unfolding Let_def by (simp only: read map_sum.simps names simp_thms)
qed

section \<open>Stats\<close>

lemma network_fold:
  "fold network_step ns s = s\<lparr>st_RxBytes := st_RxBytes s + sum_list (map fst ns), st_TxBytes := st_TxBytes s + sum_list (map snd ns)\<rparr>"
  by (induction ns arbitrary: s) (auto simp: network_step_def algebra_simps split: prod.split)

definition op_total :: "bytes \<Rightarrow> (bytes \<times> u64) list \<Rightarrow> u64" where
  "op_total op es = sum_list (map snd (filter (\<lambda>e. ToLower (fst e) = op) es))"

lemma blkio_fold:
  "fold blkio_step es s = s\<lparr>st_ReadBytes := st_ReadBytes s + op_total ''read'' es, st_WriteBytes := st_WriteBytes s + op_total ''write'' es\<rparr>"
  by (induction es arbitrary: s) (auto simp: blkio_step_def op_total_def algebra_simps split: prod.split)

lemma raw_Sample_running:
  "\<not> IsZero (rw_Read raw) \<Longrightarrow> raw_Sample raw =
     \<lparr>st_Running = True, st_CPUTotal = rw_TotalUsage raw,
      st_SystemTotal = (case rw_SystemCPUUsage raw of None \<Rightarrow> 0 | Some v \<Rightarrow> v),
      st_HasSystem = (rw_SystemCPUUsage raw \<noteq> None),
      st_CPUs = (if rw_OnlineCPUs raw = 0 then int (length (rw_PercpuUsage raw)) else rw_OnlineCPUs raw),
      st_HasMemory = (rw_Usage raw \<noteq> None), st_MemUsage = (case rw_Usage raw of None \<Rightarrow> 0 | Some v \<Rightarrow> v),
      st_MemLimit = (if rw_Usage raw = None then 0 else rw_Limit raw),
      st_MemCache = (if rw_Usage raw = None then 0 else memory_cache (go_map (rw_Stats raw))),
      st_HasNetwork = (rw_Networks raw \<noteq> None),
      st_RxBytes = (case rw_Networks raw of None \<Rightarrow> 0 | Some ns \<Rightarrow> sum_list (map (fst \<circ> snd) ns)),
      st_TxBytes = (case rw_Networks raw of None \<Rightarrow> 0 | Some ns \<Rightarrow> sum_list (map (snd \<circ> snd) ns)),
      st_ReadBytes = op_total ''read'' (rw_Blkio raw), st_WriteBytes = op_total ''write'' (rw_Blkio raw),
      st_HasPIDs = (rw_PIDs raw \<noteq> None), st_PIDs = (case rw_PIDs raw of None \<Rightarrow> 0 | Some v \<Rightarrow> v)\<rparr>"
  unfolding raw_Sample_def network_fold blkio_fold
  by (cases "rw_SystemCPUUsage raw"; cases "rw_Usage raw"; cases "rw_Networks raw"; cases "rw_PIDs raw")
    (simp_all add: stats_zero_def Let_def comp_def)

text \<open>
  A stats reply is read in full: one that has no read time is not running and carries nothing; any
  other carries exactly what the daemon sent, with block I/O summed over the entries of each kind in
  either spelling, network bytes over the container's networks, and a figure flagged as present exactly
  when the daemon sent it.
\<close>

theorem docker_stats_parse_correct:
  "(IsZero (rw_Read raw) \<longrightarrow> raw_Sample raw = stats_zero)
   \<and> (\<not> IsZero (rw_Read raw) \<longrightarrow>
       (let s = raw_Sample raw in
        st_Running s \<and> st_CPUTotal s = rw_TotalUsage raw
        \<and> (if st_HasSystem s then rw_SystemCPUUsage raw = Some (st_SystemTotal s) else rw_SystemCPUUsage raw = None)
        \<and> (if st_HasMemory s then rw_Usage raw = Some (st_MemUsage s) \<and> st_MemLimit s = rw_Limit raw else rw_Usage raw = None)
        \<and> (if st_HasPIDs s then rw_PIDs raw = Some (st_PIDs s) else rw_PIDs raw = None)
        \<and> st_HasNetwork s = (rw_Networks raw \<noteq> None)
        \<and> (\<forall>ns. rw_Networks raw = Some ns \<longrightarrow>
             st_RxBytes s = sum_list (map (fst \<circ> snd) ns) \<and> st_TxBytes s = sum_list (map (snd \<circ> snd) ns))
        \<and> st_ReadBytes s = op_total ''read'' (rw_Blkio raw) \<and> st_WriteBytes s = op_total ''write'' (rw_Blkio raw)))"
proof (cases "IsZero (rw_Read raw)")
  case True
  then show ?thesis by (simp add: raw_Sample_def stats_zero_def)
next
  case False
  show ?thesis unfolding raw_Sample_running [OF False] Let_def using False
    by (simp split: option.split)
qed

theorem docker_stats_parse_correct_witness:
  "\<exists>raw. \<not> IsZero (rw_Read raw) \<and> st_Running (raw_Sample raw) \<and> st_HasNetwork (raw_Sample raw)
     \<and> st_RxBytes (raw_Sample raw) = 8 \<and> st_ReadBytes (raw_Sample raw) = 9 \<and> \<not> st_HasPIDs (raw_Sample raw)"
proof -
  let ?raw = "\<lparr>rw_Read = 1, rw_TotalUsage = 5, rw_PercpuUsage = [], rw_SystemCPUUsage = Some 7, rw_OnlineCPUs = 2,
    rw_Usage = None, rw_Limit = 0, rw_Stats = None, rw_Networks = Some [(''eth0'', 3, 1), (''eth1'', 5, 2)], rw_PIDs = None,
    rw_Blkio = [(''Read'', 4), (''read'', 5), (''Sync'', 6)]\<rparr>"
  have ops: "ToLower ''Read'' = ''read''" "ToLower ''read'' = ''read''" "ToLower ''Sync'' = ''sync''" by code_simp+
  have nz: "\<not> IsZero (rw_Read ?raw)" by (simp add: IsZero_def)
  have "op_total ''read'' (rw_Blkio ?raw) = 9" unfolding op_total_def by (simp add: ops)
  moreover note docker_stats_parse_correct [of ?raw, unfolded Let_def, THEN conjunct2, rule_format, OF nz]
  ultimately have "\<not> IsZero (rw_Read ?raw) \<and> st_Running (raw_Sample ?raw) \<and> st_HasNetwork (raw_Sample ?raw)
     \<and> st_RxBytes (raw_Sample ?raw) = 8 \<and> st_ReadBytes (raw_Sample ?raw) = 9 \<and> \<not> st_HasPIDs (raw_Sample ?raw)"
    using nz by (simp split: if_splits)
  then show ?thesis by blast
qed

section \<open>CPU and memory figures\<close>

text \<open>The shape \<open>float64(a) / float64(b) * float64(n) * 100\<close> of a figure where one core is 100.\<close>

context rounding
begin

lemma cores_nonneg: "0 \<le> a \<Longrightarrow> 0 \<le> b \<Longrightarrow> 0 \<le> r (r (r (r a / r b) * r (of_nat n)) * 100)"
  by (intro nonneg mult_nonneg_nonneg divide_nonneg_nonneg) simp_all

lemma cores_percent:
  assumes "0 \<le> a" "a \<le> b" "1 \<le> b" "100 * n \<le> 2 ^ 53"
  shows "r (r (r (r a / r b) * r (of_nat n)) * 100) \<le> 100 * of_nat n"
proof -
  have n: "r (of_nat n) = of_nat n" "r (of_nat (n * 100)) = of_nat (n * 100)"
    by (rule exact_nat, use assms(4) in simp)+
  have "r (r a / r b) * of_nat n \<le> 1 * of_nat n"
    using ratio_le_one [OF assms(1-3)] by (intro mult_right_mono) simp_all
  then have "r (r (r a / r b) * of_nat n) \<le> of_nat n" using mono n(1) by fastforce
  then have "r (r (r a / r b) * of_nat n) * 100 \<le> of_nat (n * 100)" by simp
  then have "r (r (r (r a / r b) * of_nat n) * 100) \<le> of_nat (n * 100)" using mono n(2) by metis
  then show ?thesis using n(1) by (simp add: mult.commute)
qed

lemma cores_full:
  assumes "1 \<le> b" "100 * n \<le> 2 ^ 53"
  shows "r (r (r (r b / r b) * r (of_nat n)) * 100) = 100 * of_nat n"
proof -
  have n: "r (of_nat n) = of_nat n" "r (of_nat (n * 100)) = of_nat (n * 100)"
    by (rule exact_nat, use assms(2) in simp)+
  have "r b / r b = 1" using ge_one [OF assms(1)] by simp
  then show ?thesis using n by (simp add: mult.commute)
qed

end

lemma docker_CPUPercent_None:
  "docker_CPUPercent prev now = None \<longleftrightarrow> \<not> st_HasSystem prev \<or> \<not> st_HasSystem now \<or> st_CPUs now = 0
     \<or> unat (st_SystemTotal now) \<le> unat (st_SystemTotal prev) \<or> unat (st_CPUTotal now) < unat (st_CPUTotal prev)"
  by (auto simp: docker_CPUPercent_def Let_def word_le_nat_alt word_less_nat_alt)

text \<open>
  C23. The CPU figure of a container: it is left out exactly when the window between the two samples cannot
  be used: the host's time is missing from one of them, the number of cores is 0, the host's time did not advance or the
  container's went back. Otherwise it is never negative, it is at most 100 for each core while the container used no
  more time than the host had, it is exactly that when the container used all of it, and 0 when it used
  none.
\<close>

theorem docker_cpu_percent_correct:
  "(docker_CPUPercent prev now = None \<longleftrightarrow> \<not> st_HasSystem prev \<or> \<not> st_HasSystem now \<or> st_CPUs now = 0
      \<or> unat (st_SystemTotal now) \<le> unat (st_SystemTotal prev) \<or> unat (st_CPUTotal now) < unat (st_CPUTotal prev))
   \<and> (\<forall>p. docker_CPUPercent prev now = Some p \<and> 0 \<le> st_CPUs now \<and> 100 * st_CPUs now \<le> 2 ^ 53 \<longrightarrow>
        (let cpu = unat (st_CPUTotal now) - unat (st_CPUTotal prev);
             host = unat (st_SystemTotal now) - unat (st_SystemTotal prev)
         in 0 \<le> p \<and> (cpu \<le> host \<longrightarrow> p \<le> 100 * of_int (st_CPUs now))
            \<and> (cpu = host \<longrightarrow> p = 100 * of_int (st_CPUs now)) \<and> (cpu = 0 \<longrightarrow> p = 0)))"
proof (intro conjI allI impI docker_CPUPercent_None)
  fix p
  assume "docker_CPUPercent prev now = Some p \<and> 0 \<le> st_CPUs now \<and> 100 * st_CPUs now \<le> 2 ^ 53"
  then have Some: "docker_CPUPercent prev now = Some p" and cpus: "0 \<le> st_CPUs now" "100 * st_CPUs now \<le> 2 ^ 53" by simp_all
  define cpu where "cpu = unat (st_CPUTotal now) - unat (st_CPUTotal prev)"
  define host where "host = unat (st_SystemTotal now) - unat (st_SystemTotal prev)"
  define n where "n = nat (st_CPUs now)"
  let ?c = "st_CPUTotal now - st_CPUTotal prev" and ?h = "st_SystemTotal now - st_SystemTotal prev"
  have n: "st_CPUs now = int n" "100 * n \<le> 2 ^ 53" using cpus by (simp_all add: n_def)
  have g: "st_SystemTotal prev < st_SystemTotal now" "st_CPUTotal prev \<le> st_CPUTotal now"
    using Some by (auto simp: docker_CPUPercent_def not_le not_less split: if_splits)
  have d: "unat ?c = cpu" "unat ?h = host"
    using g by (simp_all add: unat_sub_le less_imp_le cpu_def host_def)
  have "0 < host" using g(1) by (simp add: word_less_nat_alt host_def)
  then have h1: "(1 :: rat) \<le> of_nat host" by simp
  have nz: "of_u64 ?h \<noteq> 0" using g(1) by (intro of_u64_neq_0) (simp add: word_sub_pos)
  have "p = fmul (fmul (fdiv (of_u64 ?c) (of_u64 ?h)) (of_i64 (st_CPUs now))) 100"
    using Some g by (auto simp: docker_CPUPercent_def Let_def split: if_splits)
  then have p: "p = rnd (rnd (rnd (rnd (of_nat cpu) / rnd (of_nat host)) * rnd (of_nat n)) * 100)"
    unfolding fdiv_eq [OF nz] unfolding fmul_def of_i64_def n(1) of_u64_def d by (simp only: of_int_of_nat_eq)
  have "0 \<le> p" unfolding p by (rule binary64.cores_nonneg) simp_all
  moreover have "p \<le> 100 * of_nat n" if "cpu \<le> host"
    unfolding p using that by (intro binary64.cores_percent h1 n(2)) simp_all
  moreover have "p = 100 * of_nat n" if "cpu = host"
    unfolding p that by (rule binary64.cores_full [OF h1 n(2)])
  moreover have "p = 0" if "cpu = 0" unfolding p that by simp
  ultimately show "let cpu = unat (st_CPUTotal now) - unat (st_CPUTotal prev); host = unat (st_SystemTotal now) - unat (st_SystemTotal prev)
      in 0 \<le> p \<and> (cpu \<le> host \<longrightarrow> p \<le> 100 * of_int (st_CPUs now))
         \<and> (cpu = host \<longrightarrow> p = 100 * of_int (st_CPUs now)) \<and> (cpu = 0 \<longrightarrow> p = 0)"
    unfolding Let_def n(1) of_int_of_nat_eq cpu_def [symmetric] host_def [symmetric] by blast
qed

theorem docker_cpu_percent_correct_witness:
  "let a = stats_zero\<lparr>st_HasSystem := True, st_CPUTotal := 10, st_SystemTotal := 100, st_CPUs := 4\<rparr>;
       b = stats_zero\<lparr>st_HasSystem := True, st_CPUTotal := 60, st_SystemTotal := 150, st_CPUs := 4\<rparr>
   in docker_CPUPercent a b = Some 400"
proof -
  let ?a = "stats_zero\<lparr>st_HasSystem := True, st_CPUTotal := 10, st_SystemTotal := 100, st_CPUs := 4\<rparr>"
  let ?b = "stats_zero\<lparr>st_HasSystem := True, st_CPUTotal := 60, st_SystemTotal := 150, st_CPUs := 4\<rparr>"
  obtain p where p: "docker_CPUPercent ?a ?b = Some p" by (simp add: docker_CPUPercent_def Let_def)
  show ?thesis using docker_cpu_percent_correct [of ?a ?b] unfolding p by (simp add: Let_def p)
qed

text \<open>
  The memory figure never underflows: it is the usage without the cache, or all of it when the cache is
  not below it, and a percentage of the limit between 0 and 100 while the limit holds.
\<close>

lemma docker_memory_correct:
  assumes "docker_MemoryUsage s = Some m"
  shows "unat (dm_UsedBytes m) = (if unat (st_MemCache s) < unat (st_MemUsage s)
           then unat (st_MemUsage s) - unat (st_MemCache s) else unat (st_MemUsage s))"
    and "0 \<le> dm_UsedPercent m" and "dm_UsedBytes m \<le> dm_LimitBytes m \<Longrightarrow> dm_UsedPercent m \<le> 100"
  using assms percent_of_bounds [of "dm_UsedBytes m" "dm_LimitBytes m"]
  by (auto simp: docker_MemoryUsage_def Let_def word_less_nat_alt unat_sub_guarded percent_of_nonneg split: if_splits)

end
