(* ===== verification/DockerCollector.thy ===== *)
theory DockerCollector
  imports DockerMetrics RedisPublisher
begin

text \<open>
  \<^verbatim>\<open>src/docker/collector.go\<close>: one event a tick with every container, the stats of the running ones and
  the last exit of the others, the CPU baselines carried from tick to tick, and the failures logged on
  their edges.

  What a round observes is an input: \<open>dk_next\<close> is how the daemon answers each request of the round,
  \<open>dk_slot i\<close> the context's error when the \<open>i\<close>-th worker of the round was still waiting for a slot as the
  round ended, and \<open>dk_shutdown\<close> whether the agent's own context was cancelled when the collector looked.
  How the workers interleave is the theory \<open>DockerRound\<close>. The wording of the errors of
  \<^verbatim>\<open>encoding/json\<close> and \<^verbatim>\<open>net/url\<close> and of \<^verbatim>\<open>strconv.Quote\<close> is the parameter \<open>codec\<close>.
\<close>

record codec =
  cd_json_error :: "bytes \<Rightarrow> bytes \<Rightarrow> bytes"
  cd_parse_error :: "bytes \<Rightarrow> bytes"
  cd_quoted_url :: "bytes \<Rightarrow> bytes"
  cd_Quote :: "bytes \<Rightarrow> bytes"

record docker_env =
  dk_stamp :: bytes
  dk_codec :: codec
  dk_next :: "Request \<Rightarrow> go_err + Response"
  dk_slot :: "nat \<Rightarrow> go_err option"
  dk_shutdown :: bool

section \<open>Constants\<close>

definition maxParallel :: nat where
  "maxParallel = 8"

definition maxRound :: duration where
  "maxRound = 10 * second"

definition minRound :: duration where
  "minRound = second"

definition errTimedOut :: bytes where
  "errTimedOut = ''timed out''"

definition preReadLead :: duration where
  "preReadLead = second"

definition preReadMinInterval :: duration where
  "preReadMinInterval = 3 * second"

section \<open>Errors\<close>

text \<open>\<^verbatim>\<open>err.Error()\<close>, and \<^verbatim>\<open>errors.Is(err, context.DeadlineExceeded)\<close>.\<close>

fun err_text :: "codec \<Rightarrow> go_err \<Rightarrow> bytes" where
  "err_text cd (NetErr _ msg) = msg"
| "err_text cd (BadURL path) = cd_parse_error cd path"
| "err_text cd (RefusedMethod m t) = ''docker: refused '' @ m @ '' '' @ t @ '': read-only client''"
| "err_text cd (NotAllowed t) = ''docker: refused GET '' @ t @ '': not on the allow-list''"
| "err_text cd (UrlErr path err) = ''Get '' @ cd_quoted_url cd path @ '': '' @ err_text cd err"
| "err_text cd (TooLarge path) = ''docker: reply to '' @ path @ '' larger than '' @ show_nat maxBody @ '' bytes''"
| "err_text cd (BadStatus path status body) = ''docker: '' @ path @ '' returned '' @ status @ '': '' @ body"
| "err_text cd (BadJSON what data) = cd_json_error cd what data"
| "err_text cd (UnknownCgroup v) = ''unknown cgroup version '' @ cd_Quote cd v"

fun is_deadline :: "go_err \<Rightarrow> bool" where
  "is_deadline (NetErr d _) = d"
| "is_deadline (UrlErr _ err) = is_deadline err"
| "is_deadline _ = False"

definition errorText :: "codec \<Rightarrow> go_err \<Rightarrow> bytes" where
  "errorText cd err = (if is_deadline err then errTimedOut else err_text cd err)"

section \<open>Reading\<close>

definition round_get :: "docker_env \<Rightarrow> bytes \<Rightarrow> go_err + bytes" where
  "round_get e path = snd (docker_Get (\<lambda>req w. (w, dk_next e req)) path ())"

definition readStats :: "docker_env \<Rightarrow> bytes \<Rightarrow> go_err + stats_Sample" where
  "readStats e cid =
     (case round_get e (stats_Path cid) of Inl err \<Rightarrow> Inl err
      | Inr data \<Rightarrow> stats_Parse data)"

definition readState :: "docker_env \<Rightarrow> bytes \<Rightarrow> go_err + state_Sample" where
  "readState e cid =
     (case round_get e (state_Path cid) of Inl err \<Rightarrow> Inl err | Inr data \<Rightarrow> state_Parse data)"

definition readContainers :: "docker_env \<Rightarrow> go_err + Container list" where
  "readContainers e =
     (case round_get e containers_Path of Inl err \<Rightarrow> Inl err
      | Inr data \<Rightarrow> map_sum id ToContainers (containers_Parse data))"

section \<open>The collector\<close>

record 'w Docker =
  dk_channel :: bytes
  dk_serverID :: bytes
  dk_interval :: duration
  dk_world :: 'w
  dk_cgroupVersion :: int
  dk_failing :: bool
  dk_roundBudget :: duration
  dk_prevStats :: "bytes \<rightharpoonup> stats_Sample"
  dk_detailsFailing :: "bytes set"
  dk_log :: "(unit \<times> bool) list"
  dk_detailsLog :: "(bytes \<times> bool) list"

definition roundBudget :: "duration \<Rightarrow> duration" where
  "roundBudget interval = max minRound (min interval maxRound)"

definition docker_New :: "bytes \<Rightarrow> bytes \<Rightarrow> duration \<Rightarrow> 'w \<Rightarrow> 'w Docker" where
  "docker_New channel serverID interval w =
     \<lparr>dk_channel = channel, dk_serverID = serverID, dk_interval = interval, dk_world = w, dk_cgroupVersion = 0,
      dk_failing = False, dk_roundBudget = roundBudget interval, dk_prevStats = Map.empty, dk_detailsFailing = {},
      dk_log = [], dk_detailsLog = []\<rparr>"

definition usesPreRead :: "duration \<Rightarrow> bool" where
  "usesPreRead interval \<longleftrightarrow> preReadMinInterval \<le> interval"

definition hasStats :: "bytes \<Rightarrow> bool" where
  "hasStats state \<longleftrightarrow> state = ''running'' \<or> state = ''paused''"

definition readCgroupVersion :: "docker_env \<Rightarrow> 'w Docker \<Rightarrow> 'w Docker" where
  "readCgroupVersion e c =
     (if dk_cgroupVersion c \<noteq> 0 then c
      else case round_get e cgroup_Path of Inl _ \<Rightarrow> c
        | Inr data \<Rightarrow>
            (case cgroup_Parse data of Inl _ \<Rightarrow> c | Inr version \<Rightarrow> c\<lparr>dk_cgroupVersion := version\<rparr>))"

definition fillStats :: "stats_Sample \<Rightarrow> DockerContainer \<Rightarrow> 'w Docker \<Rightarrow> 'w Docker \<times> DockerContainer" where
  "fillStats s d c =
     (let d = (case dk_prevStats c (dc_ID d) of None \<Rightarrow> d
               | Some prev \<Rightarrow> (case docker_CPUPercent prev s of None \<Rightarrow> d | Some pct \<Rightarrow> d\<lparr>dc_CPUPercent := Some pct\<rparr>));
          c = c\<lparr>dk_prevStats := (dk_prevStats c)(dc_ID d \<mapsto> s)\<rparr>;
          d = (case docker_MemoryUsage s of None \<Rightarrow> d | Some m \<Rightarrow> d\<lparr>dc_Memory := Some m\<rparr>);
          d = (if st_HasNetwork s then d\<lparr>dc_Network := Some \<lparr>dn_RxBytes = st_RxBytes s, dn_TxBytes = st_TxBytes s\<rparr>\<rparr> else d);
          d = d\<lparr>dc_BlockIO := Some \<lparr>db_ReadBytes = st_ReadBytes s, db_WriteBytes = st_WriteBytes s\<rparr>\<rparr>;
          d = (if st_HasPIDs s then d\<lparr>dc_PIDs := Some (st_PIDs s)\<rparr> else d)
      in (c, d))"

text \<open>What the worker of one container brings back: the sample or the exit details, or an error.\<close>

record result =
  rt_sample :: stats_Sample
  rt_exit :: state_Sample
  rt_err :: "go_err option"

definition result_zero :: result where
  "result_zero = \<lparr>rt_sample = stats_zero, rt_exit = \<lparr>ex_Running = False, ex_ExitCode = 0, ex_FinishedAt = 0\<rparr>, rt_err = None\<rparr>"

definition read_result :: "docker_env \<Rightarrow> Container \<Rightarrow> result" where
  "read_result e ct =
     (if hasStats (ct_State ct)
      then (case readStats e (ct_ID ct) of Inl err \<Rightarrow> result_zero\<lparr>rt_err := Some err\<rparr> | Inr s \<Rightarrow> result_zero\<lparr>rt_sample := s\<rparr>)
      else (case readState e (ct_ID ct) of Inl err \<Rightarrow> result_zero\<lparr>rt_err := Some err\<rparr> | Inr x \<Rightarrow> result_zero\<lparr>rt_exit := x\<rparr>))"

definition worker_result :: "docker_env \<Rightarrow> nat \<Rightarrow> Container \<Rightarrow> result" where
  "worker_result e i ct =
     (case dk_slot e i of Some err \<Rightarrow> result_zero\<lparr>rt_err := Some err\<rparr> | None \<Rightarrow> read_result e ct)"

definition round_results :: "docker_env \<Rightarrow> Container list \<Rightarrow> result list" where
  "round_results e cts = map2 (worker_result e) [0..<length cts] cts"

definition note_details :: "bytes \<Rightarrow> bool \<Rightarrow> 'w Docker \<Rightarrow> 'w Docker" where
  "note_details cid ok c =
     (case edge_report cid ok (dk_detailsFailing c) of
        (failing, ls) \<Rightarrow> c\<lparr>dk_detailsFailing := failing, dk_detailsLog := dk_detailsLog c @ ls\<rparr>)"

definition to_published :: "Container \<Rightarrow> DockerContainer" where
  "to_published ct = \<lparr>dc_ID = ct_ID ct, dc_Name = ct_Name ct, dc_Image = ct_Image ct, dc_State = ct_State ct,
     dc_CPUPercent = None, dc_Memory = None, dc_Network = None, dc_BlockIO = None, dc_PIDs = None,
     dc_ExitCode = None, dc_FinishedAt = [], dc_Error = []\<rparr>"

text \<open>One container of the loop after the workers are done: the published entry, and whether it is running.\<close>

definition detail_entry :: "codec \<Rightarrow> Container \<Rightarrow> result \<Rightarrow> 'w Docker \<Rightarrow> 'w Docker \<times> DockerContainer \<times> bool" where
  "detail_entry cd ct r c =
     (let out = to_published ct
      in case rt_err r of
           Some err \<Rightarrow> (note_details (ct_ID ct) False c, out\<lparr>dc_Error := errorText cd err\<rparr>, False)
         | None \<Rightarrow>
             (let c = note_details (ct_ID ct) True c
              in if \<not> hasStats (ct_State ct)
                 then (c, (case Exit (rt_exit r) of None \<Rightarrow> out
                           | Some x \<Rightarrow> out\<lparr>dc_ExitCode := Some (lx_ExitCode x), dc_FinishedAt := lx_FinishedAt x\<rparr>), False)
                 else if \<not> st_Running (rt_sample r) then (c, out, False)
                 else (case fillStats (rt_sample r) out c of (c, out) \<Rightarrow> (c, out, True))))"

fun detail_loop ::
  "codec \<Rightarrow> (Container \<times> result) list \<Rightarrow> 'w Docker \<Rightarrow> 'w Docker \<times> DockerContainer list \<times> bytes set \<times> bytes set" where
  "detail_loop cd [] c = (c, [], {}, {})"
| "detail_loop cd ((ct, r) # rs) c =
     (let (c, out, up) = detail_entry cd ct r c;
          (c, outs, listed, running) = detail_loop cd rs c
      in (c, out # outs, insert (ct_ID ct) listed, if up then insert (ct_ID ct) running else running))"

definition withDetails :: "docker_env \<Rightarrow> Container list \<Rightarrow> 'w Docker \<Rightarrow> 'w Docker \<times> DockerContainer list" where
  "withDetails e cts c =
     (let (c, out, listed, running) = detail_loop (dk_codec e) (zip cts (round_results e cts)) c
      in (c\<lparr>dk_prevStats := dk_prevStats c |` running, dk_detailsFailing := dk_detailsFailing c \<inter> listed\<rparr>, out))"

definition primeCPU :: "docker_env \<Rightarrow> 'w Docker \<Rightarrow> 'w Docker" where
  "primeCPU e c = (case readContainers e of Inl _ \<Rightarrow> c | Inr cts \<Rightarrow> fst (withDetails e cts c))"

text \<open>The pre-read before a tick: its workers are those of the containers that have stats.\<close>

definition preRead_step :: "bytes \<times> result \<Rightarrow> (bytes \<rightharpoonup> stats_Sample) \<Rightarrow> (bytes \<rightharpoonup> stats_Sample)" where
  "preRead_step ir prevs =
     (case ir of (cid, r) \<Rightarrow>
        if rt_err r \<noteq> None \<or> \<not> st_Running (rt_sample r) then prevs
        else case prevs cid of None \<Rightarrow> prevs(cid \<mapsto> rt_sample r)
          | Some prev \<Rightarrow> if docker_CPUPercent prev (rt_sample r) \<noteq> None then prevs else prevs(cid \<mapsto> rt_sample r))"

definition preReadCPU :: "docker_env \<Rightarrow> 'w Docker \<Rightarrow> 'w Docker" where
  "preReadCPU e c =
     (case readContainers e of Inl _ \<Rightarrow> c
      | Inr cts0 \<Rightarrow>
          let cts = filter (\<lambda>ct. hasStats (ct_State ct)) cts0
          in c\<lparr>dk_prevStats := fold preRead_step (zip (map ct_ID cts) (round_results e cts)) (dk_prevStats c)\<rparr>)"

text \<open>The failure of Docker as a whole: one flag, logged when it is set and when it is cleared.\<close>

definition flag_report :: "unit \<Rightarrow> bool \<Rightarrow> bool \<Rightarrow> bool \<times> (unit \<times> bool) list" where
  "flag_report k ok failing = (\<not> ok, if ok = failing then [(k, ok)] else [])"

definition note_docker :: "bool \<Rightarrow> 'w Docker \<Rightarrow> 'w Docker" where
  "note_docker ok c =
     (case flag_report () ok (dk_failing c) of
        (failing, ls) \<Rightarrow> c\<lparr>dk_failing := failing, dk_log := dk_log c @ ls\<rparr>)"

text \<open>The event of one tick, unless the agent is shutting down.\<close>

definition docker_event :: "docker_env \<Rightarrow> 'w Docker \<Rightarrow> 'w Docker \<times> DockerEvent option" where
  "docker_event e c =
     (let event = \<lparr>de_ServerID = dk_serverID c, de_Timestamp = dk_stamp e, de_CgroupVersion = 0,
                   de_Containers = [], de_Error = []\<rparr>
      in case readContainers e of
           Inl err \<Rightarrow>
             if dk_shutdown e then (c, None)
             else let c = note_docker False c
                  in (c, Some (event\<lparr>de_Error := errorText (dk_codec e) err, de_CgroupVersion := dk_cgroupVersion c\<rparr>))
         | Inr cts \<Rightarrow>
             (let c = readCgroupVersion e (note_docker True c)
              in case withDetails e cts c of
                   (c, out) \<Rightarrow>
                     if dk_shutdown e then (c, None)
                     else (c, Some (event\<lparr>de_Containers := out, de_CgroupVersion := dk_cgroupVersion c\<rparr>))))"

definition docker_collect :: "'w publish \<Rightarrow> docker_env \<Rightarrow> 'w Docker \<Rightarrow> 'w Docker" where
  "docker_collect pb e c =
     (case docker_event e c of
        (c, None) \<Rightarrow> c
      | (c, Some event) \<Rightarrow>
          (case DockerEvent_json event of None \<Rightarrow> c
           | Some payload \<Rightarrow> c\<lparr>dk_world := fst (pb (dk_world c) (dk_channel c) [payload])\<rparr>))"

text \<open>
  \<^verbatim>\<open>Run\<close>: what its select loop can receive, a pre-read or a tick. The pre-read channel is nil, and never
  fires, on a short interval.
\<close>

datatype docker_fire = PreRead docker_env | Tick docker_env

fun docker_step :: "'w publish \<Rightarrow> docker_fire \<Rightarrow> 'w Docker \<Rightarrow> 'w Docker" where
  "docker_step pb (PreRead e) c = (if usesPreRead (dk_interval c) then preReadCPU e c else c)"
| "docker_step pb (Tick e) c = docker_collect pb e c"

definition docker_Run ::
  "'w publish \<Rightarrow> duration option \<Rightarrow> docker_env \<Rightarrow> docker_env \<Rightarrow> docker_fire select list \<Rightarrow> 'w Docker \<Rightarrow> 'w Docker" where
  "docker_Run pb cancelled prime first es c =
     run_ticks cancelled (dk_interval c) (docker_step pb) (Tick first) es (primeCPU prime c)"

interpretation flag: failure_log "\<lambda>failing (k :: unit). failing" flag_report
  by unfold_locales (auto simp: flag_report_def)

section \<open>What a round publishes and remembers\<close>

definition container_up :: "Container \<Rightarrow> result \<Rightarrow> bool" where
  "container_up ct r \<longleftrightarrow> rt_err r = None \<and> hasStats (ct_State ct) \<and> st_Running (rt_sample r)"

definition last_exit :: "Container \<Rightarrow> result \<Rightarrow> LastExit option" where
  "last_exit ct r = (if rt_err r = None \<and> \<not> hasStats (ct_State ct) then Exit (rt_exit r) else None)"

text \<open>
  The entry of a container, from its own result and its own previous sample only: the figures when it is
  up, the last exit when it is stopped, the error when its read failed.
\<close>

definition published_entry :: "codec \<Rightarrow> stats_Sample option \<Rightarrow> Container \<Rightarrow> result \<Rightarrow> DockerContainer" where
  "published_entry cd prev ct r =
     (let up = container_up ct r; s = rt_sample r; x = last_exit ct r
      in \<lparr>dc_ID = ct_ID ct, dc_Name = ct_Name ct, dc_Image = ct_Image ct, dc_State = ct_State ct,
          dc_CPUPercent = (if up then Option.bind prev (\<lambda>p. docker_CPUPercent p s) else None),
          dc_Memory = (if up then docker_MemoryUsage s else None),
          dc_Network = (if up \<and> st_HasNetwork s then Some \<lparr>dn_RxBytes = st_RxBytes s, dn_TxBytes = st_TxBytes s\<rparr> else None),
          dc_BlockIO = (if up then Some \<lparr>db_ReadBytes = st_ReadBytes s, db_WriteBytes = st_WriteBytes s\<rparr> else None),
          dc_PIDs = (if up \<and> st_HasPIDs s then Some (st_PIDs s) else None),
          dc_ExitCode = map_option lx_ExitCode x,
          dc_FinishedAt = (case x of None \<Rightarrow> [] | Some x \<Rightarrow> lx_FinishedAt x),
          dc_Error = (case rt_err r of None \<Rightarrow> [] | Some err \<Rightarrow> errorText cd err)\<rparr>)"

lemma note_details_simps [simp]:
  "dk_prevStats (note_details cid ok c) = dk_prevStats c" "dk_channel (note_details cid ok c) = dk_channel c"
  "dk_serverID (note_details cid ok c) = dk_serverID c" "dk_world (note_details cid ok c) = dk_world c"
  "dk_interval (note_details cid ok c) = dk_interval c" "dk_cgroupVersion (note_details cid ok c) = dk_cgroupVersion c"
  "dk_failing (note_details cid ok c) = dk_failing c" "dk_log (note_details cid ok c) = dk_log c"
  "dk_detailsFailing (note_details cid ok c) = fst (edge_report cid ok (dk_detailsFailing c))"
  "dk_detailsLog (note_details cid ok c) = dk_detailsLog c @ snd (edge_report cid ok (dk_detailsFailing c))"
  by (simp_all add: note_details_def split: prod.split)

lemma fillStats_eq:
  "fillStats s (to_published ct) c =
     (c\<lparr>dk_prevStats := (dk_prevStats c)(ct_ID ct \<mapsto> s)\<rparr>,
      (to_published ct)\<lparr>dc_CPUPercent := Option.bind (dk_prevStats c (ct_ID ct)) (\<lambda>p. docker_CPUPercent p s),
        dc_Memory := docker_MemoryUsage s,
        dc_Network := (if st_HasNetwork s then Some \<lparr>dn_RxBytes = st_RxBytes s, dn_TxBytes = st_TxBytes s\<rparr> else None),
        dc_BlockIO := Some \<lparr>db_ReadBytes = st_ReadBytes s, db_WriteBytes = st_WriteBytes s\<rparr>,
        dc_PIDs := (if st_HasPIDs s then Some (st_PIDs s) else None)\<rparr>)"
  by (simp add: fillStats_def to_published_def Let_def split: option.split)

lemma detail_entry_eq:
  "detail_entry cd ct r c =
     (let c1 = note_details (ct_ID ct) (rt_err r = None) c
      in (if container_up ct r then c1\<lparr>dk_prevStats := (dk_prevStats c1)(ct_ID ct \<mapsto> rt_sample r)\<rparr> else c1,
          published_entry cd (dk_prevStats c (ct_ID ct)) ct r, container_up ct r))"
proof (cases "rt_err r")
  case None
  then show ?thesis
    by (simp add: detail_entry_def published_entry_def container_up_def last_exit_def fillStats_eq Let_def)
      (simp add: to_published_def split: option.split)
next
  case (Some err)
  then show ?thesis
    by (simp add: detail_entry_def published_entry_def container_up_def last_exit_def Let_def to_published_def)
qed

abbreviation loop_ids :: "(Container \<times> result) list \<Rightarrow> bytes list" where
  "loop_ids rs \<equiv> map (\<lambda>p. ct_ID (fst p)) rs"

abbreviation up_ids :: "(Container \<times> result) list \<Rightarrow> bytes set" where
  "up_ids rs \<equiv> {ct_ID ct | ct r. (ct, r) \<in> set rs \<and> container_up ct r}"

lemma detail_loop_Cons:
  "detail_loop cd ((ct, r) # rs) c =
     (let c1 = note_details (ct_ID ct) (rt_err r = None) c;
          c2 = (if container_up ct r then c1\<lparr>dk_prevStats := (dk_prevStats c1)(ct_ID ct \<mapsto> rt_sample r)\<rparr> else c1);
          (c3, outs, listed, running) = detail_loop cd rs c2
      in (c3, published_entry cd (dk_prevStats c (ct_ID ct)) ct r # outs, insert (ct_ID ct) listed,
          if container_up ct r then insert (ct_ID ct) running else running))"
  by (simp add: detail_entry_eq Let_def)

text \<open>The loop touches the containers it goes through and nothing else, and each of them once.\<close>

lemma detail_loop_sets:
  "fst (snd (snd (detail_loop cd rs c))) = set (loop_ids rs) \<and> snd (snd (snd (detail_loop cd rs c))) = up_ids rs"
proof (induction rs arbitrary: c)
  case (Cons p rs)
  obtain ct r where p: "p = (ct, r)" by (cases p)
  show ?case using Cons.IH unfolding p detail_loop_Cons by (auto simp: Let_def split_beta)
qed simp

lemma detail_loop_frame:
  "cid \<notin> set (loop_ids rs) \<Longrightarrow>
     dk_prevStats (fst (detail_loop cd rs c)) cid = dk_prevStats c cid
     \<and> (cid \<in> dk_detailsFailing (fst (detail_loop cd rs c)) \<longleftrightarrow> cid \<in> dk_detailsFailing c)"
proof (induction rs arbitrary: c)
  case (Cons p rs)
  obtain ct r where p: "p = (ct, r)" by (cases p)
  show ?case using Cons unfolding p detail_loop_Cons
    by (auto simp: Let_def split_beta edge_report_def split: if_splits)
qed simp

lemma detail_loop_config:
  "dk_channel (fst (detail_loop cd rs c)) = dk_channel c \<and> dk_serverID (fst (detail_loop cd rs c)) = dk_serverID c
   \<and> dk_world (fst (detail_loop cd rs c)) = dk_world c \<and> dk_interval (fst (detail_loop cd rs c)) = dk_interval c
   \<and> dk_cgroupVersion (fst (detail_loop cd rs c)) = dk_cgroupVersion c
   \<and> dk_failing (fst (detail_loop cd rs c)) = dk_failing c \<and> dk_log (fst (detail_loop cd rs c)) = dk_log c"
proof (induction rs arbitrary: c)
  case (Cons p rs)
  obtain ct r where p: "p = (ct, r)" by (cases p)
  show ?case using Cons unfolding p detail_loop_Cons by (simp add: Let_def split_beta)
qed simp

lemma detail_loop_out:
  "distinct (loop_ids rs) \<Longrightarrow>
     fst (snd (detail_loop cd rs c)) = map (\<lambda>(ct, r). published_entry cd (dk_prevStats c (ct_ID ct)) ct r) rs"
proof (induction rs arbitrary: c)
  case (Cons p rs)
  obtain ct r where p: "p = (ct, r)" by (cases p)
  have "ct_ID ct \<notin> set (loop_ids rs)" using Cons.prems by (simp add: p)
  then have "(ct', r') \<in> set rs \<Longrightarrow> ct_ID ct' \<noteq> ct_ID ct" for ct' r' by force
  then show ?case using Cons unfolding p detail_loop_Cons by (auto simp: Let_def split_beta)
qed simp

lemma detail_loop_self:
  "distinct (loop_ids rs) \<Longrightarrow> (ct, r) \<in> set rs \<Longrightarrow>
     (container_up ct r \<longrightarrow> dk_prevStats (fst (detail_loop cd rs c)) (ct_ID ct) = Some (rt_sample r))
     \<and> (ct_ID ct \<in> dk_detailsFailing (fst (detail_loop cd rs c)) \<longleftrightarrow> rt_err r \<noteq> None)"
proof (induction rs arbitrary: c)
  case (Cons p rs)
  obtain ct' r' where p: "p = (ct', r')" by (cases p)
  show ?case
  proof (cases "(ct, r) = p")
    case True
    then have "ct_ID ct \<notin> set (loop_ids rs)" using Cons.prems(1) by (simp add: True [symmetric])
    note fr = detail_loop_frame [OF this, of cd]
    show ?thesis unfolding True [symmetric] detail_loop_Cons Let_def split_beta fst_conv fr [THEN conjunct1] fr [THEN conjunct2]
      by (simp add: edge_report_def)
  next
    case False
    then have "(ct, r) \<in> set rs" "distinct (loop_ids rs)" using Cons.prems by auto
    then show ?thesis unfolding p detail_loop_Cons Let_def split_beta fst_conv by (intro Cons.IH)
  qed
qed simp

lemma zip_round_results:
  "(ct, r) \<in> set (zip cts (round_results e cts)) \<longleftrightarrow> (\<exists>i < length cts. ct = cts ! i \<and> r = worker_result e i (cts ! i))"
  by (auto simp: round_results_def in_set_zip)

lemma loop_ids_round [simp]: "loop_ids (zip cts (round_results e cts)) = map ct_ID cts"
  by (rule nth_equalityI) (simp_all add: round_results_def)

definition round_entries :: "docker_env \<Rightarrow> (bytes \<rightharpoonup> stats_Sample) \<Rightarrow> Container list \<Rightarrow> DockerContainer list" where
  "round_entries e prevs cts =
     map2 (\<lambda>i ct. published_entry (dk_codec e) (prevs (ct_ID ct)) ct (worker_result e i ct)) [0..<length cts] cts"

lemma round_entries_zip:
  "map (\<lambda>(ct, r). published_entry (dk_codec e) (prevs (ct_ID ct)) ct r) (zip cts (round_results e cts)) = round_entries e prevs cts"
  by (rule nth_equalityI) (simp_all add: round_entries_def round_results_def)

text \<open>
  C18. A round of details is what it should be, container by container, whatever the round before left
  behind: each listed container gets its own entry in its place, made of its own answer and its own
  previous sample; the samples kept for the next tick are exactly those of the containers found up in
  this round, so a failed read, a stop or a restart never leaves a stale baseline; and the containers
  held as failing are exactly those whose read failed.
\<close>

theorem docker_round_correct:
  assumes "distinct (map ct_ID cts)"
  shows "snd (withDetails e cts c) = round_entries e (dk_prevStats c) cts
     \<and> (\<forall>i < length cts. let ct = cts ! i; r = worker_result e i ct; c' = fst (withDetails e cts c) in
          dk_prevStats c' (ct_ID ct) = (if container_up ct r then Some (rt_sample r) else None)
          \<and> (ct_ID ct \<in> dk_detailsFailing c' \<longleftrightarrow> rt_err r \<noteq> None))
     \<and> dom (dk_prevStats (fst (withDetails e cts c))) \<subseteq> set (map ct_ID cts)
     \<and> dk_detailsFailing (fst (withDetails e cts c)) \<subseteq> set (map ct_ID cts)"
proof -
  let ?rs = "zip cts (round_results e cts)"
  let ?l = "detail_loop (dk_codec e) ?rs c"
  have d: "distinct (loop_ids ?rs)" using assms by (simp only: loop_ids_round)
  have sets: "fst (snd (snd ?l)) = set (map ct_ID cts)" "snd (snd (snd ?l)) = up_ids ?rs"
    using detail_loop_sets [of "dk_codec e" ?rs c] by (simp_all only: loop_ids_round)
  have w: "withDetails e cts c =
      ((fst ?l)\<lparr>dk_prevStats := dk_prevStats (fst ?l) |` up_ids ?rs,
        dk_detailsFailing := dk_detailsFailing (fst ?l) \<inter> set (map ct_ID cts)\<rparr>, fst (snd ?l))"
    unfolding withDetails_def Let_def split_beta sets ..
  have up: "ct_ID (cts ! i) \<in> up_ids ?rs \<longleftrightarrow> container_up (cts ! i) (worker_result e i (cts ! i))" if "i < length cts" for i
  proof -
    have "j = i" if "j < length cts" "ct_ID (cts ! i) = ct_ID (cts ! j)" for j
      using assms that \<open>i < length cts\<close> by (simp add: distinct_conv_nth) metis
    then show ?thesis using that by (auto simp: zip_round_results)
  qed
  have self: "dk_prevStats (fst (withDetails e cts c)) (ct_ID (cts ! i))
        = (if container_up (cts ! i) (worker_result e i (cts ! i)) then Some (rt_sample (worker_result e i (cts ! i))) else None)
      \<and> (ct_ID (cts ! i) \<in> dk_detailsFailing (fst (withDetails e cts c)) \<longleftrightarrow> rt_err (worker_result e i (cts ! i)) \<noteq> None)"
    if "i < length cts" for i
  proof -
    have "(cts ! i, worker_result e i (cts ! i)) \<in> set ?rs" using that by (auto simp: zip_round_results)
    note s = detail_loop_self [OF d this, of "dk_codec e" c]
    show ?thesis unfolding w using s up [OF that] that by (simp add: restrict_map_def)
  qed
  have "snd (withDetails e cts c) = round_entries e (dk_prevStats c) cts"
    using detail_loop_out [OF d, of "dk_codec e" c] by (simp only: w snd_conv round_entries_zip)
  moreover have "up_ids ?rs \<subseteq> set (map ct_ID cts)" by (auto dest: set_zip_leftD)
  then have "dom (dk_prevStats (fst (withDetails e cts c))) \<subseteq> set (map ct_ID cts)" unfolding w by auto
  moreover have "dk_detailsFailing (fst (withDetails e cts c)) \<subseteq> set (map ct_ID cts)" unfolding w by auto
  ultimately show ?thesis using self unfolding Let_def by blast
qed

section \<open>The pre-read\<close>

lemma preRead_step_other: "k \<noteq> fst ir \<Longrightarrow> preRead_step ir prevs k = prevs k"
  by (cases ir) (simp add: preRead_step_def split: option.split)

lemma preRead_fold_frame: "k \<notin> fst ` set irs \<Longrightarrow> fold preRead_step irs prevs k = prevs k"
  by (induction irs arbitrary: prevs) (simp_all add: preRead_step_other)

lemma preRead_step_local: "prevs k = prevs' k \<Longrightarrow> preRead_step (k, r) prevs k = preRead_step (k, r) prevs' k"
  by (simp add: preRead_step_def split: option.split)

lemma preRead_fold_self:
  "distinct (map fst irs) \<Longrightarrow> (k, r) \<in> set irs \<Longrightarrow> fold preRead_step irs prevs k = preRead_step (k, r) prevs k"
proof (induction irs arbitrary: prevs)
  case (Cons ir irs)
  show ?case
  proof (cases "ir = (k, r)")
    case True
    then have "k \<notin> fst ` set irs" using Cons.prems by auto
    then show ?thesis by (simp add: preRead_fold_frame True)
  next
    case False
    then have mem: "(k, r) \<in> set irs" using Cons.prems by auto
    then have "k \<noteq> fst ir" using Cons.prems by (metis distinct.simps(2) fst_conv image_eqI list.set_map list.simps(9))
    then have "preRead_step (k, r) (preRead_step ir prevs) k = preRead_step (k, r) prevs k"
      by (intro preRead_step_local preRead_step_other)
    then show ?thesis using Cons.IH [OF _ mem] Cons.prems by simp
  qed
qed simp

text \<open>Two windows, one after the other, in which the counters went forward.\<close>

definition advanced :: "stats_Sample \<Rightarrow> stats_Sample \<Rightarrow> bool" where
  "advanced s t \<longleftrightarrow> st_HasSystem t \<and> st_CPUs t \<noteq> 0 \<and> st_SystemTotal s < st_SystemTotal t \<and> st_CPUTotal s \<le> st_CPUTotal t"

lemma CPUPercent_usable: "docker_CPUPercent s t \<noteq> None \<longleftrightarrow> st_HasSystem s \<and> advanced s t"
  by (auto simp: docker_CPUPercent_def advanced_def Let_def not_le not_less)

lemma advanced_trans: "advanced s t \<Longrightarrow> advanced t u \<Longrightarrow> advanced s u"
  by (auto simp: advanced_def)

lemma preRead_ids: "(cid, r) \<in> set (zip (map ct_ID cts) (round_results e cts)) \<longleftrightarrow>
    (\<exists>i < length cts. cid = ct_ID (cts ! i) \<and> r = worker_result e i (cts ! i))"
  by (force simp: round_results_def in_set_zip)

text \<open>
  C19. The pre-read closes the gap of a new or restarted container: for every container it found running,
  with host CPU time in the reply, the next sample whose counters have gone forward since gives a CPU
  percentage. A baseline the tick could use anyway is left as it is, so the percentage of a container
  that kept running still spans the whole interval, and no other container's baseline changes.
\<close>

theorem docker_preread_covers_new_containers:
  assumes "readContainers e = Inr list" "cts = filter (\<lambda>ct. hasStats (ct_State ct)) list" "distinct (map ct_ID cts)"
    and "i < length cts" "r = worker_result e i (cts ! i)" "rt_err r = None" "st_Running (rt_sample r)"
    and "st_HasSystem (rt_sample r)" "advanced (rt_sample r) later"
  shows "\<exists>prev. dk_prevStats (preReadCPU e c) (ct_ID (cts ! i)) = Some prev \<and> docker_CPUPercent prev later \<noteq> None
      \<and> (\<forall>old. dk_prevStats c (ct_ID (cts ! i)) = Some old \<and> docker_CPUPercent old (rt_sample r) \<noteq> None \<longrightarrow> prev = old)
      \<and> (\<forall>cid. cid \<notin> set (map ct_ID cts) \<longrightarrow> dk_prevStats (preReadCPU e c) cid = dk_prevStats c cid)"
proof -
  let ?irs = "zip (map ct_ID cts) (round_results e cts)" and ?id = "ct_ID (cts ! i)"
  have ps: "dk_prevStats (preReadCPU e c) = fold preRead_step ?irs (dk_prevStats c)"
    using assms(1,2) by (simp add: preReadCPU_def Let_def)
  have keys: "map fst ?irs = map ct_ID cts" by (simp add: round_results_def)
  then have d: "distinct (map fst ?irs)" using assms(3) by simp
  have mem: "(?id, r) \<in> set ?irs" unfolding preRead_ids using assms(4,5) by blast
  have "set (map ct_ID cts) = fst ` set ?irs" using arg_cong [OF keys, of set] by (simp only: set_map)
  then have frame: "\<forall>cid. cid \<notin> set (map ct_ID cts) \<longrightarrow> dk_prevStats (preReadCPU e c) cid = dk_prevStats c cid"
    unfolding ps by (intro allI impI preRead_fold_frame) (simp only: simp_thms)
  have self: "dk_prevStats (preReadCPU e c) ?id = preRead_step (?id, r) (dk_prevStats c) ?id"
    unfolding ps by (rule preRead_fold_self [OF d mem])
  have new: "docker_CPUPercent (rt_sample r) later \<noteq> None" unfolding CPUPercent_usable using assms(8,9) ..
  show ?thesis
  proof (cases "\<exists>old. dk_prevStats c ?id = Some old \<and> docker_CPUPercent old (rt_sample r) \<noteq> None")
    case True
    then obtain old where old: "dk_prevStats c ?id = Some old" "docker_CPUPercent old (rt_sample r) \<noteq> None" by blast
    then have "docker_CPUPercent old later \<noteq> None"
      unfolding CPUPercent_usable using advanced_trans [OF _ assms(9)] by blast
    moreover have "dk_prevStats (preReadCPU e c) ?id = Some old"
      using self old assms(6,7) by (simp add: preRead_step_def)
    ultimately show ?thesis using old(1) frame by (intro exI [of _ old] conjI allI impI) auto
  next
    case False
    then have "dk_prevStats (preReadCPU e c) ?id = Some (rt_sample r)"
      using self assms(6,7) by (auto simp: preRead_step_def split: option.split)
    then show ?thesis using False new frame by (intro exI [of _ "rt_sample r"] conjI) blast+
  qed
qed

section \<open>Events\<close>

lemma withDetails_config [simp]:
  "dk_channel (fst (withDetails e cts c)) = dk_channel c" "dk_serverID (fst (withDetails e cts c)) = dk_serverID c"
  "dk_world (fst (withDetails e cts c)) = dk_world c" "dk_interval (fst (withDetails e cts c)) = dk_interval c"
  "dk_cgroupVersion (fst (withDetails e cts c)) = dk_cgroupVersion c"
  "dk_failing (fst (withDetails e cts c)) = dk_failing c" "dk_log (fst (withDetails e cts c)) = dk_log c"
  using detail_loop_config [of "dk_codec e" "zip cts (round_results e cts)" c]
  by (simp_all add: withDetails_def Let_def split_beta)

lemma note_docker_simps [simp]:
  "dk_channel (note_docker ok c) = dk_channel c" "dk_serverID (note_docker ok c) = dk_serverID c"
  "dk_world (note_docker ok c) = dk_world c" "dk_interval (note_docker ok c) = dk_interval c"
  "dk_cgroupVersion (note_docker ok c) = dk_cgroupVersion c"
  "dk_failing (note_docker ok c) = fst (flag_report () ok (dk_failing c))"
  "dk_log (note_docker ok c) = dk_log c @ snd (flag_report () ok (dk_failing c))"
  by (simp_all add: note_docker_def split: prod.split)

lemma readCgroupVersion_simps [simp]:
  "dk_channel (readCgroupVersion e c) = dk_channel c" "dk_serverID (readCgroupVersion e c) = dk_serverID c"
  "dk_world (readCgroupVersion e c) = dk_world c" "dk_interval (readCgroupVersion e c) = dk_interval c"
  "dk_failing (readCgroupVersion e c) = dk_failing c" "dk_log (readCgroupVersion e c) = dk_log c"
  by (simp_all add: readCgroupVersion_def split: sum.split)

lemma docker_event_config:
  "dk_channel (fst (docker_event e c)) = dk_channel c" "dk_serverID (fst (docker_event e c)) = dk_serverID c"
  "dk_world (fst (docker_event e c)) = dk_world c" "dk_interval (fst (docker_event e c)) = dk_interval c"
  by (simp_all add: docker_event_def Let_def split_beta split: sum.split)

lemma docker_event_shutdown: "snd (docker_event e c) = None \<longleftrightarrow> dk_shutdown e"
  by (simp add: docker_event_def Let_def split_beta split: sum.split)

lemma docker_event_serverID: "snd (docker_event e c) = Some ev \<Longrightarrow> de_ServerID ev = dk_serverID c"
  by (auto simp: docker_event_def Let_def split_beta split: sum.splits if_splits)

fun fires_event :: "docker_fire \<Rightarrow> bool" where
  "fires_event (Tick e) \<longleftrightarrow> \<not> dk_shutdown e"
| "fires_event (PreRead e) \<longleftrightarrow> False"

lemma preReadCPU_simps [simp]:
  "dk_channel (preReadCPU e c) = dk_channel c" "dk_serverID (preReadCPU e c) = dk_serverID c"
  "dk_world (preReadCPU e c) = dk_world c" "dk_interval (preReadCPU e c) = dk_interval c"
  "dk_failing (preReadCPU e c) = dk_failing c" "dk_log (preReadCPU e c) = dk_log c"
  "dk_cgroupVersion (preReadCPU e c) = dk_cgroupVersion c"
  by (simp_all add: preReadCPU_def Let_def split: sum.split)

lemma primeCPU_simps [simp]:
  "dk_channel (primeCPU e c) = dk_channel c" "dk_serverID (primeCPU e c) = dk_serverID c"
  "dk_world (primeCPU e c) = dk_world c" "dk_interval (primeCPU e c) = dk_interval c"
  "dk_failing (primeCPU e c) = dk_failing c" "dk_log (primeCPU e c) = dk_log c"
  "dk_cgroupVersion (primeCPU e c) = dk_cgroupVersion c"
  by (simp_all add: primeCPU_def split: sum.split)

interpretation docker_ticks: ticking "docker_step PublishBatch" "\<lambda>c. wire (dk_world c)"
  "\<lambda>c. (dk_channel c, dk_serverID c)" fires_event
proof
  fix f and s :: "redis Docker"
  show "\<exists>p. wire (dk_world (docker_step PublishBatch f s)) = wire (dk_world s) @ [p] \<and> belongs (dk_channel s, dk_serverID s) p"
    if "fires_event f"
  proof -
    obtain e where f: "f = Tick e" "\<not> dk_shutdown e" using \<open>fires_event f\<close> by (cases f) auto
    then obtain ev where ev: "snd (docker_event e s) = Some ev" using docker_event_shutdown [of e s] by blast
    obtain j where j: "DockerEvent_json ev = Some j" by (simp add: DockerEvent_json_def)
    have "belongs (dk_channel s, dk_serverID s) (dk_channel s, j)"
      using j docker_event_serverID [OF ev] by (auto simp: belongs_def DockerEvent_json_def)
    then show ?thesis using ev j docker_event_config [of e s]
      by (intro exI [of _ "(dk_channel s, j)"]) (simp add: f docker_collect_def split_beta)
  qed
  show "wire (dk_world (docker_step PublishBatch f s)) = wire (dk_world s)" if "\<not> fires_event f"
  proof (cases f)
    case (Tick e)
    then have "snd (docker_event e s) = None" using \<open>\<not> fires_event f\<close> by (simp add: docker_event_shutdown)
    then show ?thesis by (simp add: Tick docker_collect_def split_beta docker_event_config)
  qed simp
  show "(dk_channel (docker_step PublishBatch f s), dk_serverID (docker_step PublishBatch f s)) = (dk_channel s, dk_serverID s)"
    by (cases f) (auto simp: docker_collect_def split_beta docker_event_config split: option.split)
qed

text \<open>
  The docker collector publishes one event a tick, and none from a pre-read or from a tick that the
  shutdown cut short: after any run, what was sent is what was there before and one event, on its channel
  and with its server id, for each tick that ran to its end.
\<close>

theorem docker_one_event_per_tick:
  "\<exists>ps. wire (dk_world (docker_Run PublishBatch cancelled prime first es c)) = wire (dk_world c) @ ps
     \<and> length ps = length (filter fires_event (run_fired cancelled (dk_interval c) (Tick first) es))
     \<and> list_all (belongs (dk_channel c, dk_serverID c)) ps"
  using docker_ticks.run_published [of cancelled "dk_interval c" "Tick first" es "primeCPU prime c"]
  by (simp add: docker_Run_def)

section \<open>Failures and the cgroup version\<close>

definition docker_inv :: "'w Docker \<Rightarrow> bool" where
  "docker_inv c \<longleftrightarrow> dk_cgroupVersion c \<in> {0, 1, 2} \<and> (\<exists>rs. reports flag_report rs False = (dk_failing c, dk_log c))"

lemma docker_inv_New [inv_intros]: "docker_inv (docker_New ch sid iv w)"
proof -
  have "reports flag_report [] False = (False, [])" by simp
  then have "\<exists>rs. reports flag_report rs False = (False, [])" by blast
  then show ?thesis by (simp add: docker_inv_def docker_New_def)
qed

lemma docker_inv_note [inv_intros]: "docker_inv c \<Longrightarrow> docker_inv (note_docker ok c)"
  unfolding docker_inv_def by (auto intro: ex_reports_snoc)

lemma docker_inv_cgroup [inv_intros]: "docker_inv c \<Longrightarrow> docker_inv (readCgroupVersion e c)"
  unfolding docker_inv_def readCgroupVersion_def
  by (auto simp: cgroup_Parse_def split: sum.split if_splits)

lemma docker_inv_same [inv_intros]:
  "docker_inv c \<Longrightarrow> docker_inv (fst (withDetails e cts c))" "docker_inv c \<Longrightarrow> docker_inv (preReadCPU e c)"
  "docker_inv c \<Longrightarrow> docker_inv (primeCPU e c)" "docker_inv c \<Longrightarrow> docker_inv (c\<lparr>dk_world := w\<rparr>)"
  by (simp_all add: docker_inv_def)

lemma docker_inv_event [inv_intros]: "docker_inv c \<Longrightarrow> docker_inv (fst (docker_event e c))"
  by (simp add: docker_event_def Let_def split_beta inv_intros split: sum.split)

lemma docker_inv_step [inv_intros]: "docker_inv c \<Longrightarrow> docker_inv (docker_step pb f c)"
  using docker_inv_event [of c]
  by (cases f) (auto simp: docker_collect_def split_beta intro: inv_intros split: option.split)

lemma docker_inv_steps: "docker_inv c \<Longrightarrow> docker_inv (fold (docker_step pb) fs c)"
  by (induction fs arbitrary: c) (simp_all add: inv_intros)

lemma docker_inv_Run: "docker_inv (docker_Run pb cancelled prime first es (docker_New ch sid iv w))"
  unfolding docker_Run_def run_ticks_fired by (intro docker_inv_steps inv_intros)

text \<open>Once Docker has answered, its cgroup version is never asked for, or changed, again.\<close>

lemma cgroup_version_kept: "dk_cgroupVersion c \<noteq> 0 \<Longrightarrow> dk_cgroupVersion (docker_step pb f c) = dk_cgroupVersion c"
  by (cases f) (simp_all add: docker_collect_def docker_event_def Let_def split_beta readCgroupVersion_def
      split: option.split sum.split)

lemma cgroup_version_kept_run:
  "dk_cgroupVersion c \<noteq> 0 \<Longrightarrow> dk_cgroupVersion (fold (docker_step pb) fs c) = dk_cgroupVersion c"
  by (induction fs arbitrary: c) (simp_all add: cgroup_version_kept)

lemma docker_inv_log:
  assumes "docker_inv c"
  shows "alternating (outcomes_of () (dk_log c))"
    and "dk_failing c \<longleftrightarrow> outcomes_of () (dk_log c) \<noteq> [] \<and> \<not> last (outcomes_of () (dk_log c))"
proof -
  obtain rs where r: "reports flag_report rs False = (dk_failing c, dk_log c)"
    using assms unfolding docker_inv_def by blast
  show "alternating (outcomes_of () (dk_log c))"
    using flag.log_alternates [of "()" rs False] unfolding r by simp
  show "dk_failing c \<longleftrightarrow> outcomes_of () (dk_log c) \<noteq> [] \<and> \<not> last (outcomes_of () (dk_log c))"
    using flag.failing_last [of rs False "()"] unfolding r fst_conv snd_conv by (simp only: if_bool_eq_conj) blast
qed

text \<open>
  C22. Docker being down is logged when it starts and when it clears, and not on every tick: after any run
  the log lines alternate and the last one says what Docker was on the last tick. The published cgroup
  version is unknown, 1 or 2, and once known it stays what it was, however the run goes on.
\<close>

theorem docker_failures_logged_once:
  "let c = docker_Run pb cancelled prime first es (docker_New ch sid iv w)
   in alternating (outcomes_of () (dk_log c))
      \<and> (dk_failing c \<longleftrightarrow> outcomes_of () (dk_log c) \<noteq> [] \<and> \<not> last (outcomes_of () (dk_log c)))
      \<and> dk_cgroupVersion c \<in> {0, 1, 2}
      \<and> (\<forall>fs. dk_cgroupVersion c \<in> {0, dk_cgroupVersion (fold (docker_step pb) fs c)})"
  unfolding Let_def
proof (intro conjI allI)
  note inv = docker_inv_Run [of pb cancelled prime first es ch sid iv w]
  show "dk_cgroupVersion (docker_Run pb cancelled prime first es (docker_New ch sid iv w)) \<in> {0, 1, 2}"
    using inv unfolding docker_inv_def by (rule conjunct1)
  show "dk_cgroupVersion c \<in> {0, dk_cgroupVersion (fold (docker_step pb) fs c)}" for fs and c :: "'a Docker"
    using cgroup_version_kept_run [of c pb fs] by (cases "dk_cgroupVersion c = 0") simp_all
qed (rule docker_inv_log [OF docker_inv_Run])+

text \<open>The log of a round's containers is the edges of their outcomes.\<close>

lemma detail_loop_reports:
  "(dk_detailsFailing (fst (detail_loop cd rs c)), dk_detailsLog (fst (detail_loop cd rs c))) =
     map_prod id ((@) (dk_detailsLog c))
       (reports edge_report (map (\<lambda>(ct, r). (ct_ID ct, rt_err r = None)) rs) (dk_detailsFailing c))"
proof (induction rs arbitrary: c)
  case (Cons p rs)
  obtain ct r where p: "p = (ct, r)" by (cases p)
  show ?case using Cons.IH unfolding p detail_loop_Cons by (simp add: Let_def split_beta prod_eq_iff)
qed simp

lemma roundBudget_bounds: "minRound \<le> roundBudget interval \<and> roundBudget interval \<le> maxRound
    \<and> (minRound \<le> interval \<longrightarrow> roundBudget interval \<le> interval)"
  by (auto simp: roundBudget_def minRound_def maxRound_def)

section \<open>The daemon is only read\<close>

definition same_reads :: "docker_env \<Rightarrow> docker_env \<Rightarrow> bool" where
  "same_reads e e' \<longleftrightarrow> e' = e\<lparr>dk_next := dk_next e'\<rparr>
     \<and> (\<forall>req. rq_Method req = ''GET'' \<and> read_target (rq_Target req) \<longrightarrow> dk_next e' req = dk_next e req)"

lemma round_get_same:
  assumes "same_reads e e'"
  shows "round_get e' path = round_get e path"
proof -
  have "RoundTrip (\<lambda>req (w :: unit). (w, dk_next e' req)) = RoundTrip (\<lambda>req w. (w, dk_next e req))"
    using assms by (intro ext) (simp add: RoundTrip_cases same_reads_def)
  then show ?thesis unfolding round_get_def docker_Get_def by (simp only:)
qed

lemma same_reads_fields:
  assumes "same_reads e e'"
  shows "dk_codec e' = dk_codec e" "dk_slot e' = dk_slot e" "dk_shutdown e' = dk_shutdown e" "dk_stamp e' = dk_stamp e"
proof -
  have "e' = e\<lparr>dk_next := dk_next e'\<rparr>" using assms by (simp add: same_reads_def)
  then show "dk_codec e' = dk_codec e" "dk_slot e' = dk_slot e" "dk_shutdown e' = dk_shutdown e" "dk_stamp e' = dk_stamp e"
    by (metis docker_env.select_convs docker_env.update_convs(3) docker_env.surjective)+
qed

lemma reads_same:
  assumes "same_reads e e'"
  shows "readContainers e' = readContainers e" "round_results e' cts = round_results e cts"
    "readCgroupVersion e' c = readCgroupVersion e c"
  unfolding readContainers_def round_results_def worker_result_def [abs_def] read_result_def readStats_def
    readState_def readCgroupVersion_def round_get_same [OF assms] same_reads_fields [OF assms]
  by (rule refl)+

lemma rounds_same:
  assumes "same_reads e e'"
  shows "withDetails e' cts c = withDetails e cts c" "primeCPU e' c = primeCPU e c" "preReadCPU e' c = preReadCPU e c"
    "docker_event e' c = docker_event e c"
  unfolding docker_event_def primeCPU_def preReadCPU_def withDetails_def reads_same [OF assms] same_reads_fields [OF assms]
  by (rule refl)+

fun same_fire :: "docker_fire \<Rightarrow> docker_fire \<Rightarrow> bool" where
  "same_fire (Tick e) (Tick e') \<longleftrightarrow> same_reads e e'"
| "same_fire (PreRead e) (PreRead e') \<longleftrightarrow> same_reads e e'"
| "same_fire _ _ \<longleftrightarrow> False"

lemma docker_step_same: "same_fire f f' \<Longrightarrow> docker_step pb f' c = docker_step pb f c"
  by (cases f; cases f') (simp_all add: rounds_same docker_collect_def)

text \<open>
  C21. The collector asks the daemon for nothing but the four reads: two daemons that answer GET requests on
  the allow-list alike, and anything else in any way whatever, give the same run, event for event and
  state for state. No request outside the list has any part in it.
\<close>

theorem docker_run_only_reads:
  assumes "same_reads prime prime'" "list_all2 same_fire fs fs'"
  shows "fold (docker_step pb) fs' (primeCPU prime' c) = fold (docker_step pb) fs (primeCPU prime c)"
proof -
  have "fold (docker_step pb) fs' d = fold (docker_step pb) fs d" for d
    using assms(2) by (induction arbitrary: d rule: list_all2_induct) (simp_all add: docker_step_same)
  then show ?thesis by (simp add: rounds_same [OF assms(1)])
qed

section \<open>An example round\<close>

text \<open>A daemon with one running container, which answers every request.\<close>

definition example_id :: bytes where
  "example_id = replicate 64 (CHR ''a'')"

definition example_stats :: jval where
  "example_stats = VObj [(''read'', VStr ''0001-01-01T00:00:01Z''),
     (''cpu_stats'', VObj [(''cpu_usage'', VObj [(''total_usage'', VNum ''5'')]), (''system_cpu_usage'', VNum ''7''),
       (''online_cpus'', VNum ''2'')])]"

definition example_raw :: rawStats where
  "example_raw = raw_zero\<lparr>rw_Read := second, rw_TotalUsage := 5, rw_SystemCPUUsage := Some 7, rw_OnlineCPUs := 2\<rparr>"

definition example_list :: jval where
  "example_list = VArr [listed_value example_id ''/web'' ''nginx'' ''running'']"

definition example_codec :: codec where
  "example_codec = \<lparr>cd_json_error = (\<lambda>_ _. ''bad JSON''), cd_parse_error = id, cd_quoted_url = id, cd_Quote = id\<rparr>"

definition docker_example :: docker_env where
  "docker_example = \<lparr>dk_stamp = ''now'', dk_codec = example_codec,
     dk_next = (\<lambda>req. Inr \<lparr>rs_StatusCode = 200, rs_Status = ''200 OK'',
       rs_Body = json_print (if rq_Target req = containers_Path then example_list else example_stats)\<rparr>),
     dk_slot = (\<lambda>_. None), dk_shutdown = False\<rparr>"

definition example_container :: Container where
  "example_container = \<lparr>ct_ID = example_id, ct_Name = ''web'', ct_Image = ''nginx'', ct_State = ''running''\<rparr>"

lemma read_targets:
  "read_target containers_Path" "read_target cgroup_Path" "full_id cid \<Longrightarrow> read_target (stats_Path cid)"
  "full_id cid \<Longrightarrow> read_target (state_Path cid)"
  unfolding read_target_def by blast+

lemma round_get_allowed: "read_target path \<Longrightarrow> round_get e path = reply_body path (dk_next e (get_request path))"
  unfolding round_get_def docker_Get_allowed [OF read_target_uri] by simp

lemma example_full_id: "full_id example_id"
  by (simp add: full_id_def example_id_def lower_hex_def in_range_def list_all_iff)

lemma example_plain: "list_all plain_byte example_id" "list_all plain_byte ''/web''" "list_all plain_byte ''nginx''"
  "list_all plain_byte ''running''"
  by (simp_all add: example_id_def plain_byte_def in_range_def list_all_iff)

lemma example_bodies: "length (json_print example_list) \<le> maxBody" "length (json_print example_stats) \<le> maxBody"
proof -
  show "length (json_print example_list) \<le> maxBody"
    by (simp add: json_print_def example_list_def listed_value_def example_id_def maxBody_def)
  show "length (json_print example_stats) \<le> maxBody"
    by (simp add: json_print_def example_stats_def maxBody_def)
qed

lemma example_containers: "readContainers docker_example = Inr [example_container]"
proof -
  note ok = listed_value_ok [OF example_plain]
  have "jval_ok example_list"
    unfolding jval_ok_def example_list_def jtoks.simps jtoks_arr.simps depth.simps list.map ok(3) maxNestingDepth_def
    by (simp only: list.pred_inject list_all_append append.simps if_True if_False list.distinct simp_thms tok_ok_marks ok(2))
      (simp add: numeral_2_eq_2)
  then have "containers_Parse (json_print example_list) =
      Inr [\<lparr>ce_ID = example_id, ce_Names = [''/web''], ce_Image = ''nginx'', ce_State = ''running''\<rparr>]"
    unfolding example_list_def by (intro containers_Parse_text [OF json_text_print]) (simp_all add: ok(1))
  moreover have "TrimPrefix ''/web'' ''/'' = ''web''" by code_simp
  ultimately show ?thesis
    unfolding readContainers_def round_get_allowed [OF read_targets(1)]
    using example_bodies(1)
    by (simp add: docker_example_def get_request_def reply_body_def ToContainers_def to_container_def example_container_def)
qed

lemma example_decoded: "stats_Parse (json_print example_stats) = Inr (raw_Sample example_raw)"
proof -
  have plain: "list_all plain_byte ''read''" "list_all plain_byte ''cpu_stats''" "list_all plain_byte ''cpu_usage''"
    "list_all plain_byte ''total_usage''" "list_all plain_byte ''system_cpu_usage''" "list_all plain_byte ''online_cpus''"
    "list_all plain_byte ''0001-01-01T00:00:01Z''"
    by (simp_all add: plain_byte_def in_range_def)
  have num: "tok_ok (TNum ''5'')" "tok_ok (TNum ''7'')" "tok_ok (TNum ''2'')"
    unfolding tok_ok_def jtok.case by code_simp+
  have ok: "jval_ok example_stats"
    unfolding jval_ok_def example_stats_def jtoks.simps jtoks_obj.simps
    by (simp only: list.pred_inject list_all_append append.simps if_True if_False list.distinct simp_thms tok_ok_marks
        plain [THEN tok_ok_plain] num)
      (simp add: depth.simps maxNestingDepth_def)
  have u: "ParseUint ''5'' = Inr 5" "ParseUint ''7'' = Inr 7" "ParseInt ''2'' = Some 2"
    by (simp_all add: ParseUint_def ParseInt_def is_digit_def in_range_def Let_def)
  have f: "field_of rawStats_fields ''read'' = Some (sub rw_Read rw_Read_update dec_time)"
    "field_of rawStats_fields ''cpu_stats'' = Some (dec_struct cpu_stats_fields)"
    by (rule field_of_exact, simp add: rawStats_fields_def)+
  have g: "field_of cpu_stats_fields ''cpu_usage'' = Some (dec_struct cpu_usage_fields)"
    "field_of cpu_stats_fields ''system_cpu_usage'' = Some (sub rw_SystemCPUUsage rw_SystemCPUUsage_update (dec_ptr 0 dec_uint64))"
    "field_of cpu_stats_fields ''online_cpus'' = Some (sub rw_OnlineCPUs rw_OnlineCPUs_update dec_int)"
    "field_of cpu_usage_fields ''total_usage'' = Some (sub rw_TotalUsage rw_TotalUsage_update dec_uint64)"
    by (rule field_of_exact, simp add: cpu_stats_fields_def cpu_usage_fields_def)+
  have "dec_struct rawStats_fields example_stats raw_zero = Some example_raw"
    unfolding example_stats_def dec_struct_def jval.case dec_fields.simps plain [THEN unquote_json_plain] f option.case
      sub_def dec_time_def parse_second_one option.map
    unfolding dec_struct_def jval.case dec_fields.simps plain [THEN unquote_json_plain] g option.case sub_def
      dec_uint64_def dec_int_def dec_ptr_def u sum.case option.map jval.distinct if_False
    by (simp add: example_raw_def)
  then show ?thesis
    unfolding stats_Parse_def decode_def Unmarshal_text [OF json_text_print ok] by simp
qed

lemma example_result: "worker_result docker_example i example_container = result_zero\<lparr>rt_sample := raw_Sample example_raw\<rparr>"
proof -
  have "stats_Path example_id \<noteq> containers_Path" by (simp add: stats_Path_def containers_Path_def example_id_def)
  then show ?thesis
    unfolding worker_result_def read_result_def readStats_def example_container_def Container.simps
      round_get_allowed [OF read_targets(3) [OF example_full_id]]
    using example_bodies(2)
    by (simp add: hasStats_def docker_example_def get_request_def reply_body_def example_decoded)
qed

lemma example_sample:
  "st_Running (raw_Sample example_raw)" "st_HasSystem (raw_Sample example_raw)" "st_CPUs (raw_Sample example_raw) = 2"
  "st_SystemTotal (raw_Sample example_raw) = 7" "st_CPUTotal (raw_Sample example_raw) = 5"
proof -
  have "\<not> IsZero (rw_Read example_raw)" by (simp add: example_raw_def IsZero_def)
  note eq = raw_Sample_running [OF this]
  show "st_Running (raw_Sample example_raw)" "st_HasSystem (raw_Sample example_raw)" "st_CPUs (raw_Sample example_raw) = 2"
    "st_SystemTotal (raw_Sample example_raw) = 7" "st_CPUTotal (raw_Sample example_raw) = 5"
    unfolding eq by (simp_all add: example_raw_def)
qed

theorem docker_round_correct_witness:
  "dk_prevStats (fst (withDetails docker_example [example_container] (docker_New ''d'' ''srv'' (5 * second) ()))) example_id
     = Some (raw_Sample example_raw)"
proof -
  have "dk_prevStats (fst (withDetails docker_example [example_container] (docker_New ''d'' ''srv'' (5 * second) ()))) (ct_ID example_container)
     = (if container_up example_container (result_zero\<lparr>rt_sample := raw_Sample example_raw\<rparr>) then Some (raw_Sample example_raw) else None)"
    using docker_round_correct [of "[example_container]" docker_example "docker_New ''d'' ''srv'' (5 * second) ()"]
    by (simp add: example_result Let_def)
  moreover have "container_up example_container (result_zero\<lparr>rt_sample := raw_Sample example_raw\<rparr>)"
    by (simp add: container_up_def result_zero_def example_container_def hasStats_def example_sample)
  ultimately show ?thesis by (simp add: example_container_def)
qed

theorem docker_preread_covers_new_containers_witness:
  "\<exists>prev later. dk_prevStats (preReadCPU docker_example (docker_New ''d'' ''srv'' (5 * second) ())) example_id = Some prev
     \<and> docker_CPUPercent prev later \<noteq> None"
proof -
  let ?s = "raw_Sample example_raw"
  let ?r = "result_zero\<lparr>rt_sample := ?s\<rparr>" and ?later = "?s\<lparr>st_SystemTotal := 9, st_CPUTotal := 6\<rparr>"
  have adv: "advanced (rt_sample ?r) ?later" by (simp add: advanced_def example_sample)
  have up: "rt_err ?r = None" "st_Running (rt_sample ?r)" "st_HasSystem (rt_sample ?r)"
    by (simp_all add: result_zero_def example_sample)
  have f: "[example_container] = filter (\<lambda>ct. hasStats (ct_State ct)) [example_container]"
    by (simp add: example_container_def hasStats_def)
  have "\<exists>prev. dk_prevStats (preReadCPU docker_example (docker_New ''d'' ''srv'' (5 * second) ())) (ct_ID ([example_container] ! 0)) = Some prev
      \<and> docker_CPUPercent prev ?later \<noteq> None"
    using docker_preread_covers_new_containers [OF example_containers f _ _ _ up adv, of 0 "docker_New ''d'' ''srv'' (5 * second) ()"]
    by (auto simp: example_result)
  then show ?thesis by (auto simp: example_container_def)
qed

theorem docker_run_only_reads_witness:
  "let e' = docker_example\<lparr>dk_next := (\<lambda>req. if read_target (rq_Target req) then dk_next docker_example req else Inl (NetErr False ''no''))\<rparr>;
       pb = (\<lambda>w ch ps. (w @ ps, int (length ps))); c = docker_New ''d'' ''srv'' (5 * second) []
   in fold (docker_step pb) [Tick e'] (primeCPU e' c) = fold (docker_step pb) [Tick docker_example] (primeCPU docker_example c)"
proof -
  let ?e = "docker_example\<lparr>dk_next := (\<lambda>req. if read_target (rq_Target req) then dk_next docker_example req else Inl (NetErr False ''no''))\<rparr>"
  have "same_reads docker_example ?e" by (simp add: same_reads_def)
  then show ?thesis unfolding Let_def by (intro docker_run_only_reads) simp_all
qed

end
