(* ===== verification/Payloads.thy ===== *)
theory Payloads
  imports EventTypes Tailer Resources Storage Agent DockerCollector DecodeBounds
begin

text \<open>
  What subscribers receive. The publisher hands the bytes of \<^verbatim>\<open>json.Marshal\<close> to Redis; here every payload any
  component puts on the wire is shown to be typed, so that its bytes are a JSON text from which a reader gets
  the event back. The locale \<open>typed_ticks\<close> is what a collector's tick has to keep.
\<close>

definition legible :: "(bytes \<times> json) list \<Rightarrow> bool" where
  "legible ps \<longleftrightarrow> (\<forall>(_, j) \<in> set ps. \<exists>v. json_parse (Marshal j) = Some v \<and> reads j v)"

lemma legible_simps [simp]: "legible []" "legible (ps @ qs) \<longleftrightarrow> legible ps \<and> legible qs"
  by (simp_all add: legible_def ball_Un)

lemma typed_legible: "typed n j \<Longrightarrow> n \<le> maxNestingDepth \<Longrightarrow> legible [(ch, j)]"
  using Marshal_parse [of n j] by (auto simp: legible_def)

lemma depth_enough: "n \<le> 100 \<Longrightarrow> n \<le> maxNestingDepth"
  by (simp add: maxNestingDepth_def)

locale typed_ticks =
  fixes tick :: "'e \<Rightarrow> 's \<Rightarrow> 's"
    and published :: "'s \<Rightarrow> (bytes \<times> json) list"
    and fits :: "'e \<Rightarrow> bool"
    and inv :: "'s \<Rightarrow> bool"
  assumes tick_inv: "fits e \<Longrightarrow> inv s \<Longrightarrow> inv (tick e s)"
    and tick_legible: "fits e \<Longrightarrow> inv s \<Longrightarrow> legible (published s) \<Longrightarrow> legible (published (tick e s))"
begin

lemma ticks_legible: "list_all fits es \<Longrightarrow> inv s \<Longrightarrow> legible (published s) \<Longrightarrow> legible (published (fold tick es s))"
  by (induction es arbitrary: s) (auto intro: tick_inv tick_legible)

lemma run_legible:
  "list_all fits (run_fired cancelled interval first es) \<Longrightarrow> inv s \<Longrightarrow> legible (published s) \<Longrightarrow>
     legible (published (run_ticks cancelled interval tick first es s))"
  by (simp add: run_ticks_fired ticks_legible)

end

section \<open>The heartbeat\<close>

interpretation beats: typed_ticks "beat PublishBatch" "\<lambda>e. wire (em_world e)" "\<lambda>_. True" "\<lambda>e. typed 1 (em_payload e)"
proof
  fix u and e :: "redis Emitter"
  assume "typed 1 (em_payload e)" "legible (wire (em_world e))"
  then show "legible (wire (em_world (beat PublishBatch u e)))"
    using typed_legible [of 1 "em_payload e" "em_channel e", OF _ depth_enough] by (simp add: beat_def del: One_nat_def)
qed simp

section \<open>The storage collector\<close>

lemma ToBytes_ok: "disk_ok (to_DiskUsage (ToBytes s))"
  by (simp add: disk_ok_def to_DiskUsage_def ToBytes_def Let_def)

lemma Total_ok: "disk_ok (to_DiskUsage (Total us))"
  by (simp add: disk_ok_def to_DiskUsage_def Total_percent Let_def)

abbreviation mounts_ok :: "MountUsage list \<Rightarrow> bool" where
  "mounts_ok ms \<equiv> list_all (\<lambda>m. \<forall>d \<in> set_option (mu_DiskUsage m). disk_ok d) ms"

lemma mountUsage_ok: "\<forall>d \<in> set_option (mu_DiskUsage (snd (mountUsage os table path c))). disk_ok d"
  by (simp add: mountUsage_def Let_def split_beta ToBytes_ok split: sum.split)

lemma add_mount_ok: "mounts_ok ms \<Longrightarrow> \<forall>d \<in> set_option (mu_DiskUsage u). disk_ok d \<Longrightarrow> mounts_ok (add_mount u ms)"
  by (simp add: add_mount_def)

lemma match_usages_ok: "mounts_ok (snd acc) \<Longrightarrow> mounts_ok (snd (match_usages os table path ms acc))"
proof (induction ms arbitrary: acc)
  case (Cons m ms)
  show ?case unfolding match_usages_step
    using Cons.prems mountUsage_ok [of os table "en_Path m" "fst acc"] by (intro Cons.IH) (simp add: add_mount_ok)
qed simp

lemma mounts_step_ok: "mounts_ok (snd acc) \<Longrightarrow> mounts_ok (snd (mounts_step os table path acc))"
  using mountUsage_ok [of os table path "fst acc"] match_usages_ok [of acc os table path]
  by (auto simp: mounts_step_def split_beta unmatched_def intro!: add_mount_ok split: option.split list.split)

lemma mountUsages_ok: "mounts_ok (snd (mountUsages os table c))"
proof -
  have "mounts_ok (snd (fold (mounts_step os table) ms acc))" if "mounts_ok (snd acc)" for ms and acc :: "'a Storage \<times> MountUsage list"
    using that by (induction ms arbitrary: acc) (auto simp: mounts_step_ok)
  then show ?thesis by (simp add: mountUsages_def)
qed

lemma storage_event_ok: "storage_ok (snd (storage_event e c))"
  using mountUsages_ok [of "st_sys e" "readMountTable e" "fst (serverStorage e (readMountTable e) c)"]
  by (auto simp: storage_ok_def storage_event_def serverStorage_def split_beta Let_def Total_ok list_all_iff)

interpretation storage_types: typed_ticks "storage_collect PublishBatch" "\<lambda>c. wire (sc_world c)" "\<lambda>_. True" "\<lambda>_. True"
proof
  fix e and c :: "redis Storage"
  assume r: "legible (wire (sc_world c))"
  obtain c' ev where ev: "storage_event e c = (c', ev)" by fastforce
  obtain j where j: "StorageEvent_json ev = Some j" by (simp add: StorageEvent_json_def)
  have "typed (Suc (Suc (Suc 0))) j" using StorageEvent_typed [OF j] storage_event_ok [of e c] ev by simp
  then have "legible [(sc_channel c', j)]" by (rule typed_legible) (rule depth_enough, simp)
  then show "legible (wire (sc_world (storage_collect PublishBatch e c)))"
    using r ev j event_target [of e c] by (simp add: storage_collect_def)
qed simp

section \<open>The resources collector\<close>

text \<open>
  A Go slice is shorter than \<open>2 ^ 63\<close> bytes, so the CPUs counted in \<^verbatim>\<open>/proc/stat\<close> fit an \<open>int\<close>.
\<close>

definition go_slice :: "file_read \<Rightarrow> bool" where
  "go_slice f = (case f of Inl _ \<Rightarrow> True | Inr data \<Rightarrow> length data < 2 ^ 63)"

lemma cpu_fields_CPUs: "cpu_fields i fs s = Inr s' \<Longrightarrow> cs_CPUs s' = cs_CPUs s"
  by (induction i fs s arbitrary: s' rule: cpu_fields.induct) (auto simp: Let_def split: sum.splits)

lemma cpu_lines_CPUs:
  "cpu_lines ls found s = Inr (b, s') \<Longrightarrow> cs_CPUs s \<le> cs_CPUs s' \<and> cs_CPUs s' \<le> cs_CPUs s + int (sum_list (map length ls))"
proof (induction ls found s arbitrary: b s' rule: cpu_lines.induct)
  case (2 line ls found s)
  let ?fs = "Fields line" and ?n = "int (sum_list (map length ls))"
  have ne: "length ?fs < 5" if "line = []" using that by simp
  have one: "1 \<le> int (length line)" if "\<not> length ?fs < 5" using ne that by (cases line) auto
  consider (skip) "length ?fs < 5 \<or> \<not> HasPrefix (hd ?fs) ''cpu''" | (cpu) "\<not> (length ?fs < 5 \<or> \<not> HasPrefix (hd ?fs) ''cpu'')" "3 < length (hd ?fs)"
    | (again) "\<not> (length ?fs < 5 \<or> \<not> HasPrefix (hd ?fs) ''cpu'')" "\<not> 3 < length (hd ?fs)" found
    | (total) "\<not> (length ?fs < 5 \<or> \<not> HasPrefix (hd ?fs) ''cpu'')" "\<not> 3 < length (hd ?fs)" "\<not> found" by blast
  then show ?case
  proof cases
    case skip
    then show ?thesis using "2.prems" "2.IH"(1) [OF refl skip] by (auto simp: Let_def)
  next
    case cpu
    then show ?thesis using "2.prems" "2.IH"(2) [OF refl cpu] one by (fastforce simp: Let_def split: if_splits)
  next
    case again
    then show ?thesis using "2.prems" "2.IH"(3) [OF refl again] by (auto simp: Let_def)
  next
    case total
    then obtain s1 where "cpu_fields 0 (tl ?fs) s = Inr s1" "cpu_lines ls True s1 = Inr (b, s')"
      using "2.prems" by (auto simp: Let_def split: sum.splits)
    then show ?thesis using "2.IH"(4) [OF refl total] cpu_fields_CPUs by fastforce
  qed
qed simp

lemma Split_length: "sum_list (map length (Split c s)) \<le> length s"
proof (induction s)
  case (Cons a s)
  then show ?case by (cases "Split c s") auto
qed simp

lemma f64_to_int64_range: "- (2 ^ 63) \<le> f64_to_int64 f \<and> f64_to_int64 f < 2 ^ 63"
  by (auto simp: f64_to_int64_def Let_def split: f64.split)

lemma ParseFloat_float64: "ParseFloat s = Inr (Fin q) \<Longrightarrow> is_float64 q"
  by (auto simp: ParseFloat_def is_float64_def special_float_def Let_def split: option.splits if_splits prod.splits)

lemma Rates_float64: "Rates prev now d = Some (rx, tx) \<Longrightarrow> is_float64 rx \<and> is_float64 tx"
proof -
  have "is_float64 (fdiv (of_u64 w) (seconds_of d))" if "0 < d" for w
  proof -
    let ?s = "seconds_of d"
    have s: "(2 :: rat) powi (- 30) \<le> ?s" using seconds_of_ge [OF that] .
    have "0 < ?s" using s power_int_two_pos [of "- 30"] by linarith
    have "\<bar>of_u64 w\<bar> / ?s \<le> \<bar>of_u64 w\<bar> / 2 powi (- 30)" using s \<open>0 < ?s\<close> by (intro divide_left_mono) simp_all
    also have "\<dots> \<le> 2 ^ 64 / 2 powi (- 30)" using bounded_u64 [of w] by (intro divide_right_mono) (simp_all add: bounded_def)
    also have "(2 :: rat) ^ 64 / 2 powi (- 30) = 2 ^ 94" by (simp add: power_int_minus)
    finally have "bounded 94 (of_u64 w / ?s)" using \<open>0 < ?s\<close> by (simp add: bounded_def)
    then have "is_float64 (rnd (of_u64 w / ?s))" by (rule float64_rnd) simp
    then show ?thesis using \<open>0 < ?s\<close> by (simp add: fdiv_eq)
  qed
  then show "Rates prev now d = Some (rx, tx) \<Longrightarrow> is_float64 rx \<and> is_float64 tx"
    by (auto simp: Rates_def Let_def split: if_splits option.splits prod.splits)
qed

lemma cpu_Percent_float64: "cpu_Percent prev now = Some q \<Longrightarrow> is_float64 q"
proof -
  have "is_float64 (fdiv (fmul 100 (of_u64 a)) (of_u64 b))" if "0 < b" for a b
    unfolding fdiv_eq [OF of_u64_neq_0 [OF that]] fmul_def by (rule float64_rnd, (rule bounded_intros)+) simp
  then show "cpu_Percent prev now = Some q \<Longrightarrow> is_float64 q"
    by (auto simp: cpu_Percent_def Let_def word_sub_pos split: if_splits)
qed

lemma cpuGroup_ok:
  assumes "go_slice (te_stat e)" "snd (cpuGroup e c) = Some g"
  shows "cpu_group_ok g"
proof -
  have n: "- (2 ^ 63) \<le> i \<and> i < 2 ^ 63" if now: "read_parse (te_stat e) cpu_Parse = Some now" "cpu_Count now = Some i" for now i
  proof -
    obtain data b where d: "te_stat e = Inr data" "cpu_lines (Split newline data) False cpu_zero = Inr (b, now)"
      using now(1) by (auto simp: read_parse_def cpu_Parse_def split: sum.splits if_splits)
    have "cs_CPUs now \<le> int (length data)" "0 \<le> cs_CPUs now"
      using cpu_lines_CPUs [OF d(2)] Split_length [of newline data] by (auto simp: cpu_zero_def)
    then show ?thesis using now(2) assms(1) d(1) by (auto simp: cpu_Count_def go_slice_def split: if_splits)
  qed
  have l: "is_float64 q" if "read_parse (te_loadavg e) load_Parse = Some s" "Fin q \<in> {One s, Five s, Fifteen s}" for s q
    using that by (auto simp: read_parse_def load_Parse_def split: sum.splits list.splits intro: ParseFloat_float64)
  show ?thesis using assms(2)
    by (auto simp: cpuGroup_def addCPUStat_def addLoad_def empty_group_def Averages_def Let_def cpu_group_ok_def
        split: option.splits if_splits prod.splits dest: n l intro: cpu_Percent_float64)
qed

lemma memoryAndSwap_ok:
  "\<forall>g \<in> set_option (fst (memoryAndSwap e)). is_float64 (mg_UsedPercent g)" "\<forall>g \<in> set_option (snd (memoryAndSwap e)). is_float64 (sg_UsedPercent g)"
proof -
  have "is_float64 (mem_UsedPercent u)" if "mem_Memory s = Some u" for s u
    using that by (auto simp: mem_Memory_def Let_def word_neq_0_conv split: if_splits option.splits prod.splits)
  moreover have "is_float64 (swap_UsedPercent u)" if "mem_Swap s = Some u" for s u
    using that by (auto simp: mem_Swap_def Let_def split: if_splits)
  ultimately show "\<forall>g \<in> set_option (fst (memoryAndSwap e)). is_float64 (mg_UsedPercent g)"
    "\<forall>g \<in> set_option (snd (memoryAndSwap e)). is_float64 (sg_UsedPercent g)"
    by (auto simp: memoryAndSwap_def split: option.splits)
qed

lemma networkGroup_ok: "\<forall>g \<in> set_option (snd (networkGroup e c)). is_float64 (ng_RxBytesPerSec g) \<and> is_float64 (ng_TxBytesPerSec g)"
  by (auto simp: networkGroup_def Let_def dest: Rates_float64 split: option.split)

lemma resources_event_ok: "go_slice (te_stat e) \<Longrightarrow> resources_ok (snd (resources_event e c))"
  using cpuGroup_ok [of e c] memoryAndSwap_ok [of e] networkGroup_ok [of e "fst (cpuGroup e c)"] f64_to_int64_range
  by (auto simp: resources_ok_def resources_event_def readUptime_def uptime_Seconds_def split_beta Let_def)

interpretation resources_types: typed_ticks "resources_collect PublishBatch" "\<lambda>c. wire (rc_world c)" "\<lambda>e. go_slice (te_stat e)" "\<lambda>_. True"
proof
  fix e :: tick_env and c :: "redis Resources"
  assume fits: "go_slice (te_stat e)" and r: "legible (wire (rc_world c))"
  obtain c' ev where ev: "resources_event e c = (c', ev)" by fastforce
  have w: "rc_world c' = rc_world c" using resources_event_state [of e c] ev by simp
  show "legible (wire (rc_world (resources_collect PublishBatch e c)))"
  proof (cases "ResourcesEvent_json ev")
    case (Some j)
    have "typed (Suc (Suc 0)) j" using ResourcesEvent_typed [OF Some] resources_event_ok [OF fits, of c] ev by simp
    then have "legible [(rc_channel c', j)]" by (rule typed_legible) (rule depth_enough, simp)
    then show ?thesis using r ev w Some by (simp add: resources_collect_def)
  qed (use r ev w in \<open>simp add: resources_collect_def\<close>)
qed simp

section \<open>The tailer\<close>

text \<open>
  Every payload of the pending batch is a log event of this tailer, and so is everything the tailer has put on
  the wire after \<open>w\<close>, on its channel.
\<close>

definition log_payload :: "bytes \<Rightarrow> bytes \<Rightarrow> json \<Rightarrow> bool" where
  "log_payload ch sid j \<longleftrightarrow> (\<exists>e. LogEvent_json e = Some j \<and> le_Channel e = ch \<and> le_ServerID e = sid)"

definition log_inv :: "bytes \<Rightarrow> bytes \<Rightarrow> (bytes \<times> json) list \<Rightarrow> redis Tailer \<Rightarrow> bool" where
  "log_inv ch sid w t \<longleftrightarrow> t_channel t = ch \<and> t_serverID t = sid \<and> list_all (log_payload ch sid) (t_batch t)
     \<and> (\<exists>ps. wire (t_world t) = w @ map (Pair ch) ps \<and> list_all (log_payload ch sid) ps)"

lemma log_payload_legible: "log_payload ch sid j \<Longrightarrow> legible [(c, j)]"
  using typed_legible [of 1 j, OF _ depth_enough] LogEvent_typed [of _ j 0] by (auto simp: log_payload_def)

lemma log_inv_legible: "log_inv ch sid w t \<Longrightarrow> legible w \<Longrightarrow> legible (wire (t_world t))"
proof -
  assume t: "log_inv ch sid w t" and w: "legible w"
  have "legible (map (Pair ch) ps)" if "list_all (log_payload ch sid) ps" for ps
    using that
  proof (induction ps)
    case (Cons j ps)
    have "legible ([(ch, j)] @ map (Pair ch) ps)" using Cons log_payload_legible [of ch sid j ch] unfolding legible_simps by simp
    then show ?case by simp
  qed simp
  moreover obtain ps where "wire (t_world t) = w @ map (Pair ch) ps" "list_all (log_payload ch sid) ps"
    using t unfolding log_inv_def by blast
  ultimately show ?thesis using w by simp
qed

lemma log_inv_New: "t_batch t = [] \<Longrightarrow> log_inv (t_channel t) (t_serverID t) (wire (t_world t)) t"
  unfolding log_inv_def by (intro conjI exI [of _ "[]"]) simp_all

lemma appendEvent_log: "log_inv ch sid w t \<Longrightarrow> log_inv ch sid w (appendEvent stamp line t)"
proof -
  assume t: "log_inv ch sid w t"
  let ?e = "\<lparr>le_ServerID = t_serverID t, le_Path = t_path t, le_Channel = t_channel t, le_Timestamp = stamp (length (t_batch t)), le_Message = line\<rparr>"
  obtain j where j: "LogEvent_json ?e = Some j" by (simp add: LogEvent_json_def)
  have "log_payload ch sid j" unfolding log_payload_def using j t by (intro exI [of _ ?e]) (simp add: log_inv_def)
  then show ?thesis using t j by (simp add: appendEvent_def log_inv_def)
qed

lemma publishBatch_log: "log_inv ch sid w t \<Longrightarrow> log_inv ch sid w (publishBatch PublishBatch t)"
proof -
  assume "log_inv ch sid w t"
  then obtain ps where ps: "wire (t_world t) = w @ map (Pair ch) ps" "list_all (log_payload ch sid) ps"
    and t: "t_channel t = ch" "t_serverID t = sid" "list_all (log_payload ch sid) (t_batch t)" by (auto simp: log_inv_def)
  have "wire (t_world (publishBatch PublishBatch t)) = w @ map (Pair ch) (ps @ t_batch t)"
    using ps(1) t(1) by (simp add: publishBatch_def split_beta)
  then show ?thesis unfolding log_inv_def
    using ps(2) t by (intro conjI exI [of _ "ps @ t_batch t"]) (simp_all add: publishBatch_def split_beta)
qed

lemma flush_loop_log: "log_inv ch sid w t \<Longrightarrow> log_inv ch sid w (fst (flush_loop stamp data t n))"
proof (induction stamp data t n rule: flush_loop.induct)
  case (1 stamp data t n)
  show ?case using 1 by (subst flush_loop.simps) (auto simp: Let_def appendEvent_log split: option.split)
qed

lemma flushCompleteLines_log: "log_inv ch sid w t \<Longrightarrow> log_inv ch sid w (fst (flushCompleteLines PublishBatch stamp t data))"
  using flush_loop_log [of ch sid w t stamp data 0]
  by (simp add: flushCompleteLines_def split_beta publishBatch_log appendEvent_log)

lemma log_inv_path [simp]: "log_inv ch sid w (t\<lparr>t_path := p\<rparr>) = log_inv ch sid w t" "log_inv ch sid w (t\<lparr>t_left := l\<rparr>) = log_inv ch sid w t" "log_inv ch sid w (t\<lparr>t_shipped := n\<rparr>) = log_inv ch sid w t"
  by (simp_all add: log_inv_def)

lemma heartbeat_log: "log_inv ch sid w (r_t s) \<Longrightarrow> log_inv ch sid w (r_t (Tailer.heartbeat clk s))"
  by (simp add: Tailer.heartbeat_def)

lemma drain_log: "log_inv ch sid w (r_t s) \<Longrightarrow> log_inv ch sid w (r_t (snd (drain PublishBatch f ds s sz)))"
proof (induction ds arbitrary: s sz)
  case (Cons d ds)
  obtain data err where r: "d_ReadAt d f (r_offset s) = (data, err)" by (cases "d_ReadAt d f (r_offset s)")
  have s: "log_inv ch sid w (r_t (drain_read PublishBatch (d_stamp d) data s))"
    using Cons.prems flushCompleteLines_log by (simp add: drain_read_def split_beta)
  show ?case using Cons.prems Cons.IH [OF heartbeat_log [OF s]] s r
    by (auto simp: Let_def close_file_def split: read_err.split sum.split)
qed simp

lemma newestMatch_log: "newestMatch ms stat t = (t', n, m) \<Longrightarrow> log_inv ch sid w t \<Longrightarrow> log_inv ch sid w t'"
  using newestMatch_keeps [of ms stat t t' n m] by (simp add: log_inv_def)

lemma hasNewerMatch_log: "hasNewerMatch fs ms stat t = (t', b) \<Longrightarrow> log_inv ch sid w t \<Longrightarrow> log_inv ch sid w t'"
  using newestMatch_log by (auto simp: hasNewerMatch_def split: sum.splits prod.splits)

lemma find_file_log: "log_inv ch sid w (r_t s) \<Longrightarrow> log_inv ch sid w (r_t (fst (find_file e s)))"
  by (auto simp: find_file_def dest: newestMatch_log split: prod.splits)

lemma open_phase_log:
  assumes "log_inv ch sid w (r_t s)"
  shows "open_phase e s = Inl (d, s') \<Longrightarrow> log_inv ch sid w (r_t s')" "open_phase e s = Inr (f, s') \<Longrightarrow> log_inv ch sid w (r_t s')"
proof -
  have "log_inv ch sid w (r_t (fst (find_file e (s\<lparr>r_switchPending := False\<rparr>))))" using assms by (simp add: find_file_log)
  then show "open_phase e s = Inl (d, s') \<Longrightarrow> log_inv ch sid w (r_t s')" "open_phase e s = Inr (f, s') \<Longrightarrow> log_inv ch sid w (r_t s')"
    using assms by (auto simp: open_phase_def Let_def split: option.splits bool.splits sum.splits prod.splits)
qed

lemma rotation_phase_log: "log_inv ch sid w (r_t s) \<Longrightarrow> log_inv ch sid w (r_t (fst (rotation_phase e f s)))"
  by (auto simp: rotation_phase_def close_file_def Let_def dest: hasNewerMatch_log split: prod.splits)

lemma read_phase_log: "log_inv ch sid w (r_t s) \<Longrightarrow> log_inv ch sid w (r_t (snd (read_phase PublishBatch e f s)))"
proof -
  assume s: "log_inv ch sid w (r_t s)"
  show ?thesis
  proof (cases "e_fstat e f")
    case (Inr info)
    obtain res s1 where d: "drain PublishBatch f (e_drain e) s (fi_size info) = (res, s1)" by fastforce
    have "log_inv ch sid w (r_t s1)" using drain_log [OF s, of f "e_drain e" "fi_size info"] d by simp
    then show ?thesis using s Inr d by (cases res) (auto simp: read_phase_def close_file_def)
  qed (use s in \<open>simp add: read_phase_def close_file_def\<close>)
qed

lemma run_iter_log: "log_inv ch sid w (r_t s) \<Longrightarrow> log_inv ch sid w (r_t (snd (run_iter PublishBatch e s)))"
proof -
  assume s: "log_inv ch sid w (r_t s)"
  let ?h = "Tailer.heartbeat (e_clock e) s"
  note h = heartbeat_log [OF s, of "e_clock e"]
  show ?thesis
  proof (cases "open_phase e ?h")
    case (Inl p)
    then show ?thesis using s open_phase_log(1) [OF h] by (cases p) (auto simp: run_iter_def)
  next
    case (Inr p)
    then obtain f s1 where p: "open_phase e ?h = Inr (f, s1)" by (cases p) auto
    let ?s2 = "s1\<lparr>r_cycle := r_cycle s1 + 1\<rparr>"
    have "log_inv ch sid w (r_t ?s2)" using open_phase_log(2) [OF h p] by simp
    from rotation_phase_log [OF this, of e f] show ?thesis
      using s p read_phase_log by (auto simp: run_iter_def split: prod.splits bool.splits)
  qed
qed

lemma tailer_Run_log: "log_inv ch sid w (r_t s) \<Longrightarrow> log_inv ch sid w (r_t (tailer_Run PublishBatch es s))"
proof (induction es arbitrary: s)
  case (Cons e es)
  have "log_inv ch sid w (r_t (snd (run_iter PublishBatch e s)))" by (rule run_iter_log [OF Cons.prems])
  then show ?case using Cons.IH by (cases "run_iter PublishBatch e s") (auto split: iter.split)
qed simp

section \<open>The docker collector\<close>

text \<open>
  A reply of the daemon has at most \<^verbatim>\<open>maxBody\<close> bytes and its integers are decoded as Go's \<open>int\<close>, so the number of CPUs of a
  sample and an exit code fit 64 bits, whatever the reply says.
\<close>

definition raw_fits :: "nat \<Rightarrow> rawStats \<Rightarrow> bool" where
  "raw_fits n r \<longleftrightarrow> length (rw_PercpuUsage r) \<le> n \<and> int64 (rw_OnlineCPUs r)"

lemma rawStats_keeps: "keeps n (raw_fits n) (dec_struct rawStats_fields)"
proof -
  have cpus: "keeps n (raw_fits n) (sub rw_OnlineCPUs rw_OnlineCPUs_update dec_int)"
    by (rule keeps_sub) (auto simp: raw_fits_def intro: dec_int_int64)
  have percpu: "keeps n (raw_fits n) (sub rw_PercpuUsage rw_PercpuUsage_update (dec_slice 0 dec_uint64))"
    by (rule keeps_sub) (auto simp: raw_fits_def dest: dec_slice_length)
  have other: "raw_fits n (rw_Read_update f r) = raw_fits n r" "raw_fits n (rw_TotalUsage_update g r) = raw_fits n r"
    "raw_fits n (rw_SystemCPUUsage_update h r) = raw_fits n r" "raw_fits n (rw_Usage_update h r) = raw_fits n r"
    "raw_fits n (rw_Limit_update g r) = raw_fits n r" "raw_fits n (rw_Stats_update i r) = raw_fits n r"
    "raw_fits n (rw_Networks_update j r) = raw_fits n r" "raw_fits n (rw_PIDs_update h r) = raw_fits n r"
    "raw_fits n (rw_Blkio_update k r) = raw_fits n r" for f g h i j k r
    by (simp_all add: raw_fits_def)
  show ?thesis
    unfolding rawStats_fields_def cpu_stats_fields_def cpu_usage_fields_def memory_stats_fields_def
    by (simp add: keeps_structI cpus percpu keeps_other other)
qed

lemma stats_Parse_CPUs: "stats_Parse data = Inr s \<Longrightarrow> length data < 2 ^ 63 \<Longrightarrow> int64 (st_CPUs s)"
proof -
  assume s: "stats_Parse data = Inr s" and len: "length data < 2 ^ 63"
  obtain raw where raw: "Unmarshal (dec_struct rawStats_fields) raw_zero data = Some raw" "s = raw_Sample raw"
    using s by (auto simp: stats_Parse_def decode_def split: option.splits)
  have "raw_fits (length data) raw_zero" by (simp add: raw_fits_def raw_zero_def int64_def)
  from Unmarshal_keeps [OF rawStats_keeps this raw(1)] have "length (rw_PercpuUsage raw) < 2 ^ 63" "int64 (rw_OnlineCPUs raw)"
    using len by (simp_all add: raw_fits_def)
  moreover have "st_CPUs (fold network_step ns x) = st_CPUs x" "st_CPUs (fold blkio_step bs x) = st_CPUs x" for ns bs x
    by (induction ns arbitrary: x; simp add: network_step_def split_beta) (induction bs arbitrary: x; simp add: blkio_step_def split_beta)
  ultimately show ?thesis unfolding raw(2) raw_Sample_def
    by (auto simp: Let_def stats_zero_def int64_of_nat intro: int64_of_nat split: option.split)
qed

definition exit_fits :: "state_Sample \<Rightarrow> bool" where
  "exit_fits x \<longleftrightarrow> int64 (ex_ExitCode x)"

lemma state_Parse_exit: "state_Parse data = Inr x \<Longrightarrow> int64 (ex_ExitCode x)"
proof -
  let ?z = "\<lparr>ex_Running = False, ex_ExitCode = 0, ex_FinishedAt = 0\<rparr>"
  have code: "keeps n exit_fits (sub ex_ExitCode ex_ExitCode_update dec_int)" for n
    by (rule keeps_sub) (auto simp: exit_fits_def intro: dec_int_int64)
  have other: "exit_fits (ex_Running_update f x) = exit_fits x" "exit_fits (ex_FinishedAt_update g x) = exit_fits x" for f g x
    by (simp_all add: exit_fits_def)
  have "keeps n exit_fits (dec_struct [(''State'', dec_struct
      [(''Running'', sub ex_Running ex_Running_update dec_bool), (''ExitCode'', sub ex_ExitCode ex_ExitCode_update dec_int),
       (''FinishedAt'', sub ex_FinishedAt ex_FinishedAt_update dec_time)])])" for n
    by (simp add: keeps_structI keeps_other code other)
  from Unmarshal_keeps [OF this, of ?z data x] show "state_Parse data = Inr x \<Longrightarrow> int64 (ex_ExitCode x)"
    by (auto simp: state_Parse_def decode_def exit_fits_def split: option.splits)
qed

lemma round_get_bounded: "round_get e path = Inr body \<Longrightarrow> length body < 2 ^ 63"
proof -
  assume "round_get e path = Inr body"
  then have "length body \<le> maxBody" by (auto simp: round_get_def dest: docker_Get_bounded)
  then show ?thesis by (simp add: maxBody_def)
qed

lemma read_result_fits: "int64 (st_CPUs (rt_sample (worker_result e i ct))) \<and> int64 (ex_ExitCode (rt_exit (worker_result e i ct)))"
  using stats_Parse_CPUs state_Parse_exit round_get_bounded
  by (auto simp: worker_result_def read_result_def readStats_def readState_def result_zero_def stats_zero_def split: option.split sum.split)

lemma bounded_int64: "int64 i \<Longrightarrow> bounded 63 (of_i64 i)"
proof -
  assume "int64 i"
  then have "\<bar>i\<bar> \<le> 2 ^ 63" by (auto simp: int64_def)
  then have "(of_int \<bar>i\<bar> :: rat) \<le> of_int (2 ^ 63)" by (simp only: of_int_le_iff)
  then have "bounded 63 (of_int i)" by (simp add: bounded_def)
  then show ?thesis unfolding of_i64_def by (rule rnd_bounded)
qed

lemma docker_CPUPercent_float64: "int64 (st_CPUs now) \<Longrightarrow> docker_CPUPercent prev now = Some q \<Longrightarrow> is_float64 q"
proof -
  assume n: "int64 (st_CPUs now)"
  have "is_float64 (fmul (fmul (fdiv (of_u64 a) (of_u64 b)) (of_i64 (st_CPUs now))) 100)" if "0 < b" for a b
    unfolding fmul_def fdiv_eq [OF of_u64_neq_0 [OF that]]
    by (rule float64_rnd, (rule bounded_int64 [OF n] bounded_intros)+) simp
  then show "docker_CPUPercent prev now = Some q \<Longrightarrow> is_float64 q"
    by (auto simp: docker_CPUPercent_def Let_def word_sub_pos split: if_splits)
qed

lemma docker_MemoryUsage_float64: "docker_MemoryUsage s = Some m \<Longrightarrow> is_float64 (dm_UsedPercent m)"
  by (auto simp: docker_MemoryUsage_def Let_def split: if_splits)

text \<open>The entry of every container, whatever the sample kept from before.\<close>

lemma detail_entry_ok:
  assumes "int64 (st_CPUs (rt_sample r))" "int64 (ex_ExitCode (rt_exit r))"
  shows "container_ok (fst (snd (detail_entry cd ct r c)))"
  using assms
  by (auto simp: detail_entry_def to_published_def fillStats_def container_ok_def Exit_def Let_def int64_def
      dest: docker_MemoryUsage_float64 intro: docker_CPUPercent_float64 split: option.split)

lemma detail_loop_ok:
  "(\<And>ct r. (ct, r) \<in> set rs \<Longrightarrow> int64 (st_CPUs (rt_sample r)) \<and> int64 (ex_ExitCode (rt_exit r))) \<Longrightarrow>
     list_all container_ok (fst (snd (detail_loop cd rs c)))"
proof (induction rs arbitrary: c)
  case (Cons p rs)
  obtain ct r where p: "p = (ct, r)" by fastforce
  have "container_ok (fst (snd (detail_entry cd ct r c)))" using Cons.prems p by (intro detail_entry_ok) auto
  moreover have "list_all container_ok (fst (snd (detail_loop cd rs (fst (detail_entry cd ct r c)))))" using Cons.prems by (intro Cons.IH) auto
  ultimately show ?case by (simp add: p Let_def split_beta)
qed simp

lemma withDetails_ok: "list_all container_ok (snd (withDetails e cts c))"
proof -
  have "int64 (st_CPUs (rt_sample r)) \<and> int64 (ex_ExitCode (rt_exit r))" if "(ct, r) \<in> set (zip cts (round_results e cts))" for ct r
    using set_zip_rightD [OF that] read_result_fits by (auto simp: round_results_def)
  then show ?thesis by (simp add: withDetails_def split_beta Let_def detail_loop_ok)
qed

lemma docker_event_ok:
  assumes "docker_inv c" "snd (docker_event e c) = Some ev"
  shows "list_all container_ok (de_Containers ev) \<and> de_CgroupVersion ev \<in> {0, 1, 2}"
proof -
  have "de_CgroupVersion ev = dk_cgroupVersion (fst (docker_event e c))" "list_all container_ok (de_Containers ev)"
    using assms(2) by (auto simp: docker_event_def Let_def split_beta withDetails_ok split: sum.splits if_splits)
  then show ?thesis using docker_inv_event [OF assms(1), of e] by (auto simp: docker_inv_def)
qed

interpretation docker_types: typed_ticks "docker_step PublishBatch" "\<lambda>c. wire (dk_world c)" "\<lambda>_. True" docker_inv
proof
  fix f and c :: "redis Docker"
  show "docker_inv (docker_step PublishBatch f c)" if "docker_inv c" using that by (rule docker_inv_step)
  assume i: "docker_inv c" and r: "legible (wire (dk_world c))"
  show "legible (wire (dk_world (docker_step PublishBatch f c)))"
  proof (cases f)
    case (Tick e)
    obtain c' ev where ev: "docker_event e c = (c', ev)" by fastforce
    have w: "dk_world c' = dk_world c" using docker_event_config [of e c] ev by simp
    show ?thesis
    proof (cases ev)
      case (Some x)
      obtain j where j: "DockerEvent_json x = Some j" by (simp add: DockerEvent_json_def)
      have "typed (Suc (Suc (Suc (Suc 0)))) j" using DockerEvent_typed [OF j] docker_event_ok [OF i, of e x] ev Some by simp
      then have "legible [(dk_channel c', j)]" by (rule typed_legible) (rule depth_enough, simp)
      then show ?thesis using r ev w Some j Tick by (simp add: docker_collect_def)
    qed (use r ev w Tick in \<open>simp add: docker_collect_def\<close>)
  qed (use r in simp)
qed

end
