(* ===== verification/PgMetrics.thy ===== *)
theory PgMetrics
  imports PgEvents Network GoNumber GoDate
begin

text \<open>
  \<^verbatim>\<open>src/db/postgres/parse.go\<close> and \<^verbatim>\<open>calculate.go\<close>, and of \<^verbatim>\<open>read.go\<close> the row types, the named queries and
  the session that \<^verbatim>\<open>Connect\<close> asks the driver for. An \<open>int64\<close> is an integer, with the wrap-around of its
  arithmetic written out. The driver and the server behind it are not modelled here: what they answer is
  an input of the engine.
\<close>

definition wrap_int64 :: "int \<Rightarrow> int" where
  "wrap_int64 i = (i + 2 ^ 63) mod 2 ^ 64 - 2 ^ 63"

lemma wrap_int64_id: "- (2 ^ 63) \<le> i \<Longrightarrow> i < 2 ^ 63 \<Longrightarrow> wrap_int64 i = i"
  by (simp add: wrap_int64_def)

section \<open>Errors\<close>

text \<open>
  An error of the driver: the Postgres error it wraps, if any, as its code and message, its own message,
  and whether it is the context's deadline or a timeout of the driver.
\<close>

record pg_error =
  er_pg :: "(bytes \<times> bytes) option"
  er_text :: bytes
  er_deadline :: bool
  er_timeout :: bool

definition pg_errTimedOut :: bytes where
  "pg_errTimedOut = ''timed out''"

definition codeCannotConnectNow :: bytes where
  "codeCannotConnectNow = ''57P03''"

definition codeTooManyConnections :: bytes where
  "codeTooManyConnections = ''53300''"

definition ErrorText :: "pg_error \<Rightarrow> bytes" where
  "ErrorText err = (if er_deadline err \<or> er_timeout err then pg_errTimedOut else er_text err)"

definition ConnectFailure :: "pg_error \<Rightarrow> bool \<times> bytes" where
  "ConnectFailure err =
     (case er_pg err of Some (code, msg) \<Rightarrow> (code \<noteq> codeCannotConnectNow, msg) | None \<Rightarrow> (False, ErrorText err))"

definition IsTooManyConnections :: "pg_error \<Rightarrow> bool" where
  "IsTooManyConnections err = (case er_pg err of Some (code, msg) \<Rightarrow> code = codeTooManyConnections | None \<Rightarrow> False)"

section \<open>Sessions and rows\<close>

text \<open>\<^verbatim>\<open>Connect\<close>: what it sets for the session before it dials.\<close>

definition quote :: "bytes \<Rightarrow> bytes" where
  "quote s = [CHR 0x27] @ ReplaceAll (ReplaceAll s [CHR 0x5C] [CHR 0x5C, CHR 0x5C]) [CHR 0x27] [CHR 0x5C, CHR 0x27] @ [CHR 0x27]"

record conn_config =
  cc_conninfo :: bytes
  cc_Database :: bytes
  cc_ConnectTimeout :: duration
  cc_Fallbacks :: "bytes list"
  cc_RuntimeParams :: "(bytes \<times> bytes) list"
  cc_SimpleProtocol :: bool

definition statementTimeout :: bytes where
  "statementTimeout = ''5s''"

definition lockTimeout :: bytes where
  "lockTimeout = ''1s''"

definition connectTimeout :: duration where
  "connectTimeout = 5 * second"

definition applicationName :: bytes where
  "applicationName = ''log-tailer-go''"

definition session_config :: "bytes \<Rightarrow> bytes \<Rightarrow> conn_config" where
  "session_config socketDir database =
     \<lparr>cc_conninfo = ''host='' @ quote socketDir @ '' port=5432 sslmode=disable'', cc_Database = database,
      cc_ConnectTimeout = connectTimeout, cc_Fallbacks = [],
      cc_RuntimeParams = [(''application_name'', applicationName), (''statement_timeout'', statementTimeout),
        (''lock_timeout'', lockTimeout), (''default_transaction_read_only'', ''on'')],
      cc_SimpleProtocol = True\<rparr>"

text \<open>The queries, by the names of their constants.\<close>

datatype query =
    QServer | QMaxConnections | QConnections | QLongRunning | QBlocked | QReplicas | QReplay
  | QDatabases | QSizes | QLargestTables | QDeadTuples

record ServerRow =
  sv_StartedEpoch :: f64
  sv_InRecovery :: bool

record StateCountRow =
  sr_State :: bytes
  sr_Count :: int

record SessionRow =
  sn_PID :: int
  sn_Database :: bytes
  sn_User :: bytes
  sn_Application :: bytes
  sn_State :: bytes
  sn_QuerySeconds :: "f64 option"
  sn_TransactionSeconds :: "f64 option"

record BlockedRow =
  bl_PID :: int
  bl_Database :: bytes
  bl_User :: bytes
  bl_Application :: bytes
  bl_QuerySeconds :: "f64 option"
  bl_BlockedBy :: "int list"

record ReplicaRow =
  rp_Application :: bytes
  rp_ClientAddr :: "bytes option"
  rp_State :: bytes
  rp_ReplayLagSeconds :: "f64 option"
  rp_ReplayLagBytes :: "int option"

record ReplayRow =
  ry_DelaySeconds :: "f64 option"
  ry_UnreplayedBytes :: "int option"

record DatabaseRow =
  dr_Name :: bytes
  dr_XIDAge :: int
  dr_AllowConn :: bool
  dr_Commits :: "int option"
  dr_Rollbacks :: "int option"
  dr_Deadlocks :: "int option"
  dr_TempFiles :: "int option"
  dr_TempBytes :: "int option"
  dr_BlocksHit :: "int option"
  dr_BlocksRead :: "int option"
  dr_StatsReset :: "f64 option"

record SizeRow =
  sz_Name :: bytes
  sz_Bytes :: "int option"

record TableSizeRow =
  ts_Schema :: bytes
  ts_Table :: bytes
  ts_Bytes :: int

record DeadTuplesRow =
  dt_Schema :: bytes
  dt_Table :: bytes
  dt_Live :: int
  dt_Dead :: int
  dt_LastAutovacuumEpoch :: "f64 option"

section \<open>Counters\<close>

record pg_Counters =
  pk_Commits :: int
  pk_Rollbacks :: int
  pk_Deadlocks :: int
  pk_TempFiles :: int
  pk_TempBytes :: int
  pk_BlocksHit :: int
  pk_BlocksRead :: int
  pk_StatsReset :: f64

definition ParseCounters :: "DatabaseRow \<Rightarrow> pg_Counters option" where
  "ParseCounters r =
     (case (dr_Commits r, dr_Rollbacks r, dr_Deadlocks r, dr_TempFiles r, dr_TempBytes r, dr_BlocksHit r, dr_BlocksRead r) of
        (Some commits, Some rollbacks, Some deadlocks, Some tempFiles, Some tempBytes, Some hit, Some read) \<Rightarrow>
          Some \<lparr>pk_Commits = commits, pk_Rollbacks = rollbacks, pk_Deadlocks = deadlocks, pk_TempFiles = tempFiles,
                pk_TempBytes = tempBytes, pk_BlocksHit = hit, pk_BlocksRead = read,
                pk_StatsReset = (case dr_StatsReset r of None \<Rightarrow> Fin 0 | Some t \<Rightarrow> t)\<rparr>
      | _ \<Rightarrow> None)"

text \<open>Go's \<^verbatim>\<open>==\<close> on floats: a NaN equals nothing, itself included.\<close>

fun f64_eq :: "f64 \<Rightarrow> f64 \<Rightarrow> bool" where
  "f64_eq (Fin p) (Fin q) \<longleftrightarrow> p = q"
| "f64_eq (Inf s) (Inf t) \<longleftrightarrow> s = t"
| "f64_eq _ _ \<longleftrightarrow> False"

text \<open>\<^verbatim>\<open>Duration.Seconds\<close> of either sign: Go's division truncates, so it is odd in the duration.\<close>

definition Seconds :: "duration \<Rightarrow> rat" where
  "Seconds d = (if d < 0 then - seconds_of (- d) else seconds_of d)"

record pg_Sample =
  sp_Counters :: pg_Counters
  sp_At :: time
  sp_StartedAt :: f64

definition Diff :: "pg_Sample \<Rightarrow> pg_Sample \<Rightarrow> PostgresActivity option" where
  "Diff prev cur =
     (let p = sp_Counters prev; c = sp_Counters cur; seconds = Seconds (time_sub (sp_At cur) (sp_At prev))
      in if seconds \<le> 0 \<or> \<not> f64_eq (sp_StartedAt prev) (sp_StartedAt cur) \<or> \<not> f64_eq (pk_StatsReset p) (pk_StatsReset c) then None
         else if pk_Commits c < pk_Commits p \<or> pk_Rollbacks c < pk_Rollbacks p \<or> pk_Deadlocks c < pk_Deadlocks p
           \<or> pk_TempFiles c < pk_TempFiles p \<or> pk_TempBytes c < pk_TempBytes p
           \<or> pk_BlocksHit c < pk_BlocksHit p \<or> pk_BlocksRead c < pk_BlocksRead p then None
         else Some \<lparr>pa_Seconds = seconds, pa_Commits = wrap_int64 (pk_Commits c - pk_Commits p),
                    pa_Rollbacks = wrap_int64 (pk_Rollbacks c - pk_Rollbacks p),
                    pa_Deadlocks = wrap_int64 (pk_Deadlocks c - pk_Deadlocks p),
                    pa_TempFiles = wrap_int64 (pk_TempFiles c - pk_TempFiles p),
                    pa_TempBytes = wrap_int64 (pk_TempBytes c - pk_TempBytes p)\<rparr>)"

definition CacheHitPercent :: "pg_Counters \<Rightarrow> pg_Counters \<Rightarrow> rat option" where
  "CacheHitPercent prev cur =
     (let hit = wrap_int64 (pk_BlocksHit cur - pk_BlocksHit prev);
          read = wrap_int64 (pk_BlocksRead cur - pk_BlocksRead prev);
          total = wrap_int64 (hit + read)
      in if total \<le> 0 then None else Some (fmul (fdiv (of_i64 hit) (of_i64 total)) 100))"

section \<open>Times\<close>

fun Modf :: "f64 \<Rightarrow> f64 \<times> f64" where
  "Modf (Fin q) = (let i = (if q < 0 then \<lceil>q\<rceil> else \<lfloor>q\<rfloor>) in (Fin (of_int i), Fin (q - of_int i)))"
| "Modf (Inf s) = (Inf s, NaN)"
| "Modf NaN = (NaN, NaN)"

fun times_1e9 :: "f64 \<Rightarrow> f64" where
  "times_1e9 (Fin q) = Fin (fmul q 1000000000)"
| "times_1e9 (Inf s) = Inf s"
| "times_1e9 NaN = NaN"

text \<open>\<^verbatim>\<open>time.Unix\<close>, as nanoseconds since Go's zero time; the seconds are an \<open>int64\<close> and wrap.\<close>

definition time_Unix :: "int \<Rightarrow> int \<Rightarrow> time" where
  "time_Unix sec nsec = second * wrap_int64 (sec + nsec div second + 62135596800) + nsec mod second"

definition EpochToTime :: "f64 \<Rightarrow> time" where
  "EpochToTime epoch = (case Modf epoch of (sec, fr) \<Rightarrow> time_Unix (f64_to_int64 sec) (f64_to_int64 (times_1e9 fr)))"

definition FormatEpoch :: "f64 \<Rightarrow> bytes" where
  "FormatEpoch epoch = FormatRFC3339 (EpochToTime epoch)"

definition pg_UptimeSeconds :: "f64 \<Rightarrow> time \<Rightarrow> int" where
  "pg_UptimeSeconds startedEpoch now =
     (let up = time_sub now (EpochToTime startedEpoch) in if up < 0 then 0 else up div second)"

section \<open>Lemmas\<close>

text \<open>Counters as Postgres keeps them: not negative, and far from the end of their range.\<close>

definition counters_ok :: "pg_Counters \<Rightarrow> bool" where
  "counters_ok c \<longleftrightarrow> (\<forall>v \<in> {pk_Commits c, pk_Rollbacks c, pk_Deadlocks c, pk_TempFiles c, pk_TempBytes c}. 0 \<le> v \<and> v < 2 ^ 63)
     \<and> 0 \<le> pk_BlocksHit c \<and> 0 \<le> pk_BlocksRead c \<and> pk_BlocksHit c + pk_BlocksRead c < 2 ^ 63"

definition counters_le :: "pg_Counters \<Rightarrow> pg_Counters \<Rightarrow> bool" where
  "counters_le p c \<longleftrightarrow> pk_Commits p \<le> pk_Commits c \<and> pk_Rollbacks p \<le> pk_Rollbacks c \<and> pk_Deadlocks p \<le> pk_Deadlocks c
     \<and> pk_TempFiles p \<le> pk_TempFiles c \<and> pk_TempBytes p \<le> pk_TempBytes c
     \<and> pk_BlocksHit p \<le> pk_BlocksHit c \<and> pk_BlocksRead p \<le> pk_BlocksRead c"

lemma Seconds_pos: "0 < Seconds d \<longleftrightarrow> 0 < d"
proof -
  have "seconds_of 0 = 0" by (simp add: seconds_of_def of_i64_def fdiv_def fadd_def)
  moreover have "0 < seconds_of (- d)" if "d < 0" using seconds_of_pos [of "- d"] that by simp
  ultimately show ?thesis using seconds_of_pos [of d] by (cases "d = 0") (auto simp: Seconds_def)
qed

lemma time_sub_pos: "0 < time_sub t u \<longleftrightarrow> u < t"
  by (auto simp: time_sub_def)

lemma Diff_usable:
  "Diff prev cur \<noteq> None \<longleftrightarrow> sp_At prev < sp_At cur \<and> f64_eq (sp_StartedAt prev) (sp_StartedAt cur)
     \<and> f64_eq (pk_StatsReset (sp_Counters prev)) (pk_StatsReset (sp_Counters cur))
     \<and> counters_le (sp_Counters prev) (sp_Counters cur)"
  using Seconds_pos [of "time_sub (sp_At cur) (sp_At prev)"]
  by (auto simp: Diff_def Let_def counters_le_def time_sub_pos not_le not_less)

lemma Diff_values:
  assumes "Diff prev cur = Some a" "counters_ok (sp_Counters prev)" "counters_ok (sp_Counters cur)"
  shows "pa_Commits a = pk_Commits (sp_Counters cur) - pk_Commits (sp_Counters prev)
    \<and> pa_Rollbacks a = pk_Rollbacks (sp_Counters cur) - pk_Rollbacks (sp_Counters prev)
    \<and> pa_Deadlocks a = pk_Deadlocks (sp_Counters cur) - pk_Deadlocks (sp_Counters prev)
    \<and> pa_TempFiles a = pk_TempFiles (sp_Counters cur) - pk_TempFiles (sp_Counters prev)
    \<and> pa_TempBytes a = pk_TempBytes (sp_Counters cur) - pk_TempBytes (sp_Counters prev)"
proof -
  have "wrap_int64 (x - y) = x - y" if "0 \<le> x" "x < 2 ^ 63" "0 \<le> y" "y < 2 ^ 63" for x y
    using that by (intro wrap_int64_id) simp_all
  then show ?thesis using assms by (auto simp: Diff_def Let_def counters_ok_def split: if_splits)
qed

lemma CacheHitPercent_share:
  assumes "counters_ok p" "counters_ok c" "counters_le p c"
    and "hit = pk_BlocksHit c - pk_BlocksHit p" "read = pk_BlocksRead c - pk_BlocksRead p"
  shows "CacheHitPercent p c = None \<longleftrightarrow> hit = 0 \<and> read = 0"
    and "CacheHitPercent p c = Some pct \<Longrightarrow> 0 \<le> pct \<and> pct \<le> 100 \<and> (hit = 0 \<longrightarrow> pct = 0) \<and> (read = 0 \<longrightarrow> pct = 100)"
proof -
  have b: "0 \<le> hit" "0 \<le> read" "hit + read < 2 ^ 63"
    using assms by (auto simp: counters_ok_def counters_le_def)
  have w: "wrap_int64 hit = hit" "wrap_int64 read = read" "wrap_int64 (hit + read) = hit + read"
    using b by (auto intro!: wrap_int64_id)
  have eq: "CacheHitPercent p c = (if hit + read \<le> 0 then None else Some (fmul (fdiv (of_i64 hit) (of_i64 (hit + read))) 100))"
    unfolding CacheHitPercent_def Let_def assms(4,5) [symmetric] w by (simp only: w)
  show "CacheHitPercent p c = None \<longleftrightarrow> hit = 0 \<and> read = 0" using b by (auto simp: eq)
  assume "CacheHitPercent p c = Some pct"
  then have pos: "0 < hit + read" and pct: "pct = fmul (fdiv (of_i64 hit) (of_i64 (hit + read))) 100"
    by (auto simp: eq split: if_splits)
  then have r: "(1 :: rat) \<le> of_int (hit + read)" "(0 :: rat) \<le> of_int hit" "(of_int hit :: rat) \<le> of_int (hit + read)"
    using b by (simp_all only: of_int_0_le_iff of_int_1_le_iff of_int_le_iff)
  have "rnd (of_int (hit + read)) \<noteq> 0" using binary64.ge_one [OF r(1)] by linarith
  then have p: "pct = rnd (rnd (rnd (of_int hit) / rnd (of_int (hit + read))) * 100)"
    unfolding pct of_i64_def by (simp only: fdiv_eq fmul_def not_False_eq_True)
  have "0 \<le> pct \<and> pct \<le> 100" unfolding p by (rule binary64.share_percent [OF r(2,3,1)])
  moreover have "pct = 0" if "hit = 0" unfolding p that by simp
  moreover have "pct = 100" if "read = 0" unfolding p using binary64.full_percent [OF r(1)] that by simp
  ultimately show "0 \<le> pct \<and> pct \<le> 100 \<and> (hit = 0 \<longrightarrow> pct = 0) \<and> (read = 0 \<longrightarrow> pct = 100)" by blast
qed

text \<open>
  C27. The published activity of a database is sound: figures are given exactly when time has passed,
  Postgres has not restarted, its stats were not reset and no counter went backwards; they are then the
  exact differences of the counters over the time between the samples, which is positive, and the cache hit share, given
  exactly when a block was read, lies between 0 and 100, is 0 when every block came from the system and 100 when none did.
\<close>

theorem pg_activity_correct:
  "(Diff prev cur \<noteq> None \<longleftrightarrow> sp_At prev < sp_At cur \<and> f64_eq (sp_StartedAt prev) (sp_StartedAt cur)
      \<and> f64_eq (pk_StatsReset (sp_Counters prev)) (pk_StatsReset (sp_Counters cur))
      \<and> counters_le (sp_Counters prev) (sp_Counters cur))
   \<and> (\<forall>a. Diff prev cur = Some a \<and> counters_ok (sp_Counters prev) \<and> counters_ok (sp_Counters cur) \<longrightarrow>
        pa_Seconds a = Seconds (time_sub (sp_At cur) (sp_At prev)) \<and> 0 < pa_Seconds a
        \<and> pa_Commits a = pk_Commits (sp_Counters cur) - pk_Commits (sp_Counters prev)
        \<and> pa_Rollbacks a = pk_Rollbacks (sp_Counters cur) - pk_Rollbacks (sp_Counters prev)
        \<and> pa_Deadlocks a = pk_Deadlocks (sp_Counters cur) - pk_Deadlocks (sp_Counters prev)
        \<and> pa_TempFiles a = pk_TempFiles (sp_Counters cur) - pk_TempFiles (sp_Counters prev)
        \<and> pa_TempBytes a = pk_TempBytes (sp_Counters cur) - pk_TempBytes (sp_Counters prev)
        \<and> (let hit = pk_BlocksHit (sp_Counters cur) - pk_BlocksHit (sp_Counters prev);
               read = pk_BlocksRead (sp_Counters cur) - pk_BlocksRead (sp_Counters prev);
               share = CacheHitPercent (sp_Counters prev) (sp_Counters cur)
           in (share = None \<longleftrightarrow> hit = 0 \<and> read = 0)
              \<and> (\<forall>pct. share = Some pct \<longrightarrow> 0 \<le> pct \<and> pct \<le> 100 \<and> (hit = 0 \<longrightarrow> pct = 0) \<and> (read = 0 \<longrightarrow> pct = 100))))"
proof (intro conjI [OF Diff_usable] allI impI)
  fix a
  assume "Diff prev cur = Some a \<and> counters_ok (sp_Counters prev) \<and> counters_ok (sp_Counters cur)"
  then have Some: "Diff prev cur = Some a" and ok: "counters_ok (sp_Counters prev)" "counters_ok (sp_Counters cur)" by simp_all
  have le: "counters_le (sp_Counters prev) (sp_Counters cur)" using Some Diff_usable [of prev cur] by auto
  have "pa_Seconds a = Seconds (time_sub (sp_At cur) (sp_At prev)) \<and> 0 < pa_Seconds a"
    using Some by (auto simp: Diff_def Let_def split: if_splits)
  then show "pa_Seconds a = Seconds (time_sub (sp_At cur) (sp_At prev)) \<and> 0 < pa_Seconds a
        \<and> pa_Commits a = pk_Commits (sp_Counters cur) - pk_Commits (sp_Counters prev)
        \<and> pa_Rollbacks a = pk_Rollbacks (sp_Counters cur) - pk_Rollbacks (sp_Counters prev)
        \<and> pa_Deadlocks a = pk_Deadlocks (sp_Counters cur) - pk_Deadlocks (sp_Counters prev)
        \<and> pa_TempFiles a = pk_TempFiles (sp_Counters cur) - pk_TempFiles (sp_Counters prev)
        \<and> pa_TempBytes a = pk_TempBytes (sp_Counters cur) - pk_TempBytes (sp_Counters prev)
        \<and> (let hit = pk_BlocksHit (sp_Counters cur) - pk_BlocksHit (sp_Counters prev);
               read = pk_BlocksRead (sp_Counters cur) - pk_BlocksRead (sp_Counters prev);
               share = CacheHitPercent (sp_Counters prev) (sp_Counters cur)
           in (share = None \<longleftrightarrow> hit = 0 \<and> read = 0)
              \<and> (\<forall>pct. share = Some pct \<longrightarrow> 0 \<le> pct \<and> pct \<le> 100 \<and> (hit = 0 \<longrightarrow> pct = 0) \<and> (read = 0 \<longrightarrow> pct = 100)))"
    using Diff_values [OF Some ok] CacheHitPercent_share [OF ok le refl refl] unfolding Let_def by blast
qed

theorem pg_activity_correct_witness:
  "let c = \<lparr>pk_Commits = 5, pk_Rollbacks = 0, pk_Deadlocks = 0, pk_TempFiles = 0, pk_TempBytes = 0, pk_BlocksHit = 10,
        pk_BlocksRead = 2, pk_StatsReset = Fin 0\<rparr>;
       prev = \<lparr>sp_Counters = c, sp_At = 0, sp_StartedAt = Fin 7\<rparr>;
       cur = \<lparr>sp_Counters = c\<lparr>pk_Commits := 9\<rparr>, sp_At = second, sp_StartedAt = Fin 7\<rparr>
   in \<exists>a. Diff prev cur = Some a \<and> pa_Commits a = 4"
proof -
  let ?c = "\<lparr>pk_Commits = 5, pk_Rollbacks = 0, pk_Deadlocks = 0, pk_TempFiles = 0, pk_TempBytes = 0, pk_BlocksHit = 10,
        pk_BlocksRead = 2, pk_StatsReset = Fin 0\<rparr>"
  let ?prev = "\<lparr>sp_Counters = ?c, sp_At = 0, sp_StartedAt = Fin 7\<rparr>"
  let ?cur = "\<lparr>sp_Counters = ?c\<lparr>pk_Commits := 9\<rparr>, sp_At = second, sp_StartedAt = Fin 7\<rparr>"
  have ok: "counters_ok (sp_Counters ?prev)" "counters_ok (sp_Counters ?cur)" by (simp_all add: counters_ok_def)
  have "Diff ?prev ?cur \<noteq> None" unfolding Diff_usable by (simp add: counters_le_def)
  then obtain a where a: "Diff ?prev ?cur = Some a" by auto
  then have "pa_Commits a = 4" using pg_activity_correct [of ?prev ?cur] ok by simp
  then show ?thesis using a by (simp add: Let_def)
qed

section \<open>The connection string\<close>

text \<open>How a keyword/value connection string is read from a quote on: a backslash keeps the next byte.\<close>

fun unquote :: "bytes \<Rightarrow> (bytes \<times> bytes) option" where
  "unquote [] = None"
| "unquote [c] = (if c = CHR 0x27 then Some ([], []) else None)"
| "unquote (c # d # s) =
     (if c = CHR 0x27 then Some ([], d # s)
      else if c = CHR 0x5C then map_option (map_prod (Cons d) id) (unquote s)
      else map_option (map_prod (Cons c) id) (unquote (d # s)))"

lemma ReplaceAll_byte: "ReplaceAll s [c] new = concat (map (\<lambda>x. if x = c then new else [x]) s)"
  by (induction s) (simp_all add: ReplaceAll.simps [of "_ # _"] HasPrefix_def)

lemma quote_escapes:
  "quote s = [CHR 0x27] @ concat (map (\<lambda>x. if x = CHR 0x5C \<or> x = CHR 0x27 then [CHR 0x5C, x] else [x]) s) @ [CHR 0x27]"
proof -
  have "concat (map (\<lambda>x. if x = CHR 0x27 then [CHR 0x5C, CHR 0x27] else [x])
      (concat (map (\<lambda>x. if x = CHR 0x5C then [CHR 0x5C, CHR 0x5C] else [x]) s)))
    = concat (map (\<lambda>x. if x = CHR 0x5C \<or> x = CHR 0x27 then [CHR 0x5C, x] else [x]) s)"
    by (induction s) auto
  then show ?thesis by (simp add: quote_def ReplaceAll_byte)
qed

lemma unquote_escaped:
  "unquote (concat (map (\<lambda>x. if x = CHR 0x5C \<or> x = CHR 0x27 then [CHR 0x5C, x] else [x]) s) @ CHR 0x27 # rest) = Some (s, rest)"
proof (induction s)
  case Nil
  then show ?case by (cases rest) auto
next
  case (Cons x s)
  obtain d t where dt: "concat (map (\<lambda>x. if x = CHR 0x5C \<or> x = CHR 0x27 then [CHR 0x5C, x] else [x]) s) @ CHR 0x27 # rest = d # t"
    by (cases "concat (map (\<lambda>x. if x = CHR 0x5C \<or> x = CHR 0x27 then [CHR 0x5C, x] else [x]) s) @ CHR 0x27 # rest") auto
  show ?case using Cons.IH by (auto simp: dt)
qed

text \<open>A quoted value is read back as it was, whatever bytes it has, and what follows it is left alone.\<close>

lemma unquote_quote: "unquote (tl (quote s) @ rest) = Some (s, rest)"
  using unquote_escaped [of s rest] by (simp add: quote_escapes)

end
