(* ===== verification/PgQueries.thy ===== *)
theory PgQueries
  imports PgMetrics
begin

text \<open>
  The SQL of \<^verbatim>\<open>src/db/postgres/read.go\<close>, character by character, and the check that every query is a
  single \<^verbatim>\<open>SELECT\<close> over statistics views and system catalogs that never touches the text of a statement.
\<close>

section \<open>The queries\<close>

text \<open>A raw string that starts on a new line, and a literal of SQL.\<close>

definition sql_text :: "bytes list \<Rightarrow> bytes" where
  "sql_text ls = concat (map ((#) (CHR 0x0A)) ls)"

definition lit :: "bytes \<Rightarrow> bytes" where
  "lit w = CHR 0x27 # w @ [CHR 0x27]"

definition qServer :: bytes where
  "qServer = sql_text
     [''SELECT extract(epoch FROM pg_postmaster_start_time())::float8,'',
      ''       pg_is_in_recovery()'']"

definition qMaxConnections :: bytes where
  "qMaxConnections = ''SELECT current_setting('' @ lit ''max_connections'' @ '')::int''"

definition qConnections :: bytes where
  "qConnections = sql_text
     [''SELECT coalesce(state, '' @ lit ''unknown'' @ ''), count(*)'',
      ''FROM pg_stat_activity'',
      ''WHERE backend_type = '' @ lit ''client backend'' @ '' AND pid <> pg_backend_pid()'',
      ''GROUP BY 1'']"

definition qLongRunning :: bytes where
  "qLongRunning = sql_text
     [''SELECT pid,'',
      ''       coalesce(datname, '' @ lit [] @ ''),'',
      ''       coalesce(usename, '' @ lit [] @ ''),'',
      ''       coalesce(application_name, '' @ lit [] @ ''),'',
      ''       coalesce(state, '' @ lit ''unknown'' @ ''),'',
      ''       CASE WHEN state = '' @ lit ''active'' @ '' THEN extract(epoch FROM now() - query_start)::float8 END,'',
      ''       extract(epoch FROM now() - xact_start)::float8'',
      ''FROM pg_stat_activity'',
      ''WHERE backend_type = '' @ lit ''client backend'',
      ''  AND pid <> pg_backend_pid()'',
      ''  AND ((state = '' @ lit ''active'' @ '' AND query_start < now() - interval '' @ lit ''1 minute'' @ '')'',
      ''       OR xact_start < now() - interval '' @ lit ''1 minute'' @ '')'',
      ''ORDER BY least(CASE WHEN state = '' @ lit ''active'' @ '' THEN query_start END, xact_start)'',
      ''LIMIT 10'']"

definition qBlocked :: bytes where
  "qBlocked = sql_text
     [''SELECT pid, datname, usename, application_name, query_seconds, blocked_by'',
      ''FROM ('',
      ''  SELECT pid,'',
      ''         coalesce(datname, '' @ lit [] @ '') AS datname,'',
      ''         coalesce(usename, '' @ lit [] @ '') AS usename,'',
      ''         coalesce(application_name, '' @ lit [] @ '') AS application_name,'',
      ''         extract(epoch FROM now() - query_start)::float8 AS query_seconds,'',
      ''         pg_blocking_pids(pid) AS blocked_by'',
      ''  FROM pg_stat_activity'',
      ''  WHERE wait_event_type = '' @ lit ''Lock'' @ '' AND pid <> pg_backend_pid()'',
      '') waiting'',
      ''WHERE cardinality(blocked_by) > 0'',
      ''ORDER BY query_seconds DESC NULLS LAST'',
      ''LIMIT 10'']"

definition qReplicas :: bytes where
  "qReplicas = sql_text
     [''SELECT coalesce(application_name, '' @ lit [] @ ''),'',
      ''       host(client_addr),'',
      ''       coalesce(state, '' @ lit ''unknown'' @ ''),'',
      ''       extract(epoch FROM replay_lag)::float8,'',
      ''       pg_wal_lsn_diff('',
      ''         CASE WHEN pg_is_in_recovery() THEN pg_last_wal_replay_lsn() ELSE pg_current_wal_lsn() END,'',
      ''         replay_lsn)::bigint'',
      ''FROM pg_stat_replication'',
      ''ORDER BY application_name, client_addr'']"

definition qReplay :: bytes where
  "qReplay = sql_text
     [''SELECT extract(epoch FROM now() - pg_last_xact_replay_timestamp())::float8,'',
      ''       pg_wal_lsn_diff(pg_last_wal_receive_lsn(), pg_last_wal_replay_lsn())::bigint'']"

definition qDatabases :: bytes where
  "qDatabases = sql_text
     [''SELECT d.datname,'',
      ''       age(d.datfrozenxid)::bigint,'',
      ''       d.datallowconn,'',
      ''       s.xact_commit,'',
      ''       s.xact_rollback,'',
      ''       s.deadlocks,'',
      ''       s.temp_files,'',
      ''       s.temp_bytes,'',
      ''       s.blks_hit,'',
      ''       s.blks_read,'',
      ''       extract(epoch FROM s.stats_reset)::float8'',
      ''FROM pg_database d'',
      ''LEFT JOIN pg_stat_database s ON s.datid = d.oid'',
      ''WHERE NOT d.datistemplate'',
      ''ORDER BY d.datname'']"

definition qSizes :: bytes where
  "qSizes = sql_text
     [''SELECT datname, pg_database_size(oid)'',
      ''FROM pg_database'',
      ''WHERE NOT datistemplate'']"

definition qLargestTables :: bytes where
  "qLargestTables = sql_text
     [''SELECT nspname, relname, total_bytes'',
      ''FROM ('',
      ''  SELECT n.nspname, c.relname, pg_total_relation_size(c.oid) AS total_bytes'',
      ''  FROM pg_class c'',
      ''  JOIN pg_namespace n ON n.oid = c.relnamespace'',
      ''  WHERE c.relkind IN ('' @ lit ''r'' @ '', '' @ lit ''m'' @ '')'',
      ''    AND n.nspname NOT IN ('' @ lit ''pg_catalog'' @ '', '' @ lit ''information_schema'' @ '')'',
      ''    AND n.nspname NOT LIKE '' @ lit (''pg'' @ [CHR 0x5C] @ ''_toast%''),
      ''    AND n.nspname NOT LIKE '' @ lit (''pg'' @ [CHR 0x5C] @ ''_temp%''),
      '') sized'',
      ''WHERE total_bytes IS NOT NULL'',
      ''ORDER BY total_bytes DESC'',
      ''LIMIT 10'']"

definition qDeadTuples :: bytes where
  "qDeadTuples = sql_text
     [''SELECT schemaname, relname, n_live_tup, n_dead_tup,'',
      ''       extract(epoch FROM last_autovacuum)::float8'',
      ''FROM pg_stat_user_tables'',
      ''WHERE n_dead_tup > 0'',
      ''ORDER BY n_dead_tup DESC'',
      ''LIMIT 10'']"

fun sql :: "query \<Rightarrow> bytes" where
  "sql QServer = qServer"
| "sql QMaxConnections = qMaxConnections"
| "sql QConnections = qConnections"
| "sql QLongRunning = qLongRunning"
| "sql QBlocked = qBlocked"
| "sql QReplicas = qReplicas"
| "sql QReplay = qReplay"
| "sql QDatabases = qDatabases"
| "sql QSizes = qSizes"
| "sql QLargestTables = qLargestTables"
| "sql QDeadTuples = qDeadTuples"

declare sql.simps [simp del]

section \<open>What a query may do\<close>

text \<open>
  The words of a query in lower case, its marks one by one, and \<^verbatim>\<open>'\<close> for a literal, whose text is left
  out. A word is made of letters, digits, underscores and dots; the other characters from \<open>64\<close> on are taken for
  letters. The first argument is the word being read.
\<close>

definition word_char :: "char \<Rightarrow> bool" where
  "word_char c \<longleftrightarrow>
     (case c of Char b0 b1 b2 b3 b4 b5 b6 b7 \<Rightarrow> b7 \<or> b6 \<or> b5 \<and> b4 \<and> \<not> (b3 \<and> (b1 \<or> b2))) \<or> c = CHR ''.''"

lemma word_char_code: "word_char c \<longleftrightarrow> 64 \<le> byte_nat c \<or> is_digit c \<or> c = CHR ''.''"
  by (cases c) (simp add: word_char_def is_digit_def in_range_def of_char_def)

definition lower :: "char \<Rightarrow> char" where
  "lower c = (case c of Char b0 b1 b2 b3 b4 b5 b6 b7 \<Rightarrow> if b6 \<and> \<not> b5 \<and> c \<noteq> CHR ''_'' then Char b0 b1 b2 b3 b4 True b6 b7 else c)"

definition end_word :: "bytes \<Rightarrow> bytes list" where
  "end_word w = (if w = [] then [] else [rev w])"

fun sql_tokens :: "bytes \<Rightarrow> bytes \<Rightarrow> bytes list" and skip_literal :: "bytes \<Rightarrow> bytes list" where
  "sql_tokens w [] = end_word w"
| "sql_tokens w (c # cs) =
     (if word_char c then sql_tokens (lower c # w) cs
      else if c = CHR 0x27 then end_word w @ [CHR 0x27] # skip_literal cs
      else if c = CHR '' '' \<or> c = CHR 0x0A then end_word w @ sql_tokens [] cs
      else end_word w @ [c] # sql_tokens [] cs)"
| "skip_literal [] = []"
| "skip_literal (c # cs) = (if c = CHR 0x27 then sql_tokens [] cs else skip_literal cs)"

text \<open>
  What stands after \<^verbatim>\<open>from\<close> or \<^verbatim>\<open>join\<close> is a statistics view or a system catalog, or a subquery, and one
  only; \<^verbatim>\<open>epoch from\<close> belongs to \<^verbatim>\<open>extract\<close>. No table is written or locked, no second statement follows,
  and the text of the statements of \<^verbatim>\<open>pg_stat_activity\<close> is not among the columns named.
\<close>

definition catalogs :: "bytes list" where
  "catalogs = [''pg_stat_activity'', ''pg_stat_replication'', ''pg_stat_database'', ''pg_stat_user_tables'',
               ''pg_database'', ''pg_class'', ''pg_namespace'']"

definition sql_functions :: "bytes list" where
  "sql_functions = [''extract'', ''coalesce'', ''count'', ''now'', ''least'', ''cardinality'', ''host'', ''age'', ''current_setting'',
     ''pg_postmaster_start_time'', ''pg_is_in_recovery'', ''pg_backend_pid'', ''pg_blocking_pids'', ''pg_wal_lsn_diff'',
     ''pg_last_wal_replay_lsn'', ''pg_current_wal_lsn'', ''pg_last_xact_replay_timestamp'', ''pg_last_wal_receive_lsn'',
     ''pg_database_size'', ''pg_total_relation_size'']"

fun sources_ok :: "bytes list \<Rightarrow> bool" where
  "sources_ok (a # b # c # d # e # ts) \<longleftrightarrow>
     ((b = ''from'' \<and> a \<noteq> ''epoch'') \<or> b = ''join''
        \<longrightarrow> (c = ''('' \<and> d = ''select'') \<or> (c \<in> set catalogs \<and> d \<noteq> '','' \<and> e \<noteq> '',''))
     \<and> sources_ok (b # c # d # e # ts)"
| "sources_ok _ = True"

fun calls_ok :: "bytes list \<Rightarrow> bool" where
  "calls_ok (a # b # ts) \<longleftrightarrow>
     (b = ''('' \<and> a \<noteq> [] \<and> word_char (hd a)
        \<longrightarrow> a \<in> set sql_functions \<or> a \<in> {''from'', ''in'', ''and''})
     \<and> calls_ok (b # ts)"
| "calls_ok _ = True"

definition catalog_read :: "bytes \<Rightarrow> bool" where
  "catalog_read q =
     (let ts = sql_tokens [] q
      in take 1 ts = [''select''] \<and> (\<forall>w \<in> {'';'', ''into'', ''for'', ''query'', ''union''}. w \<notin> set ts)
         \<and> sources_ok (ts @ [[], [], []]) \<and> calls_ok ts)"

lemma catalog_read_qLongRunning: "catalog_read qLongRunning"
  by code_simp

lemma catalog_read_qBlocked: "catalog_read qBlocked"
  by code_simp

lemma catalog_read_qReplicas: "catalog_read qReplicas"
  by code_simp

lemma catalog_read_qDatabases: "catalog_read qDatabases"
  by code_simp

lemma catalog_read_qLargestTables: "catalog_read qLargestTables"
  by code_simp

text \<open>Every query of the agent is a plain read of the catalogs.\<close>

lemma catalog_read_sql [simp]: "catalog_read (sql q)"
proof -
  have "catalog_read qServer" "catalog_read qMaxConnections" "catalog_read qConnections" "catalog_read qReplay"
    "catalog_read qSizes" "catalog_read qDeadTuples" by code_simp+
  then show ?thesis
    by (cases q) (simp_all only: sql.simps catalog_read_qLongRunning catalog_read_qBlocked catalog_read_qReplicas
      catalog_read_qDatabases catalog_read_qLargestTables)
qed

end
