(* ===== verification/PgEngine.thy ===== *)
theory PgEngine
  imports PgQueries Interfaces
begin

text \<open>
  \<^verbatim>\<open>src/db/postgres/engine.go\<close>: one round over the local Postgres, from the server-wide statistics to the
  tables of each database, with what is carried from round to round.

  What the driver and the server answer in a round is its input \<open>pg_env\<close>: whether the \<open>n\<close>-th connection
  attempt succeeds, what each query returns, and where the round's deadline falls. Every call to the
  driver is recorded in \<open>eg_calls\<close>, so that what the agent does to the database can be stated.
\<close>

record pg_env =
  pq_stamp :: bytes
  pq_now :: time
  pq_readAt :: time
  pq_connect :: "nat \<Rightarrow> pg_error option"
  pq_waitDone :: "nat \<Rightarrow> bool"
  pq_expired :: "bytes \<Rightarrow> bool"
  pq_server :: "pg_error + ServerRow"
  pq_maxConnections :: "pg_error + int"
  pq_connections :: "pg_error + StateCountRow list"
  pq_longRunning :: "pg_error + SessionRow list"
  pq_blocked :: "pg_error + BlockedRow list"
  pq_replicas :: "pg_error + ReplicaRow list"
  pq_replay :: "pg_error + ReplayRow"
  pq_databases :: "pg_error + DatabaseRow list"
  pq_sizes :: "pg_error + SizeRow list"
  pq_largest :: "bytes \<Rightarrow> pg_error + TableSizeRow list"
  pq_dead :: "bytes \<Rightarrow> pg_error + DeadTuplesRow list"

datatype pg_call = Open conn_config | Refused conn_config | Query query | Close

text \<open>
  The engine. \<open>eg_seen\<close> belongs to the round: the parts attempted in it, of which the code keeps the keys,
  each with whether it could be read. \<open>eg_attempts\<close> counts the round's connection attempts.
\<close>

record Engine =
  eg_serverID :: bytes
  eg_socketDir :: bytes
  eg_prev :: "bytes \<rightharpoonup> pg_Sample"
  eg_failing :: "bytes set"
  eg_log :: "(bytes \<times> bool) list"
  eg_seen :: "(bytes \<times> bool) list"
  eg_calls :: "pg_call list"
  eg_attempts :: nat

definition maintenanceDB :: bytes where
  "maintenanceDB = ''postgres''"

definition errNoConnections :: bytes where
  "errNoConnections = ''database does not allow connections''"

definition connectAttempts :: nat where
  "connectAttempts = 3"

definition engine_New :: "bytes \<Rightarrow> bytes \<Rightarrow> Engine" where
  "engine_New serverID socketDir =
     \<lparr>eg_serverID = serverID, eg_socketDir = socketDir, eg_prev = Map.empty, eg_failing = {}, eg_log = [],
      eg_seen = [], eg_calls = [], eg_attempts = 0\<rparr>"

section \<open>The round's bookkeeping\<close>

definition note_part :: "bytes \<Rightarrow> bool \<Rightarrow> Engine \<Rightarrow> Engine" where
  "note_part key ok s =
     (case edge_report key ok (eg_failing s) of
        (failing, ls) \<Rightarrow> s\<lparr>eg_failing := failing, eg_log := eg_log s @ ls\<rparr>)"

definition round_ok ::
  "pg_env \<Rightarrow> errors option \<Rightarrow> bytes \<Rightarrow> bytes \<Rightarrow> pg_error option \<Rightarrow> Engine \<Rightarrow> Engine \<times> errors option \<times> bool" where
  "round_ok e errs part key err s =
     (let s = s\<lparr>eg_seen := eg_seen s @ [(key, err = None)]\<rparr>
      in case err of
           Some x \<Rightarrow>
             (note_part key False s,
              map_option (map_put part (if pq_expired e key then pg_errTimedOut else ErrorText x)) errs, False)
         | None \<Rightarrow> (note_part key True s, errs, True))"

definition prune :: "Engine \<Rightarrow> Engine" where
  "prune s = s\<lparr>eg_failing := eg_failing s \<inter> fst ` set (eg_seen s)\<rparr>"

definition call :: "pg_call \<Rightarrow> Engine \<Rightarrow> Engine" where
  "call c s = s\<lparr>eg_calls := eg_calls s @ [c]\<rparr>"

definition err_of :: "pg_error + 'a \<Rightarrow> pg_error option" where
  "err_of r = (case r of Inl x \<Rightarrow> Some x | Inr _ \<Rightarrow> None)"

lemma err_of_simps [simp]: "err_of (Inl x) = Some x" "err_of (Inr y) = None"
  by (simp_all add: err_of_def)

section \<open>Reading\<close>

text \<open>\<^verbatim>\<open>collect\<close> and the read functions of \<^verbatim>\<open>read.go\<close>: the query that is sent, and what the driver makes of the answer.\<close>

definition collect_rows :: "query \<Rightarrow> pg_error + 'a \<Rightarrow> Engine \<Rightarrow> Engine \<times> (pg_error + 'a)" where
  "collect_rows q r s = (call (Query q) s, r)"

definition ReadServer :: "pg_env \<Rightarrow> Engine \<Rightarrow> Engine \<times> (pg_error + ServerRow)" where
  "ReadServer e = collect_rows QServer (pq_server e)"

definition ReadMaxConnections :: "pg_env \<Rightarrow> Engine \<Rightarrow> Engine \<times> (pg_error + int)" where
  "ReadMaxConnections e = collect_rows QMaxConnections (pq_maxConnections e)"

definition ReadConnections :: "pg_env \<Rightarrow> Engine \<Rightarrow> Engine \<times> (pg_error + StateCountRow list)" where
  "ReadConnections e = collect_rows QConnections (pq_connections e)"

definition ReadLongRunning :: "pg_env \<Rightarrow> Engine \<Rightarrow> Engine \<times> (pg_error + SessionRow list)" where
  "ReadLongRunning e = collect_rows QLongRunning (pq_longRunning e)"

definition ReadBlocked :: "pg_env \<Rightarrow> Engine \<Rightarrow> Engine \<times> (pg_error + BlockedRow list)" where
  "ReadBlocked e = collect_rows QBlocked (pq_blocked e)"

definition ReadReplicas :: "pg_env \<Rightarrow> Engine \<Rightarrow> Engine \<times> (pg_error + ReplicaRow list)" where
  "ReadReplicas e = collect_rows QReplicas (pq_replicas e)"

definition ReadReplay :: "pg_env \<Rightarrow> Engine \<Rightarrow> Engine \<times> (pg_error + ReplayRow)" where
  "ReadReplay e = collect_rows QReplay (pq_replay e)"

definition ReadDatabases :: "pg_env \<Rightarrow> Engine \<Rightarrow> Engine \<times> (pg_error + DatabaseRow list)" where
  "ReadDatabases e = collect_rows QDatabases (pq_databases e)"

definition ReadSizes :: "pg_env \<Rightarrow> Engine \<Rightarrow> Engine \<times> (pg_error + SizeRow list)" where
  "ReadSizes e = collect_rows QSizes (pq_sizes e)"

definition ReadLargestTables :: "pg_env \<Rightarrow> bytes \<Rightarrow> Engine \<Rightarrow> Engine \<times> (pg_error + TableSizeRow list)" where
  "ReadLargestTables e database = collect_rows QLargestTables (pq_largest e database)"

definition ReadDeadTuples :: "pg_env \<Rightarrow> bytes \<Rightarrow> Engine \<Rightarrow> Engine \<times> (pg_error + DeadTuplesRow list)" where
  "ReadDeadTuples e database = collect_rows QDeadTuples (pq_dead e database)"

lemmas reads_def = ReadServer_def ReadMaxConnections_def ReadConnections_def ReadLongRunning_def ReadBlocked_def
  ReadReplicas_def ReadReplay_def ReadDatabases_def ReadSizes_def ReadLargestTables_def ReadDeadTuples_def

lemma collect_rows_simps [simp]: "collect_rows q r s = (call (Query q) s, r)"
  by (simp add: collect_rows_def)

section \<open>Connecting\<close>

fun connect_from :: "pg_env \<Rightarrow> bytes \<Rightarrow> nat \<Rightarrow> Engine \<Rightarrow> Engine \<times> pg_error option" where
  "connect_from e database left s =
     (let n = eg_attempts s; cfg = session_config (eg_socketDir s) database; s = s\<lparr>eg_attempts := Suc n\<rparr>
      in case pq_connect e n of
           None \<Rightarrow> (call (Open cfg) s, None)
         | Some err \<Rightarrow>
             (let s = call (Refused cfg) s
              in case left of 0 \<Rightarrow> (s, Some err)
                 | Suc left' \<Rightarrow>
                     if \<not> IsTooManyConnections err then (s, Some err)
                     else if pq_waitDone e n then (s, Some err)
                     else connect_from e database left' s))"

declare connect_from.simps [simp del]

definition connect :: "pg_env \<Rightarrow> bytes \<Rightarrow> Engine \<Rightarrow> Engine \<times> pg_error option" where
  "connect e database s = connect_from e database (connectAttempts - 1) s"

section \<open>The server-wide parts\<close>

text \<open>One part of the event: its failure goes into the event's errors under its own name.\<close>

definition event_ok :: "pg_env \<Rightarrow> bytes \<Rightarrow> pg_error option \<Rightarrow> Engine \<times> PostgresEvent \<Rightarrow> Engine \<times> PostgresEvent" where
  "event_ok e part err acc =
     (case acc of (s, event) \<Rightarrow>
        (case round_ok e (Some (pe_Errors event)) part part err s of
           (s, errs, ok) \<Rightarrow> (s, event\<lparr>pe_Errors := (case errs of None \<Rightarrow> [] | Some m \<Rightarrow> m)\<rparr>)))"

definition collect_server :: "pg_env \<Rightarrow> Engine \<times> PostgresEvent \<Rightarrow> Engine \<times> PostgresEvent" where
  "collect_server e acc =
     (case acc of (s, event) \<Rightarrow>
        (case ReadServer e s of
           (s, r) \<Rightarrow>
             (case event_ok e ''server'' (err_of r) (s, event) of
                (s, event) \<Rightarrow>
                  (case r of Inl _ \<Rightarrow> (s, event)
                   | Inr server \<Rightarrow>
                       (s, event\<lparr>pe_StartedAt := FormatEpoch (sv_StartedEpoch server),
                                  pe_UptimeSeconds := Some (pg_UptimeSeconds (sv_StartedEpoch server) (pq_now e)),
                                  pe_Role := (if sv_InRecovery server then ''replica'' else ''primary'')\<rparr>)))))"

lemma collect_server_alt:
  "collect_server e acc =
     (case event_ok e ''server'' (err_of (pq_server e)) (apfst (call (Query QServer)) acc) of
        (s, event) \<Rightarrow>
          (case pq_server e of Inl _ \<Rightarrow> (s, event)
           | Inr server \<Rightarrow>
               (s, event\<lparr>pe_StartedAt := FormatEpoch (sv_StartedEpoch server),
                          pe_UptimeSeconds := Some (pg_UptimeSeconds (sv_StartedEpoch server) (pq_now e)),
                          pe_Role := (if sv_InRecovery server then ''replica'' else ''primary'')\<rparr>)))"
  by (cases acc) (simp add: collect_server_def reads_def)

definition count_state :: "StateCountRow \<Rightarrow> PostgresConnections \<Rightarrow> PostgresConnections" where
  "count_state row c = c\<lparr>pc_ByState := map_put (sr_State row) (sr_Count row) (pc_ByState c), pc_Used := wrap_int64 (pc_Used c + sr_Count row)\<rparr>"

definition readConnections :: "pg_env \<Rightarrow> Engine \<Rightarrow> Engine \<times> (pg_error + PostgresConnections)" where
  "readConnections e s =
     (case ReadMaxConnections e s of
        (s, Inl err) \<Rightarrow> (s, Inl err)
      | (s, Inr maxConns) \<Rightarrow>
          (case ReadConnections e s of
             (s, Inl err) \<Rightarrow> (s, Inl err)
           | (s, Inr rows) \<Rightarrow> (s, Inr (fold count_state rows \<lparr>pc_Max = maxConns, pc_Used = 0, pc_ByState = []\<rparr>))))"

lemma readConnections_alt:
  "readConnections e s =
     (let s = call (Query QMaxConnections) s
      in case pq_maxConnections e of Inl err \<Rightarrow> (s, Inl err)
         | Inr maxConns \<Rightarrow>
             (let s = call (Query QConnections) s
              in case pq_connections e of Inl err \<Rightarrow> (s, Inl err)
                 | Inr rows \<Rightarrow> (s, Inr (fold count_state rows \<lparr>pc_Max = maxConns, pc_Used = 0, pc_ByState = []\<rparr>))))"
  by (simp add: readConnections_def reads_def Let_def split: sum.split)

definition collect_connections :: "pg_env \<Rightarrow> Engine \<times> PostgresEvent \<Rightarrow> Engine \<times> PostgresEvent" where
  "collect_connections e acc =
     (case acc of (s, event) \<Rightarrow>
        (case readConnections e s of
           (s, r) \<Rightarrow>
             (case event_ok e ''connections'' (err_of r) (s, event) of
                (s, event) \<Rightarrow> (case r of Inl _ \<Rightarrow> (s, event) | Inr c \<Rightarrow> (s, event\<lparr>pe_Connections := Some c\<rparr>)))))"

definition sessions :: "SessionRow list \<Rightarrow> PostgresSession list" where
  "sessions rows = map (\<lambda>s. \<lparr>ps_PID = sn_PID s, ps_Database = sn_Database s, ps_User = sn_User s,
     ps_Application = sn_Application s, ps_State = sn_State s, ps_QuerySeconds = sn_QuerySeconds s,
     ps_TransactionSeconds = sn_TransactionSeconds s\<rparr>) rows"

text \<open>\<^verbatim>\<open>Pids\<close> widens 32-bit integers; as integers it leaves them as they are.\<close>

definition Pids :: "int list \<Rightarrow> int list" where
  "Pids pids = map (\<lambda>p. p) pids"

definition blocked :: "BlockedRow list \<Rightarrow> PostgresBlocked list" where
  "blocked rows = map (\<lambda>b. \<lparr>pb_PID = bl_PID b, pb_Database = bl_Database b, pb_User = bl_User b,
     pb_Application = bl_Application b, pb_QuerySeconds = bl_QuerySeconds b, pb_BlockedBy = Pids (bl_BlockedBy b)\<rparr>) rows"

definition collect_longRunning :: "pg_env \<Rightarrow> Engine \<times> PostgresEvent \<Rightarrow> Engine \<times> PostgresEvent" where
  "collect_longRunning e acc =
     (case acc of (s, event) \<Rightarrow>
        (case ReadLongRunning e s of
           (s, r) \<Rightarrow>
             (case event_ok e ''longRunning'' (err_of r) (s, event) of
                (s, event) \<Rightarrow>
                  (case r of Inl _ \<Rightarrow> (s, event)
                   | Inr rows \<Rightarrow> (s, event\<lparr>pe_LongRunning := sessions rows\<rparr>)))))"

lemma collect_longRunning_alt:
  "collect_longRunning e acc =
     (case event_ok e ''longRunning'' (err_of (pq_longRunning e)) (apfst (call (Query QLongRunning)) acc) of
        (s, event) \<Rightarrow>
          (case pq_longRunning e of Inl _ \<Rightarrow> (s, event) | Inr rows \<Rightarrow> (s, event\<lparr>pe_LongRunning := sessions rows\<rparr>)))"
  by (cases acc) (simp add: collect_longRunning_def reads_def)

definition collect_blocked :: "pg_env \<Rightarrow> Engine \<times> PostgresEvent \<Rightarrow> Engine \<times> PostgresEvent" where
  "collect_blocked e acc =
     (case acc of (s, event) \<Rightarrow>
        (case ReadBlocked e s of
           (s, r) \<Rightarrow>
             (case event_ok e ''blocked'' (err_of r) (s, event) of
                (s, event) \<Rightarrow>
                  (case r of Inl _ \<Rightarrow> (s, event)
                   | Inr rows \<Rightarrow> (s, event\<lparr>pe_Blocked := blocked rows\<rparr>)))))"

lemma collect_blocked_alt:
  "collect_blocked e acc =
     (case event_ok e ''blocked'' (err_of (pq_blocked e)) (apfst (call (Query QBlocked)) acc) of
        (s, event) \<Rightarrow>
          (case pq_blocked e of Inl _ \<Rightarrow> (s, event) | Inr rows \<Rightarrow> (s, event\<lparr>pe_Blocked := blocked rows\<rparr>)))"
  by (cases acc) (simp add: collect_blocked_def reads_def)

definition to_replica :: "ReplicaRow \<Rightarrow> PostgresReplica" where
  "to_replica row = \<lparr>pr_Application = rp_Application row,
     pr_ClientAddr = (case rp_ClientAddr row of None \<Rightarrow> [] | Some a \<Rightarrow> a), pr_State = rp_State row,
     pr_ReplayLagSeconds = rp_ReplayLagSeconds row, pr_ReplayLagBytes = rp_ReplayLagBytes row\<rparr>"

definition replication_reads :: "pg_env \<Rightarrow> bool \<Rightarrow> Engine \<Rightarrow> Engine \<times> (pg_error + ReplicaRow list \<times> ReplayRow)" where
  "replication_reads e replica s =
     (case ReadReplicas e s of
        (s, Inl err) \<Rightarrow> (s, Inl err)
      | (s, Inr rows) \<Rightarrow>
          if replica
          then (case ReadReplay e s of (s, Inl err) \<Rightarrow> (s, Inl err) | (s, Inr replay) \<Rightarrow> (s, Inr (rows, replay)))
          else (s, Inr (rows, \<lparr>ry_DelaySeconds = None, ry_UnreplayedBytes = None\<rparr>)))"

lemma replication_reads_alt:
  "replication_reads e replica s =
     (let s = call (Query QReplicas) s
      in case pq_replicas e of Inl err \<Rightarrow> (s, Inl err)
         | Inr rows \<Rightarrow>
             if replica
             then (let s = call (Query QReplay) s
                   in case pq_replay e of Inl err \<Rightarrow> (s, Inl err) | Inr replay \<Rightarrow> (s, Inr (rows, replay)))
             else (s, Inr (rows, \<lparr>ry_DelaySeconds = None, ry_UnreplayedBytes = None\<rparr>)))"
  by (simp add: replication_reads_def reads_def Let_def split: sum.split)

definition readReplication :: "pg_env \<Rightarrow> bool \<Rightarrow> Engine \<times> PostgresEvent \<Rightarrow> Engine \<times> PostgresEvent" where
  "readReplication e replica acc =
     (case acc of (s, event) \<Rightarrow>
        (case replication_reads e replica s of
           (s, r) \<Rightarrow>
             (case event_ok e ''replication'' (err_of r) (s, event) of
                (s, event) \<Rightarrow>
                  (case r of Inl _ \<Rightarrow> (s, event)
                   | Inr (rows, replay) \<Rightarrow>
                       (s, event\<lparr>pe_Replicas := pe_Replicas event @ map to_replica rows,
                                  pe_ReplayDelaySeconds := ry_DelaySeconds replay,
                                  pe_UnreplayedBytes := ry_UnreplayedBytes replay\<rparr>)))))"

section \<open>The databases\<close>

definition to_dead_tuples :: "DeadTuplesRow \<Rightarrow> PostgresDeadTuples" where
  "to_dead_tuples t = \<lparr>pd_Schema = dt_Schema t, pd_Table = dt_Table t, pd_LiveTuples = dt_Live t, pd_DeadTuples = dt_Dead t,
     pd_LastAutovacuum = (case dt_LastAutovacuumEpoch t of None \<Rightarrow> [] | Some ep \<Rightarrow> FormatEpoch ep)\<rparr>"

definition to_table_size :: "TableSizeRow \<Rightarrow> PostgresTableSize" where
  "to_table_size t = \<lparr>pt_Schema = ts_Schema t, pt_Table = ts_Table t, pt_TotalBytes = ts_Bytes t\<rparr>"

text \<open>One part of a database's entry: its failure goes into the entry's errors, and is logged under its own key.\<close>

definition database_ok ::
  "pg_env \<Rightarrow> bytes \<Rightarrow> bytes \<Rightarrow> pg_error option \<Rightarrow> Engine \<times> PostgresDatabase \<Rightarrow> Engine \<times> PostgresDatabase" where
  "database_ok e part key err acc =
     (case acc of (s, d) \<Rightarrow>
        (case round_ok e (Some (da_Errors d)) part (key @ part) err s of
           (s, errs, ok) \<Rightarrow> (s, d\<lparr>da_Errors := (case errs of None \<Rightarrow> [] | Some m \<Rightarrow> m)\<rparr>)))"

definition readTables :: "pg_env \<Rightarrow> DatabaseRow \<Rightarrow> Engine \<times> PostgresDatabase \<Rightarrow> Engine \<times> PostgresDatabase" where
  "readTables e row acc =
     (case acc of (s, d) \<Rightarrow>
        if \<not> dr_AllowConn row then (s, d\<lparr>da_Errors := map_put ''connect'' errNoConnections (da_Errors d)\<rparr>)
        else
          let key = ''db/'' @ dr_Name row @ ''/'';
              (s, err) = connect e (dr_Name row) s;
              (s, d) = database_ok e ''connect'' key err (s, d)
          in if err \<noteq> None then (s, d)
             else
               let (s, r) = ReadLargestTables e (dr_Name row) s;
                   (s, d) = database_ok e ''largestTables'' key (err_of r) (s, d);
                   d = (case r of Inl _ \<Rightarrow> d | Inr rows \<Rightarrow> d\<lparr>da_LargestTables := da_LargestTables d @ map to_table_size rows\<rparr>);
                   (s, r) = ReadDeadTuples e (dr_Name row) s;
                   (s, d) = database_ok e ''deadTuples'' key (err_of r) (s, d);
                   d = (case r of Inl _ \<Rightarrow> d | Inr rows \<Rightarrow> d\<lparr>da_DeadTuples := da_DeadTuples d @ map to_dead_tuples rows\<rparr>)
               in (call Close s, d))"

text \<open>The activity of a database between its previous sample and this one.\<close>

definition with_activity :: "pg_Sample option \<Rightarrow> pg_Sample \<Rightarrow> PostgresDatabase \<Rightarrow> PostgresDatabase" where
  "with_activity prev cur d =
     (case prev of None \<Rightarrow> d
      | Some prev \<Rightarrow>
          (case Diff prev cur of None \<Rightarrow> d
           | Some a \<Rightarrow>
               (let d = d\<lparr>da_Activity := Some a\<rparr>
                in case CacheHitPercent (sp_Counters prev) (sp_Counters cur) of None \<Rightarrow> d
                   | Some pct \<Rightarrow> d\<lparr>da_CacheHitPercent := Some pct\<rparr>)))"

definition row_sample :: "pg_env \<Rightarrow> f64 option \<Rightarrow> DatabaseRow \<Rightarrow> pg_Sample option" where
  "row_sample e started row =
     (case (ParseCounters row, started) of
        (Some counters, Some st) \<Rightarrow> Some \<lparr>sp_Counters = counters, sp_At = pq_readAt e, sp_StartedAt = st\<rparr>
      | _ \<Rightarrow> None)"

definition database_entry :: "pg_env \<Rightarrow> (bytes \<Rightarrow> int option) \<Rightarrow> f64 option \<Rightarrow> (bytes \<rightharpoonup> pg_Sample) \<Rightarrow> DatabaseRow \<Rightarrow> PostgresDatabase" where
  "database_entry e sizes started prevs row =
     (let d = \<lparr>da_Name = dr_Name row, da_SizeBytes = sizes (dr_Name row), da_XIDAge = dr_XIDAge row,
               da_CacheHitPercent = None, da_Activity = None, da_LargestTables = [], da_DeadTuples = [], da_Errors = []\<rparr>
      in case row_sample e started row of None \<Rightarrow> d | Some cur \<Rightarrow> with_activity (prevs (dr_Name row)) cur d)"

fun database_loop ::
  "pg_env \<Rightarrow> (bytes \<Rightarrow> int option) \<Rightarrow> f64 option \<Rightarrow> DatabaseRow list \<Rightarrow> (bytes \<rightharpoonup> pg_Sample) \<Rightarrow> Engine
    \<Rightarrow> Engine \<times> (bytes \<rightharpoonup> pg_Sample) \<times> PostgresDatabase list" where
  "database_loop e sizes started [] nxt s = (s, nxt, [])"
| "database_loop e sizes started (row # rows) nxt s =
     (let d = database_entry e sizes started (eg_prev s) row;
          nxt = (case row_sample e started row of None \<Rightarrow> nxt | Some cur \<Rightarrow> nxt(dr_Name row \<mapsto> cur));
          (s, d) = readTables e row (s, d);
          (s, nxt, out) = database_loop e sizes started rows nxt s
      in (s, nxt, d # out))"

definition databases ::
  "pg_env \<Rightarrow> (bytes \<Rightarrow> int option) \<Rightarrow> f64 option \<Rightarrow> DatabaseRow list \<Rightarrow> Engine \<Rightarrow> Engine \<times> PostgresDatabase list" where
  "databases e sizes started rows s =
     (case database_loop e sizes started rows Map.empty s of
        (s, nxt, out) \<Rightarrow> (if started \<noteq> None then s\<lparr>eg_prev := nxt\<rparr> else s, out))"

definition size_map :: "SizeRow list \<Rightarrow> bytes \<Rightarrow> int option" where
  "size_map rows name =
     (case map_of (rev (map (\<lambda>r. (sz_Name r, sz_Bytes r)) rows)) name of None \<Rightarrow> None | Some p \<Rightarrow> p)"

section \<open>The round\<close>

definition empty_event :: "pg_env \<Rightarrow> Engine \<Rightarrow> PostgresEvent" where
  "empty_event e s = \<lparr>pe_ServerID = eg_serverID s, pe_Timestamp = pq_stamp e, pe_Up = False, pe_Error = [], pe_StartedAt = [],
     pe_UptimeSeconds = None, pe_Role = [], pe_Connections = None, pe_LongRunning = [], pe_Blocked = [], pe_Replicas = [],
     pe_ReplayDelaySeconds = None, pe_UnreplayedBytes = None, pe_Databases = [], pe_Errors = []\<rparr>"

definition in_recovery :: "pg_env \<Rightarrow> bool" where
  "in_recovery e = (case pq_server e of Inl _ \<Rightarrow> False | Inr server \<Rightarrow> sv_InRecovery server)"

definition started_at :: "pg_env \<Rightarrow> f64 option" where
  "started_at e = (case pq_server e of Inl _ \<Rightarrow> None | Inr server \<Rightarrow> Some (sv_StartedEpoch server))"

definition collect_databases :: "pg_env \<Rightarrow> Engine \<times> PostgresEvent \<Rightarrow> Engine \<times> PostgresEvent" where
  "collect_databases e acc =
     (case acc of (s, event) \<Rightarrow>
        let (s, dbRows) = ReadDatabases e s;
            (s, event) = event_ok e ''databases'' (err_of dbRows) (s, event);
            (s, sizeRows) = ReadSizes e s;
            (s, event) = event_ok e ''sizes'' (err_of sizeRows) (s, event);
            sizes = (case sizeRows of Inl _ \<Rightarrow> (\<lambda>_. None) | Inr rows \<Rightarrow> size_map rows);
            s = call Close s
        in case dbRows of Inl _ \<Rightarrow> (s, event)
           | Inr rows \<Rightarrow> (case databases e sizes (started_at e) rows s of (s, out) \<Rightarrow> (s, event\<lparr>pe_Databases := out\<rparr>)))"

lemma collect_databases_alt:
  "collect_databases e acc =
     (let acc = event_ok e ''databases'' (err_of (pq_databases e)) (apfst (call (Query QDatabases)) acc);
          (s, event) = event_ok e ''sizes'' (err_of (pq_sizes e)) (apfst (call (Query QSizes)) acc);
          sizes = (case pq_sizes e of Inl _ \<Rightarrow> (\<lambda>_. None) | Inr rows \<Rightarrow> size_map rows);
          s = call Close s
      in case pq_databases e of Inl _ \<Rightarrow> (s, event)
         | Inr rows \<Rightarrow> (case databases e sizes (started_at e) rows s of (s, out) \<Rightarrow> (s, event\<lparr>pe_Databases := out\<rparr>)))"
proof -
  have "apfst f x = (f (fst x), snd x)" for f :: "Engine \<Rightarrow> Engine" and x :: "Engine \<times> PostgresEvent"
    by (cases x) simp
  then show ?thesis
    by (cases acc; cases "pq_databases e"; cases "pq_sizes e")
      (simp_all add: collect_databases_def reads_def Let_def split_beta)
qed

definition connected_round :: "pg_env \<Rightarrow> Engine \<times> PostgresEvent \<Rightarrow> Engine \<times> PostgresEvent" where
  "connected_round e acc =
     collect_databases e (readReplication e (in_recovery e) (collect_blocked e (collect_longRunning e
       (collect_connections e (collect_server e acc)))))"

definition pg_Collect :: "pg_env \<Rightarrow> Engine \<Rightarrow> Engine \<times> PostgresEvent" where
  "pg_Collect e s0 =
     (let s = s0\<lparr>eg_seen := [], eg_attempts := 0\<rparr>;
          event = empty_event e s;
          (s, err) = connect e maintenanceDB s;
          (s, _, ok) = round_ok e None ''connect'' ''connect'' err s;
          (s, event) = (case err of
             Some x \<Rightarrow> (s, event\<lparr>pe_Up := fst (ConnectFailure x), pe_Error := snd (ConnectFailure x)\<rparr>)
           | None \<Rightarrow> connected_round e (s, event\<lparr>pe_Up := True\<rparr>))
      in (prune s, event))"

section \<open>What each step touches\<close>

lemma call_simps [simp]:
  "eg_prev (call c s) = eg_prev s" "eg_failing (call c s) = eg_failing s" "eg_log (call c s) = eg_log s"
  "eg_seen (call c s) = eg_seen s" "eg_serverID (call c s) = eg_serverID s" "eg_socketDir (call c s) = eg_socketDir s"
  "eg_attempts (call c s) = eg_attempts s" "eg_calls (call c s) = eg_calls s @ [c]"
  by (simp_all add: call_def)

lemma note_part_simps [simp]:
  "eg_prev (note_part key ok s) = eg_prev s" "eg_failing (note_part key ok s) = fst (edge_report key ok (eg_failing s))"
  "eg_log (note_part key ok s) = eg_log s @ snd (edge_report key ok (eg_failing s))"
  "eg_seen (note_part key ok s) = eg_seen s" "eg_serverID (note_part key ok s) = eg_serverID s"
  "eg_socketDir (note_part key ok s) = eg_socketDir s" "eg_attempts (note_part key ok s) = eg_attempts s"
  "eg_calls (note_part key ok s) = eg_calls s"
  by (simp_all add: note_part_def split: prod.split)

definition note_ok :: "bytes \<Rightarrow> bool \<Rightarrow> Engine \<Rightarrow> Engine" where
  "note_ok key ok s = note_part key ok (s\<lparr>eg_seen := eg_seen s @ [(key, ok)]\<rparr>)"

lemma note_ok_simps [simp]:
  "eg_prev (note_ok key ok s) = eg_prev s" "eg_failing (note_ok key ok s) = fst (edge_report key ok (eg_failing s))"
  "eg_log (note_ok key ok s) = eg_log s @ snd (edge_report key ok (eg_failing s))"
  "eg_seen (note_ok key ok s) = eg_seen s @ [(key, ok)]" "eg_serverID (note_ok key ok s) = eg_serverID s"
  "eg_socketDir (note_ok key ok s) = eg_socketDir s" "eg_attempts (note_ok key ok s) = eg_attempts s"
  "eg_calls (note_ok key ok s) = eg_calls s"
  by (simp_all add: note_ok_def)

text \<open>The text published for a part that failed.\<close>

definition part_error :: "pg_env \<Rightarrow> bytes \<Rightarrow> pg_error \<Rightarrow> bytes" where
  "part_error e key x = (if pq_expired e key then pg_errTimedOut else ErrorText x)"

definition put_error :: "pg_env \<Rightarrow> bytes \<Rightarrow> bytes \<Rightarrow> pg_error option \<Rightarrow> errors \<Rightarrow> errors" where
  "put_error e part key err m = (case err of None \<Rightarrow> m | Some x \<Rightarrow> map_put part (part_error e key x) m)"

lemma round_ok_eq:
  "round_ok e errs part key err s = (note_ok key (err = None) s, map_option (put_error e part key err) errs, err = None)"
  by (cases err; cases errs) (simp_all add: round_ok_def note_ok_def put_error_def part_error_def)

lemma event_ok_eq:
  "event_ok e part err (s, event) =
     (note_ok part (err = None) s, event\<lparr>pe_Errors := put_error e part part err (pe_Errors event)\<rparr>)"
  by (simp add: event_ok_def round_ok_eq)

lemma database_ok_eq:
  "database_ok e part key err (s, d) =
     (note_ok (key @ part) (err = None) s, d\<lparr>da_Errors := put_error e part (key @ part) err (da_Errors d)\<rparr>)"
  by (simp add: database_ok_def round_ok_eq)

lemmas ok_eqs = round_ok_eq event_ok_eq database_ok_eq

section \<open>Sessions\<close>

text \<open>
  What the driver may be asked to do: open a session only while none is open, and only a read-only one
  with its timeouts set; query only the open session, with a plain read of the catalogs, the
  server-wide ones only in the maintenance database; close it. The state is the database of the open session, the outer \<open>None\<close> a violation.
\<close>

definition read_only_session :: "conn_config \<Rightarrow> bool" where
  "read_only_session c \<longleftrightarrow> map_of (cc_RuntimeParams c) ''default_transaction_read_only'' = Some ''on''
     \<and> map_of (cc_RuntimeParams c) ''statement_timeout'' = Some ''5s''
     \<and> map_of (cc_RuntimeParams c) ''lock_timeout'' = Some ''1s''"

definition table_query :: "query \<Rightarrow> bool" where
  "table_query q \<longleftrightarrow> q = QLargestTables \<or> q = QDeadTuples"

fun session_step :: "bytes option \<Rightarrow> pg_call \<Rightarrow> bytes option option" where
  "session_step None (Open c) = (if read_only_session c then Some (Some (cc_Database c)) else None)"
| "session_step None (Refused c) = Some None"
| "session_step (Some db) (Query q) = (if catalog_read (sql q) \<and> (table_query q \<or> db = maintenanceDB) then Some (Some db) else None)"
| "session_step (Some db) Close = Some None"
| "session_step _ _ = None"

fun session_steps :: "bytes option \<Rightarrow> pg_call list \<Rightarrow> bytes option option" where
  "session_steps st [] = Some st"
| "session_steps st (c # cs) = (case session_step st c of None \<Rightarrow> None | Some st' \<Rightarrow> session_steps st' cs)"

lemma session_steps_append:
  "session_steps st (xs @ ys) = (case session_steps st xs of None \<Rightarrow> None | Some st' \<Rightarrow> session_steps st' ys)"
  by (induction st xs rule: session_steps.induct) (auto split: option.split)

definition session_run :: "bytes option \<Rightarrow> Engine \<Rightarrow> bytes option \<Rightarrow> Engine \<Rightarrow> bool" where
  "session_run st s st' s' \<longleftrightarrow> (\<exists>cs. eg_calls s' = eg_calls s @ cs \<and> session_steps st cs = Some st')"

lemma session_run_refl: "eg_calls s' = eg_calls s \<Longrightarrow> session_run st s st s'"
  by (simp add: session_run_def)

lemma session_run_trans: "session_run st s st' s' \<Longrightarrow> session_run st' s' st'' s'' \<Longrightarrow> session_run st s st'' s''"
  unfolding session_run_def by (elim exE conjE, rule_tac x = "cs @ csa" in exI) (simp add: session_steps_append)

lemma session_run_call: "session_step st c = Some st' \<Longrightarrow> session_run st s st' (call c s)"
  by (simp add: session_run_def)

lemma session_run_note: "session_run st s st' s' \<Longrightarrow> session_run st s st' (note_ok key ok s')"
  by (simp add: session_run_def)

lemma session_config_read_only: "read_only_session (session_config dir db)"
  by (simp add: read_only_session_def session_config_def statementTimeout_def lockTimeout_def)

lemma session_run_Open: "session_run None s (Some db) (call (Open (session_config dir db)) s')"
  if "eg_calls s' = eg_calls s"
  using that session_config_read_only [of dir db]
  by (auto simp: session_run_def session_config_def intro: exI [of _ "[Open (session_config dir db)]"])

lemma connect_from_run:
  "session_run None s (if snd (connect_from e db left s) = None then Some db else None) (fst (connect_from e db left s))"
proof (induction e db left s rule: connect_from.induct)
  case (1 e db left s)
  let ?cfg = "session_config (eg_socketDir s) db" and ?s1 = "s\<lparr>eg_attempts := Suc (eg_attempts s)\<rparr>"
  let ?s2 = "call (Refused ?cfg) ?s1"
  have refused: "session_run None s None ?s2" by (simp add: session_run_def)
  show ?case
  proof (cases "pq_connect e (eg_attempts s)")
    case None
    have "session_run None s (Some db) (call (Open ?cfg) ?s1)" by (rule session_run_Open) simp
    then show ?thesis by (subst (1 2) connect_from.simps) (simp add: Let_def None)
  next
    case (Some err)
    show ?thesis
    proof (cases "\<exists>l. left = Suc l \<and> IsTooManyConnections err \<and> \<not> pq_waitDone e (eg_attempts s)")
      case True
      then obtain l where l: "left = Suc l" "IsTooManyConnections err" "\<not> pq_waitDone e (eg_attempts s)" by blast
      then have eq: "connect_from e db left s = connect_from e db l ?s2"
        by (subst connect_from.simps) (simp add: Let_def Some)
      have "session_run None ?s2 (if snd (connect_from e db l ?s2) = None then Some db else None) (fst (connect_from e db l ?s2))"
        using "1.IH" [OF refl refl refl Some refl l(1)] l by simp
      then show ?thesis unfolding eq by (rule session_run_trans [OF refused])
    next
      case False
      then have eq: "connect_from e db left s = (?s2, Some err)"
        by (subst connect_from.simps) (auto simp: Let_def Some split: nat.split)
      then show ?thesis using refused by simp
    qed
  qed
qed

lemma connect_run:
  "connect e db s = (s', err) \<Longrightarrow> session_run None s (if err = None then Some db else None) s'"
  using connect_from_run [of s e db "connectAttempts - 1"] by (simp add: connect_def)

definition db_key :: "DatabaseRow \<Rightarrow> bytes" where
  "db_key row = ''db/'' @ dr_Name row @ ''/''"

text \<open>The engine after the tables of one database, and the entry, on each of the three ways through.\<close>

lemma readTables_no_conn:
  "\<not> dr_AllowConn row \<Longrightarrow>
     readTables e row (s, d) = (s, d\<lparr>da_Errors := map_put ''connect'' errNoConnections (da_Errors d)\<rparr>)"
  by (simp add: readTables_def)

lemma readTables_refused:
  "dr_AllowConn row \<Longrightarrow> connect e (dr_Name row) s = (s1, Some x) \<Longrightarrow>
     readTables e row (s, d) =
       (note_ok (db_key row @ ''connect'') False s1,
        d\<lparr>da_Errors := put_error e ''connect'' (db_key row @ ''connect'') (Some x) (da_Errors d)\<rparr>)"
  by (simp add: readTables_def Let_def database_ok_eq db_key_def)

definition tables_engine :: "pg_env \<Rightarrow> DatabaseRow \<Rightarrow> Engine \<Rightarrow> Engine" where
  "tables_engine e row s1 =
     call Close (note_ok (db_key row @ ''deadTuples'') (err_of (pq_dead e (dr_Name row)) = None)
       (call (Query QDeadTuples) (note_ok (db_key row @ ''largestTables'') (err_of (pq_largest e (dr_Name row)) = None)
         (call (Query QLargestTables) (note_ok (db_key row @ ''connect'') True s1)))))"

lemma readTables_read:
  "dr_AllowConn row \<Longrightarrow> connect e (dr_Name row) s = (s1, None) \<Longrightarrow>
     readTables e row (s, d) =
       (tables_engine e row s1,
        d\<lparr>da_LargestTables := da_LargestTables d @ (case pq_largest e (dr_Name row) of Inl _ \<Rightarrow> [] | Inr rows \<Rightarrow> map to_table_size rows),
          da_DeadTuples := da_DeadTuples d @ (case pq_dead e (dr_Name row) of Inl _ \<Rightarrow> [] | Inr rows \<Rightarrow> map to_dead_tuples rows),
          da_Errors := put_error e ''deadTuples'' (db_key row @ ''deadTuples'') (err_of (pq_dead e (dr_Name row)))
            (put_error e ''largestTables'' (db_key row @ ''largestTables'') (err_of (pq_largest e (dr_Name row))) (da_Errors d))\<rparr>)"
  by (cases "pq_largest e (dr_Name row)"; cases "pq_dead e (dr_Name row)")
    (simp_all add: readTables_def reads_def Let_def database_ok_eq db_key_def tables_engine_def put_error_def)

lemma readTables_cases:
  obtains (no_conn) "\<not> dr_AllowConn row"
  | (refused) s1 x where "dr_AllowConn row" "connect e (dr_Name row) s = (s1, Some x)"
  | (read) s1 where "dr_AllowConn row" "connect e (dr_Name row) s = (s1, None)"
proof (cases "dr_AllowConn row")
  case True
  obtain s1 r where "connect e (dr_Name row) s = (s1, r)" by (cases "connect e (dr_Name row) s")
  then show thesis using True refused read by (cases r) auto
qed (rule no_conn)

lemma tables_engine_run: "session_run (Some db) s1 None (tables_engine e row s1)"
  unfolding session_run_def tables_engine_def
  by (rule exI [of _ "[Query QLargestTables, Query QDeadTuples, Close]"]) (simp add: table_query_def)

lemma readTables_run: "session_run None s None (fst (readTables e row (s, d)))"
proof (cases rule: readTables_cases [where row = row and e = e and s = s])
  case no_conn
  then show ?thesis by (simp add: readTables_no_conn session_run_refl)
next
  case (refused s1 x)
  then show ?thesis using session_run_note [OF connect_run [OF refused(2)]] by (simp add: readTables_refused)
next
  case (read s1)
  then show ?thesis using session_run_trans [OF connect_run [OF read(2)]] tables_engine_run [of "dr_Name row" s1 e row]
    by (simp add: readTables_read)
qed

lemma database_loop_run: "session_run None s None (fst (database_loop e sizes started rows nxt s))"
proof (induction rows arbitrary: nxt s)
  case (Cons row rows)
  show ?case using session_run_trans [OF readTables_run Cons.IH]
    by (simp add: Let_def split_beta)
qed (simp add: session_run_refl)

lemma databases_run: "session_run None s None (fst (databases e sizes started rows s))"
proof -
  have "eg_calls (fst (databases e sizes started rows s)) = eg_calls (fst (database_loop e sizes started rows Map.empty s))"
    by (simp add: databases_def split_beta)
  then show ?thesis using database_loop_run [of s e sizes started rows Map.empty] by (simp add: session_run_def)
qed

text \<open>The server-wide parts run in the session of the maintenance database, and the last of them closes it.\<close>

abbreviation in_session :: "Engine \<Rightarrow> Engine \<Rightarrow> bool" where
  "in_session s s' \<equiv> session_run (Some maintenanceDB) s (Some maintenanceDB) s'"

lemma session_run_Query: "in_session s s' \<Longrightarrow> in_session s (call (Query q) s')"
  by (erule session_run_trans) (simp add: session_run_call)

lemma event_ok_run: "in_session s (fst acc) \<Longrightarrow> in_session s (fst (event_ok e part err acc))"
  by (cases acc) (simp add: event_ok_eq session_run_note)

lemma collect_server_run: "in_session s (fst acc) \<Longrightarrow> in_session s (fst (collect_server e acc))"
  using event_ok_run [of s "apfst (call (Query QServer)) acc"]
  by (simp add: collect_server_alt split_beta session_run_Query split: sum.split)

lemma readConnections_run: "in_session s s' \<Longrightarrow> in_session s (fst (readConnections e s'))"
  by (simp add: readConnections_alt Let_def session_run_Query split: sum.split)

lemma collect_connections_run: "in_session s (fst acc) \<Longrightarrow> in_session s (fst (collect_connections e acc))"
  by (cases acc) (simp add: collect_connections_def split_beta event_ok_eq session_run_note readConnections_run split: sum.split)

lemma collect_lists_run:
  "in_session s (fst acc) \<Longrightarrow> in_session s (fst (collect_longRunning e acc))"
  "in_session s (fst acc) \<Longrightarrow> in_session s (fst (collect_blocked e acc))"
  using event_ok_run [of s "apfst (call (Query QLongRunning)) acc"] event_ok_run [of s "apfst (call (Query QBlocked)) acc"]
  by (simp_all add: collect_longRunning_alt collect_blocked_alt split_beta session_run_Query split: sum.split)

lemma readReplication_run: "in_session s (fst acc) \<Longrightarrow> in_session s (fst (readReplication e replica acc))"
proof -
  have "in_session s s' \<Longrightarrow> in_session s (fst (replication_reads e replica s'))" for s'
    by (simp add: replication_reads_alt Let_def session_run_Query split: sum.split)
  then show "in_session s (fst acc) \<Longrightarrow> ?thesis"
    by (cases acc) (simp add: readReplication_def split_beta event_ok_eq session_run_note split: sum.split)
qed

lemma collect_databases_run: "in_session s (fst acc) \<Longrightarrow> session_run (Some maintenanceDB) s None (fst (collect_databases e acc))"
proof -
  assume "in_session s (fst acc)"
  then have "in_session s (fst (event_ok e ''sizes'' (err_of (pq_sizes e)) (apfst (call (Query QSizes))
      (event_ok e ''databases'' (err_of (pq_databases e)) (apfst (call (Query QDatabases)) acc)))))"
    by (intro event_ok_run) (simp add: session_run_Query event_ok_run)
  then have closed: "session_run (Some maintenanceDB) s None (call Close (fst (event_ok e ''sizes'' (err_of (pq_sizes e)) (apfst (call (Query QSizes))
      (event_ok e ''databases'' (err_of (pq_databases e)) (apfst (call (Query QDatabases)) acc))))))"
    by (rule session_run_trans) (simp add: session_run_call)
  show ?thesis unfolding collect_databases_alt Let_def split_beta
    using closed session_run_trans [OF closed databases_run] by (cases "pq_databases e") simp_all
qed

lemma connected_round_run: "session_run (Some maintenanceDB) s None (fst (connected_round e (s, ev)))"
  unfolding connected_round_def
  by (intro collect_databases_run readReplication_run collect_lists_run collect_connections_run collect_server_run)
    (simp add: session_run_refl)

text \<open>
  C5. The agent holds at most one session on the database and closes every one it opens: whatever the
  driver answers, the calls of a round are a sequence of sessions one after the other, each opened
  read-only with its statement and lock timeouts, none open at the end; every query runs in an open
  session, the server-wide ones in the maintenance database only, and its text is one \<^verbatim>\<open>SELECT\<close> that names no
  relation but statistics views and system catalogs, calls only the functions listed, and never asks for the
  text of a statement.
\<close>

theorem pg_one_session_at_a_time:
  "\<exists>calls. eg_calls (fst (pg_Collect e s)) = eg_calls s @ calls \<and> session_steps None calls = Some None"
proof -
  let ?s0 = "s\<lparr>eg_seen := [], eg_attempts := 0\<rparr>"
  obtain s1 err where c: "connect e maintenanceDB ?s0 = (s1, err)" by fastforce
  have start: "session_run None ?s0 (if err = None then Some maintenanceDB else None) (note_ok ''connect'' (err = None) s1)"
    by (rule session_run_note [OF connect_run [OF c]])
  have "session_run None ?s0 None (fst (pg_Collect e s))"
  proof (cases err)
    case (Some x)
    then show ?thesis using start by (simp add: pg_Collect_def Let_def c round_ok_eq prune_def session_run_def)
  next
    case None
    have "session_run None ?s0 None (fst (connected_round e (note_ok ''connect'' True s1, (empty_event e ?s0)\<lparr>pe_Up := True\<rparr>)))"
      using session_run_trans [OF _ connected_round_run] start None by simp
    then show ?thesis using None by (simp add: pg_Collect_def Let_def c round_ok_eq prune_def session_run_def split_beta)
  qed
  then show ?thesis by (simp add: session_run_def)
qed

section \<open>The engine as a step relation\<close>

text \<open>Everything a round does to the engine, apart from the samples it stores.\<close>

inductive engine_step :: "Engine \<Rightarrow> Engine \<Rightarrow> bool" where
  called: "engine_step s (call c s)"
| noted: "engine_step s (note_ok key ok s)"
| attempted: "engine_step s (s\<lparr>eg_attempts := n\<rparr>)"

inductive_cases engine_stepE: "engine_step s s'"

abbreviation engine_steps :: "Engine \<Rightarrow> Engine \<Rightarrow> bool" where
  "engine_steps \<equiv> engine_step\<^sup>*\<^sup>*"

lemma steps_call: "engine_steps s s' \<Longrightarrow> engine_steps s (call c s')"
  by (erule rtranclp.rtrancl_into_rtrancl) (rule called)

lemma steps_note: "engine_steps s s' \<Longrightarrow> engine_steps s (note_ok key ok s')"
  by (erule rtranclp.rtrancl_into_rtrancl) (rule noted)

lemma steps_attempt: "engine_steps s s' \<Longrightarrow> engine_steps s (s'\<lparr>eg_attempts := n\<rparr>)"
  by (erule rtranclp.rtrancl_into_rtrancl) (rule attempted)

lemmas steps_intros = steps_call steps_note steps_attempt

lemma steps_connect_from: "engine_steps s0 s \<Longrightarrow> engine_steps s0 (fst (connect_from e db left s))"
proof (induction e db left s rule: connect_from.induct)
  case (1 e db left s)
  then show ?case
    by (subst connect_from.simps) (auto simp: Let_def steps_intros split: option.split nat.split)
qed

lemma steps_connect: "connect e db s = (s', err) \<Longrightarrow> engine_steps s0 s \<Longrightarrow> engine_steps s0 s'"
  using steps_connect_from [of s0 s e db "connectAttempts - 1"] by (simp add: connect_def)

lemma steps_readTables: "engine_steps s0 s \<Longrightarrow> engine_steps s0 (fst (readTables e row (s, d)))"
  by (cases rule: readTables_cases [where row = row and e = e and s = s])
    (auto simp: readTables_no_conn readTables_refused readTables_read tables_engine_def
      intro!: steps_intros intro: steps_connect)

lemma steps_database_loop: "engine_steps s0 s \<Longrightarrow> engine_steps s0 (fst (database_loop e sizes started rows nxt s))"
  by (induction rows arbitrary: nxt s) (simp_all add: Let_def split_beta steps_readTables)

lemma steps_event_ok: "engine_steps s0 (fst acc) \<Longrightarrow> engine_steps s0 (fst (event_ok e part err acc))"
  by (cases acc) (simp add: event_ok_eq steps_note)

lemma steps_server_parts:
  assumes "engine_steps s0 (fst acc)"
  shows "engine_steps s0 (fst (collect_server e acc))" "engine_steps s0 (fst (collect_connections e acc))"
    "engine_steps s0 (fst (collect_longRunning e acc))" "engine_steps s0 (fst (collect_blocked e acc))"
    "engine_steps s0 (fst (readReplication e replica acc))"
proof -
  have q: "engine_steps s0 (fst (apfst (call c) acc))" for c using assms by (simp add: steps_call)
  show "engine_steps s0 (fst (collect_server e acc))" "engine_steps s0 (fst (collect_longRunning e acc))"
    "engine_steps s0 (fst (collect_blocked e acc))"
    using steps_event_ok [OF q]
    by (simp_all add: collect_server_alt collect_longRunning_alt collect_blocked_alt split_beta split: sum.split)
  have "engine_steps s0 (fst (readConnections e (fst acc)))" "engine_steps s0 (fst (replication_reads e replica (fst acc)))"
    using assms by (simp_all add: readConnections_alt replication_reads_alt Let_def steps_call split: sum.split)
  then show "engine_steps s0 (fst (collect_connections e acc))" "engine_steps s0 (fst (readReplication e replica acc))"
    by (simp_all add: collect_connections_def readReplication_def split_beta event_ok_eq steps_note split: sum.split)
qed

text \<open>The engine just before the databases are stored, and the stored samples.\<close>

definition before_databases :: "pg_env \<Rightarrow> Engine \<times> PostgresEvent \<Rightarrow> Engine \<times> PostgresEvent" where
  "before_databases e acc =
     apfst (call Close) (event_ok e ''sizes'' (err_of (pq_sizes e)) (apfst (call (Query QSizes))
       (event_ok e ''databases'' (err_of (pq_databases e)) (apfst (call (Query QDatabases)) acc))))"

definition sizes_of :: "pg_env \<Rightarrow> bytes \<Rightarrow> int option" where
  "sizes_of e = (case pq_sizes e of Inl _ \<Rightarrow> (\<lambda>_. None) | Inr rows \<Rightarrow> size_map rows)"

lemma collect_databases_eq:
  "collect_databases e acc =
     (let (s, event) = before_databases e acc
      in case pq_databases e of Inl _ \<Rightarrow> (s, event)
         | Inr rows \<Rightarrow> (fst (databases e (sizes_of e) (started_at e) rows s),
                         event\<lparr>pe_Databases := snd (databases e (sizes_of e) (started_at e) rows s)\<rparr>))"
  by (simp add: collect_databases_alt before_databases_def sizes_of_def Let_def split_beta split: sum.split)

lemma steps_before_databases: "engine_steps s0 (fst acc) \<Longrightarrow> engine_steps s0 (fst (before_databases e acc))"
  unfolding before_databases_def fst_apfst by (intro steps_call steps_event_ok) (simp add: steps_call steps_event_ok)

definition before_round :: "pg_env \<Rightarrow> Engine \<times> PostgresEvent \<Rightarrow> Engine \<times> PostgresEvent" where
  "before_round e acc =
     before_databases e (readReplication e (in_recovery e) (collect_blocked e (collect_longRunning e
       (collect_connections e (collect_server e acc)))))"

lemma connected_round_eq:
  "connected_round e acc =
     (let (s, event) = before_round e acc
      in case pq_databases e of Inl _ \<Rightarrow> (s, event)
         | Inr rows \<Rightarrow> (fst (databases e (sizes_of e) (started_at e) rows s),
                         event\<lparr>pe_Databases := snd (databases e (sizes_of e) (started_at e) rows s)\<rparr>))"
  unfolding connected_round_def collect_databases_eq before_round_def ..

lemma steps_before_round: "engine_steps s0 (fst acc) \<Longrightarrow> engine_steps s0 (fst (before_round e acc))"
  unfolding before_round_def by (intro steps_before_databases steps_server_parts)

section \<open>Failures of a round\<close>

context failure_log
begin

text \<open>What is failing after some reports is what the last report on it said, or what it was before.\<close>

lemma failing_outcomes:
  "failing (fst (reports report rs s)) k =
     (if outcomes_of k rs = [] then failing s k else \<not> last (outcomes_of k rs))"
proof (induction rs arbitrary: s)
  case (Cons r rs)
  obtain k' ok where r: "r = (k', ok)" by (cases r)
  show ?case unfolding r fst_reports_Cons Cons.IH by (cases "k' = k") (auto simp: failing_self failing_other)
qed simp

end

definition parts_logged :: "Engine \<Rightarrow> Engine \<Rightarrow> bool" where
  "parts_logged s0 s \<longleftrightarrow>
     (eg_failing s, eg_log s) = map_prod id ((@) (eg_log s0)) (reports edge_report (eg_seen s) (eg_failing s0))"

lemma parts_logged_step: "engine_step s s' \<Longrightarrow> parts_logged s0 s \<Longrightarrow> parts_logged s0 s'"
  by (erule engine_stepE) (auto simp: parts_logged_def reports_append split_beta prod_eq_iff)

lemma parts_logged_steps: "engine_steps s s' \<Longrightarrow> parts_logged s0 s \<Longrightarrow> parts_logged s0 s'"
  by (induction rule: rtranclp_induct) (auto intro: parts_logged_step)

lemma kept_step:
  "engine_step s s' \<Longrightarrow> eg_serverID s' = eg_serverID s \<and> eg_socketDir s' = eg_socketDir s \<and> eg_prev s' = eg_prev s"
  by (erule engine_stepE) auto

lemma kept_steps:
  "engine_steps s s' \<Longrightarrow> eg_serverID s' = eg_serverID s \<and> eg_socketDir s' = eg_socketDir s \<and> eg_prev s' = eg_prev s"
  by (induction rule: rtranclp_induct) (auto dest: kept_step)

lemma databases_fst:
  "fst (databases e sizes started rows s) =
     (let l = database_loop e sizes started rows Map.empty s
      in if started \<noteq> None then (fst l)\<lparr>eg_prev := fst (snd l)\<rparr> else fst l)"
  by (simp add: databases_def split_beta Let_def)

lemma parts_logged_prev: "parts_logged s0 s \<Longrightarrow> parts_logged s0 (s\<lparr>eg_prev := p\<rparr>)"
  by (simp add: parts_logged_def)

lemma parts_logged_round:
  assumes "parts_logged s0 s"
  shows "parts_logged s0 (fst (connected_round e (s, ev)))"
proof -
  let ?s = "fst (before_round e (s, ev))"
  have b: "parts_logged s0 ?s"
    by (rule parts_logged_steps [OF steps_before_round assms]) simp
  have "parts_logged s0 (fst (databases e (sizes_of e) (started_at e) rows ?s))" for rows
    unfolding databases_fst Let_def
    using parts_logged_steps [OF steps_database_loop [OF rtranclp.rtrancl_refl] b] by (simp add: parts_logged_prev)
  then show ?thesis using b by (simp add: connected_round_eq split_beta Let_def split: sum.split)
qed

text \<open>The engine at the end of a round, before the failures of parts not attempted in it are forgotten.\<close>

definition round_end :: "pg_env \<Rightarrow> Engine \<Rightarrow> Engine" where
  "round_end e s =
     (case connect e maintenanceDB (s\<lparr>eg_seen := [], eg_attempts := 0\<rparr>) of
        (s1, Some x) \<Rightarrow> note_ok ''connect'' False s1
      | (s1, None) \<Rightarrow> fst (connected_round e (note_ok ''connect'' True s1, (empty_event e s)\<lparr>pe_Up := True\<rparr>)))"

lemma empty_event_fresh: "empty_event e (s\<lparr>eg_seen := [], eg_attempts := 0\<rparr>) = empty_event e s"
  by (simp add: empty_event_def)

lemma pg_Collect_engine: "fst (pg_Collect e s) = prune (round_end e s)"
  by (simp add: pg_Collect_def round_end_def Let_def split_beta round_ok_eq empty_event_fresh split: option.split)

lemma parts_logged_end: "parts_logged s (round_end e s)"
proof -
  let ?s0 = "s\<lparr>eg_seen := [], eg_attempts := 0\<rparr>"
  obtain s1 err where c: "connect e maintenanceDB ?s0 = (s1, err)" by fastforce
  have "parts_logged s ?s0" by (simp add: parts_logged_def)
  then have one: "parts_logged s (note_ok ''connect'' ok s1)" for ok
    using parts_logged_steps [OF steps_note [OF steps_connect [OF c rtranclp.rtrancl_refl]]] by blast
  show ?thesis using one parts_logged_round [OF one] by (cases err) (simp_all add: round_end_def c)
qed

text \<open>
  C25. A failure of Postgres is logged when it starts and when it clears, part by part: of the parts
  attempted in a round, one that fails for the first time gives one line, one that is readable again
  gives one, and one that stays as it was gives none; after the round exactly the parts whose last
  attempt in it failed are held as failing, so that what was not attempted is logged afresh next time.
\<close>

theorem pg_failures_logged_on_edges:
  "let s' = fst (pg_Collect e s); attempts = outcomes_of part (eg_seen s')
   in (\<exists>ls. eg_log s' = eg_log s @ ls \<and> outcomes_of part ls = edges (part \<notin> eg_failing s) attempts)
      \<and> (part \<in> eg_failing s' \<longleftrightarrow> attempts \<noteq> [] \<and> \<not> last attempts)"
proof -
  let ?t = "round_end e s"
  have log: "eg_log ?t = eg_log s @ snd (reports edge_report (eg_seen ?t) (eg_failing s))"
    and fail: "eg_failing ?t = fst (reports edge_report (eg_seen ?t) (eg_failing s))"
    using parts_logged_end [of s e] by (simp_all add: parts_logged_def prod_eq_iff)
  have seen: "part \<in> fst ` set xs \<longleftrightarrow> outcomes_of part xs \<noteq> []" for xs :: "(bytes \<times> bool) list"
    by (force simp: outcomes_of_def filter_empty_conv)
  have "part \<in> eg_failing ?t \<longleftrightarrow> (if outcomes_of part (eg_seen ?t) = [] then part \<in> eg_failing s
      else \<not> last (outcomes_of part (eg_seen ?t)))"
    unfolding fail by (rule edge.failing_outcomes)
  moreover have "outcomes_of part (snd (reports edge_report (eg_seen ?t) (eg_failing s)))
      = edges (part \<notin> eg_failing s) (outcomes_of part (eg_seen ?t))"
    by (rule edge.log_is_edges)
  ultimately show ?thesis
    unfolding pg_Collect_engine Let_def using log by (simp add: prune_def seen)
qed

section \<open>What a round publishes\<close>

text \<open>The reads of the two parts that ask more than one query.\<close>

definition connection_reads :: "pg_env \<Rightarrow> pg_error + PostgresConnections" where
  "connection_reads e = snd (readConnections e (engine_New [] []))"

definition replica_reads :: "pg_env \<Rightarrow> pg_error + ReplicaRow list \<times> ReplayRow" where
  "replica_reads e = snd (replication_reads e (in_recovery e) (engine_New [] []))"

lemma reads_pure:
  "snd (readConnections e s) = connection_reads e"
  "snd (replication_reads e (in_recovery e) s) = replica_reads e"
  by (simp_all add: connection_reads_def replica_reads_def readConnections_alt replication_reads_alt Let_def split: sum.split)

lemma snd_event_ok: "snd (event_ok e part err acc) =
    (snd acc)\<lparr>pe_Errors := put_error e part part err (pe_Errors (snd acc))\<rparr>"
  by (cases acc) (simp add: event_ok_eq)

lemma map_of_put_error:
  "map_of (put_error e part key err m) =
     (case err of None \<Rightarrow> map_of m | Some x \<Rightarrow> (map_of m)(part \<mapsto> part_error e key x))"
  by (simp add: put_error_def split: option.split)

text \<open>How a part of the event failed, if it did.\<close>

definition part_failure :: "pg_env \<Rightarrow> bytes \<Rightarrow> pg_error option" where
  "part_failure e part =
     (if part = ''server'' then err_of (pq_server e) else if part = ''connections'' then err_of (connection_reads e)
      else if part = ''longRunning'' then err_of (pq_longRunning e) else if part = ''blocked'' then err_of (pq_blocked e)
      else if part = ''replication'' then err_of (replica_reads e) else if part = ''databases'' then err_of (pq_databases e)
      else if part = ''sizes'' then err_of (pq_sizes e) else None)"

definition round_errors :: "pg_env \<Rightarrow> errors" where
  "round_errors e =
     put_error e ''sizes'' ''sizes'' (err_of (pq_sizes e)) (put_error e ''databases'' ''databases'' (err_of (pq_databases e))
      (put_error e ''replication'' ''replication'' (err_of (replica_reads e)) (put_error e ''blocked'' ''blocked'' (err_of (pq_blocked e))
       (put_error e ''longRunning'' ''longRunning'' (err_of (pq_longRunning e)) (put_error e ''connections'' ''connections'' (err_of (connection_reads e))
        (put_error e ''server'' ''server'' (err_of (pq_server e)) []))))))"

text \<open>The server-wide part of the event, from the answers alone.\<close>

definition round_event :: "pg_env \<Rightarrow> Engine \<Rightarrow> PostgresEvent" where
  "round_event e s = (empty_event e s)
     \<lparr>pe_Up := True,
      pe_StartedAt := (case pq_server e of Inl _ \<Rightarrow> [] | Inr r \<Rightarrow> FormatEpoch (sv_StartedEpoch r)),
      pe_UptimeSeconds := (case pq_server e of Inl _ \<Rightarrow> None | Inr r \<Rightarrow> Some (pg_UptimeSeconds (sv_StartedEpoch r) (pq_now e))),
      pe_Role := (case pq_server e of Inl _ \<Rightarrow> [] | Inr r \<Rightarrow> if sv_InRecovery r then ''replica'' else ''primary''),
      pe_Connections := (case connection_reads e of Inl _ \<Rightarrow> None | Inr c \<Rightarrow> Some c),
      pe_LongRunning := (case pq_longRunning e of Inl _ \<Rightarrow> [] | Inr rows \<Rightarrow> sessions rows),
      pe_Blocked := (case pq_blocked e of Inl _ \<Rightarrow> [] | Inr rows \<Rightarrow> blocked rows),
      pe_Replicas := (case replica_reads e of Inl _ \<Rightarrow> [] | Inr (rows, _) \<Rightarrow> map to_replica rows),
      pe_ReplayDelaySeconds := (case replica_reads e of Inl _ \<Rightarrow> None | Inr (_, replay) \<Rightarrow> ry_DelaySeconds replay),
      pe_UnreplayedBytes := (case replica_reads e of Inl _ \<Rightarrow> None | Inr (_, replay) \<Rightarrow> ry_UnreplayedBytes replay),
      pe_Errors := round_errors e\<rparr>"

lemma snd_server_parts:
  "snd (collect_server e acc) = (snd acc)
     \<lparr>pe_Errors := put_error e ''server'' ''server'' (err_of (pq_server e)) (pe_Errors (snd acc)),
      pe_StartedAt := (case pq_server e of Inl _ \<Rightarrow> pe_StartedAt (snd acc) | Inr r \<Rightarrow> FormatEpoch (sv_StartedEpoch r)),
      pe_UptimeSeconds := (case pq_server e of Inl _ \<Rightarrow> pe_UptimeSeconds (snd acc)
        | Inr r \<Rightarrow> Some (pg_UptimeSeconds (sv_StartedEpoch r) (pq_now e))),
      pe_Role := (case pq_server e of Inl _ \<Rightarrow> pe_Role (snd acc) | Inr r \<Rightarrow> if sv_InRecovery r then ''replica'' else ''primary'')\<rparr>"
  "snd (collect_connections e acc) = (snd acc)
     \<lparr>pe_Errors := put_error e ''connections'' ''connections'' (err_of (connection_reads e)) (pe_Errors (snd acc)),
      pe_Connections := (case connection_reads e of Inl _ \<Rightarrow> pe_Connections (snd acc) | Inr c \<Rightarrow> Some c)\<rparr>"
  "snd (collect_longRunning e acc) = (snd acc)
     \<lparr>pe_Errors := put_error e ''longRunning'' ''longRunning'' (err_of (pq_longRunning e)) (pe_Errors (snd acc)),
      pe_LongRunning := (case pq_longRunning e of Inl _ \<Rightarrow> pe_LongRunning (snd acc) | Inr rows \<Rightarrow> sessions rows)\<rparr>"
  "snd (collect_blocked e acc) = (snd acc)
     \<lparr>pe_Errors := put_error e ''blocked'' ''blocked'' (err_of (pq_blocked e)) (pe_Errors (snd acc)),
      pe_Blocked := (case pq_blocked e of Inl _ \<Rightarrow> pe_Blocked (snd acc) | Inr rows \<Rightarrow> blocked rows)\<rparr>"
  by (simp_all add: collect_server_alt collect_longRunning_alt collect_blocked_alt collect_connections_def split_beta
      snd_event_ok reads_pure split: sum.split)

lemma snd_readReplication:
  "snd (readReplication e (in_recovery e) acc) = (snd acc)
     \<lparr>pe_Errors := put_error e ''replication'' ''replication'' (err_of (replica_reads e)) (pe_Errors (snd acc)),
      pe_Replicas := (case replica_reads e of Inl _ \<Rightarrow> pe_Replicas (snd acc) | Inr (rows, _) \<Rightarrow> pe_Replicas (snd acc) @ map to_replica rows),
      pe_ReplayDelaySeconds := (case replica_reads e of Inl _ \<Rightarrow> pe_ReplayDelaySeconds (snd acc) | Inr (_, replay) \<Rightarrow> ry_DelaySeconds replay),
      pe_UnreplayedBytes := (case replica_reads e of Inl _ \<Rightarrow> pe_UnreplayedBytes (snd acc) | Inr (_, replay) \<Rightarrow> ry_UnreplayedBytes replay)\<rparr>"
  by (simp add: readReplication_def split_beta snd_event_ok reads_pure split: sum.split)

lemma snd_before_databases:
  "snd (before_databases e acc) = (snd acc)\<lparr>pe_Errors := put_error e ''sizes'' ''sizes'' (err_of (pq_sizes e))
     (put_error e ''databases'' ''databases'' (err_of (pq_databases e)) (pe_Errors (snd acc)))\<rparr>"
  by (simp add: before_databases_def snd_event_ok)

lemma snd_before_round: "snd (before_round e (s1, (empty_event e s)\<lparr>pe_Up := True\<rparr>)) = round_event e s"
  unfolding before_round_def snd_before_databases snd_readReplication snd_server_parts round_event_def round_errors_def
  by (simp add: empty_event_def, intro conjI) (simp_all add: empty_event_def split: sum.split)

text \<open>Whether the round connects depends on the driver's answers alone.\<close>

lemma connect_from_pure:
  "eg_attempts s = eg_attempts s' \<Longrightarrow> snd (connect_from e db left s) = snd (connect_from e db left s')"
proof (induction left arbitrary: s s')
  case 0
  then show ?case by (subst (1 2) connect_from.simps) (simp add: Let_def split: option.split)
next
  case (Suc left)
  then show ?case by (subst (1 2) connect_from.simps) (simp add: Let_def split: option.split)
qed

definition main_error :: "pg_env \<Rightarrow> pg_error option" where
  "main_error e = snd (connect e maintenanceDB (engine_New [] []))"

lemma main_error_eq: "snd (connect e maintenanceDB (s\<lparr>eg_seen := [], eg_attempts := 0\<rparr>)) = main_error e"
  unfolding main_error_def connect_def by (rule connect_from_pure) (simp add: engine_New_def)

definition row_activity :: "pg_env \<Rightarrow> f64 option \<Rightarrow> (bytes \<rightharpoonup> pg_Sample) \<Rightarrow> DatabaseRow \<Rightarrow> PostgresActivity option" where
  "row_activity e started prevs row =
     (case (row_sample e started row, prevs (dr_Name row)) of (Some cur, Some prev) \<Rightarrow> Diff prev cur | _ \<Rightarrow> None)"

lemma database_entry_fields:
  "da_Name (database_entry e sizes started prevs row) = dr_Name row"
  "da_SizeBytes (database_entry e sizes started prevs row) = sizes (dr_Name row)"
  "da_Activity (database_entry e sizes started prevs row) = row_activity e started prevs row"
  by (simp_all add: database_entry_def with_activity_def row_activity_def Let_def split: option.split)

lemma readTables_keeps:
  "da_Name (snd (readTables e row (s, d))) = da_Name d" "da_Activity (snd (readTables e row (s, d))) = da_Activity d"
  "da_SizeBytes (snd (readTables e row (s, d))) = da_SizeBytes d"
  "eg_prev (fst (readTables e row (s, d))) = eg_prev s"
  using kept_steps [OF steps_readTables [OF rtranclp.rtrancl_refl, of s e row d]]
  by (cases rule: readTables_cases [where row = row and e = e and s = s];
      simp add: readTables_no_conn readTables_refused readTables_read)+

definition add_sample :: "pg_env \<Rightarrow> f64 option \<Rightarrow> DatabaseRow \<Rightarrow> (bytes \<rightharpoonup> pg_Sample) \<Rightarrow> (bytes \<rightharpoonup> pg_Sample)" where
  "add_sample e started row m = (case row_sample e started row of None \<Rightarrow> m | Some cur \<Rightarrow> m(dr_Name row \<mapsto> cur))"

lemma database_loop_out:
  "map da_Name (snd (snd (database_loop e sizes started rows nxt s))) = map dr_Name rows
   \<and> map da_SizeBytes (snd (snd (database_loop e sizes started rows nxt s))) = map (sizes \<circ> dr_Name) rows
   \<and> map da_Activity (snd (snd (database_loop e sizes started rows nxt s))) = map (row_activity e started (eg_prev s)) rows
   \<and> fst (snd (database_loop e sizes started rows nxt s)) = fold (add_sample e started) rows nxt
   \<and> eg_prev (fst (database_loop e sizes started rows nxt s)) = eg_prev s"
proof (induction rows arbitrary: nxt s)
  case (Cons row rows)
  show ?case
    by (simp add: Let_def split_beta Cons.IH readTables_keeps database_entry_fields add_sample_def)
qed simp

lemma databases_out:
  "map da_Name (snd (databases e sizes started rows s)) = map dr_Name rows"
  "map da_SizeBytes (snd (databases e sizes started rows s)) = map (sizes \<circ> dr_Name) rows"
  "map da_Activity (snd (databases e sizes started rows s)) = map (row_activity e started (eg_prev s)) rows"
  "eg_prev (fst (databases e sizes started rows s)) =
     (if started = None then eg_prev s else fold (add_sample e started) rows Map.empty)"
  using database_loop_out [of e sizes started rows Map.empty s] by (auto simp: databases_def split_beta)

text \<open>The event and the stored samples of a round, in terms of what it was given and of the previous samples.\<close>

definition connected_engine :: "pg_env \<Rightarrow> Engine \<Rightarrow> Engine" where
  "connected_engine e s =
     fst (before_round e (note_ok ''connect'' True (fst (connect e maintenanceDB (s\<lparr>eg_seen := [], eg_attempts := 0\<rparr>))),
       (empty_event e s)\<lparr>pe_Up := True\<rparr>))"

lemma connected_engine_kept: "eg_prev (connected_engine e s) = eg_prev s" "eg_serverID (connected_engine e s) = eg_serverID s"
proof -
  let ?s0 = "s\<lparr>eg_seen := [], eg_attempts := 0\<rparr>"
  have "engine_steps ?s0 (fst (connect e maintenanceDB ?s0))"
    using steps_connect [of e maintenanceDB ?s0 _ _ ?s0] by (metis prod.collapse rtranclp.rtrancl_refl)
  then have "engine_steps ?s0 (connected_engine e s)"
    unfolding connected_engine_def by (intro steps_before_round) (simp add: steps_note)
  from kept_steps [OF this] show "eg_prev (connected_engine e s) = eg_prev s" "eg_serverID (connected_engine e s) = eg_serverID s"
    by simp_all
qed

lemma pg_Collect_event:
  "snd (pg_Collect e s) =
     (case main_error e of
        Some x \<Rightarrow> (empty_event e s)\<lparr>pe_Up := fst (ConnectFailure x), pe_Error := snd (ConnectFailure x)\<rparr>
      | None \<Rightarrow> (round_event e s)\<lparr>pe_Databases := (case pq_databases e of Inl _ \<Rightarrow> []
          | Inr rows \<Rightarrow> snd (databases e (sizes_of e) (started_at e) rows (connected_engine e s)))\<rparr>)"
proof (cases "main_error e")
  case (Some x)
  then show ?thesis
    by (simp add: pg_Collect_def Let_def split_beta round_ok_eq main_error_eq empty_event_fresh)
next
  case None
  have "pe_Databases (round_event e s) = []" by (simp add: round_event_def empty_event_def)
  then have "(round_event e s)\<lparr>pe_Databases := []\<rparr> = round_event e s" by simp
  then show ?thesis using None
    by (simp add: pg_Collect_def Let_def split_beta round_ok_eq main_error_eq empty_event_fresh connected_round_eq
        snd_before_round connected_engine_def split: sum.split)
qed

lemma put_error_lookup:
  "map_of (put_error e part key err m) p =
     (if p = part \<and> err \<noteq> None then Some (part_error e key (the err)) else map_of m p)"
  by (cases err) (simp_all add: put_error_def)

lemma round_errors_lookup: "map_of (round_errors e) part = map_option (part_error e part) (part_failure e part)"
proof -
  have eq: "map_option f err = (if err \<noteq> None then Some (f (the err)) else None)" for f :: "pg_error \<Rightarrow> bytes" and err
    by (cases err) simp_all
  show ?thesis
  proof (cases "part \<in> {''server'', ''connections'', ''longRunning'', ''blocked'', ''replication'', ''databases'', ''sizes''}")
    case True
    then show ?thesis
      unfolding round_errors_def put_error_lookup part_failure_def eq by (elim insertE emptyE) (simp_all only:, simp_all)
  next
    case False
    then show ?thesis unfolding round_errors_def put_error_lookup part_failure_def by simp
  qed
qed

section \<open>Activity across rounds\<close>

text \<open>The samples a round stores, when it could connect and read both the databases and the start time.\<close>

definition round_samples :: "pg_env \<Rightarrow> (bytes \<rightharpoonup> pg_Sample) option" where
  "round_samples e =
     (case (main_error e, pq_databases e, started_at e) of
        (None, Inr rows, Some st) \<Rightarrow> Some (fold (add_sample e (Some st)) rows Map.empty)
      | _ \<Rightarrow> None)"

definition last_samples :: "pg_env list \<Rightarrow> (bytes \<rightharpoonup> pg_Sample)" where
  "last_samples es = fold (\<lambda>e m. case round_samples e of None \<Rightarrow> m | Some m' \<Rightarrow> m') es Map.empty"

lemma pg_Collect_prev:
  "eg_prev (fst (pg_Collect e s)) = (case round_samples e of None \<Rightarrow> eg_prev s | Some m \<Rightarrow> m)"
proof -
  obtain s1 err where c: "connect e maintenanceDB (s\<lparr>eg_seen := [], eg_attempts := 0\<rparr>) = (s1, err)" by fastforce
  have err: "err = main_error e" using main_error_eq [of e s] by (simp add: c)
  show ?thesis
  proof (cases err)
    case (Some x)
    have "engine_steps (s\<lparr>eg_seen := [], eg_attempts := 0\<rparr>) s1" by (rule steps_connect [OF c rtranclp.rtrancl_refl])
    from kept_steps [OF this] have "eg_prev s1 = eg_prev s" by simp
    moreover have "round_samples e = None" using Some err by (simp add: round_samples_def)
    ultimately show ?thesis using Some by (simp add: pg_Collect_engine prune_def round_end_def c)
  next
    case None
    have ce: "fst (before_round e (note_ok ''connect'' True s1, (empty_event e s)\<lparr>pe_Up := True\<rparr>)) = connected_engine e s"
      by (simp add: connected_engine_def c)
    have "eg_prev (fst (pg_Collect e s)) = eg_prev (fst (connected_round e (note_ok ''connect'' True s1, (empty_event e s)\<lparr>pe_Up := True\<rparr>)))"
      by (simp add: pg_Collect_engine prune_def round_end_def c None)
    also have "\<dots> = (case pq_databases e of Inl _ \<Rightarrow> eg_prev s
        | Inr rows \<Rightarrow> if started_at e = None then eg_prev s else fold (add_sample e (started_at e)) rows Map.empty)"
      unfolding connected_round_eq Let_def split_beta ce
      by (auto simp: databases_out connected_engine_kept split: sum.split)
    also have "\<dots> = (case round_samples e of None \<Rightarrow> eg_prev s | Some m \<Rightarrow> m)"
      using None err by (auto simp: round_samples_def split: sum.split option.split)
    finally show ?thesis .
  qed
qed

lemma rounds_prev: "eg_prev (fold (\<lambda>e s. fst (pg_Collect e s)) es s) = fold (\<lambda>e m. case round_samples e of None \<Rightarrow> m | Some m' \<Rightarrow> m') es (eg_prev s)"
  by (induction es arbitrary: s) (simp_all add: pg_Collect_prev)

text \<open>
  C26. Activity always spans two rounds that could be read in full: after any rounds, however they failed,
  the samples kept are those of the latest round that connected and read both the databases and the
  server's start time; and the activity of each database of the next event is the difference of its own
  sample there and its sample now, absent when it has no sample in either.
\<close>

theorem pg_activity_spans_last_good:
  "let s = fold (\<lambda>e s. fst (pg_Collect e s)) es (engine_New sid dir)
   in eg_prev s = last_samples es
      \<and> map da_Activity (pe_Databases (snd (pg_Collect e s))) =
          (if main_error e \<noteq> None then []
           else case pq_databases e of Inl _ \<Rightarrow> [] | Inr rows \<Rightarrow> map (row_activity e (started_at e) (last_samples es)) rows)"
proof -
  let ?s = "fold (\<lambda>e s. fst (pg_Collect e s)) es (engine_New sid dir)"
  have p: "eg_prev ?s = last_samples es" by (simp add: rounds_prev last_samples_def engine_New_def)
  moreover have "map da_Activity (pe_Databases (snd (pg_Collect e ?s))) =
      (if main_error e \<noteq> None then []
       else case pq_databases e of Inl _ \<Rightarrow> [] | Inr rows \<Rightarrow> map (row_activity e (started_at e) (last_samples es)) rows)"
    by (cases "main_error e"; cases "pq_databases e")
      (simp_all add: pg_Collect_event empty_event_def round_event_def databases_out connected_engine_kept p)
  ultimately show ?thesis unfolding Let_def by (rule conjI)
qed

text \<open>A connection that is refused for another reason than full slots is not tried again, and no round tries one more than three times.\<close>

lemma connect_from_attempts:
  "eg_attempts s < eg_attempts (fst (connect_from e db left s)) \<and> eg_attempts (fst (connect_from e db left s)) \<le> eg_attempts s + Suc left"
proof (induction left arbitrary: s)
  case 0
  show ?case by (subst (1 2) connect_from.simps) (simp add: Let_def split: option.split)
next
  case (Suc left)
  let ?s2 = "call (Refused (session_config (eg_socketDir s) db)) (s\<lparr>eg_attempts := Suc (eg_attempts s)\<rparr>)"
  show ?case using Suc.IH [of ?s2]
    by (subst (1 2) connect_from.simps) (auto simp: Let_def split: option.split)
qed

lemma connect_attempts:
  "eg_attempts s < eg_attempts (fst (connect e db s)) \<and> eg_attempts (fst (connect e db s)) \<le> eg_attempts s + connectAttempts"
  using connect_from_attempts [of s e db "connectAttempts - 1"] by (simp add: connect_def connectAttempts_def)

end
