(* ===== verification/DbCollector.thy ===== *)
theory DbCollector
  imports PgEngine RedisPublisher
begin

text \<open>
  \<^verbatim>\<open>src/db/collector.go\<close>: the schedule of a database engine. The Go interface \<^verbatim>\<open>Engine\<close> is the locale
  \<open>engine\<close>; what the collector gives any engine is proved in it, and the postgres engine is its
  interpretation.
\<close>

definition db_maxRound :: duration where
  "db_maxRound = 30 * second"

definition db_minRound :: duration where
  "db_minRound = second"

definition db_roundBudget :: "duration \<Rightarrow> duration" where
  "db_roundBudget interval = max db_minRound (min interval db_maxRound)"

record ('w, 'g) Db =
  db_channel :: bytes
  db_interval :: duration
  db_engine :: 'g
  db_world :: 'w

definition db_New :: "bytes \<Rightarrow> duration \<Rightarrow> 'g \<Rightarrow> 'w \<Rightarrow> ('w, 'g) Db" where
  "db_New channel interval eng w = \<lparr>db_channel = channel, db_interval = interval, db_engine = eng, db_world = w\<rparr>"

text \<open>What a round observes: the engine's own input, and whether the agent was being shut down after it.\<close>

record 'e db_env =
  db_round :: 'e
  db_shutdown :: bool

definition db_collect :: "('e \<Rightarrow> 'g \<Rightarrow> 'g \<times> 'v) \<Rightarrow> 'e db_env \<Rightarrow> ('w, 'g) Db \<Rightarrow> ('w, 'g) Db \<times> 'v" where
  "db_collect collect e c = (case collect (db_round e) (db_engine c) of (g, event) \<Rightarrow> (c\<lparr>db_engine := g\<rparr>, event))"

definition db_collectAndPublish ::
  "'w publish \<Rightarrow> ('e \<Rightarrow> 'g \<Rightarrow> 'g \<times> 'v) \<Rightarrow> ('v \<Rightarrow> json option) \<Rightarrow> 'e db_env \<Rightarrow> ('w, 'g) Db \<Rightarrow> ('w, 'g) Db" where
  "db_collectAndPublish pb collect marshal e c =
     (case db_collect collect e c of
        (c, event) \<Rightarrow>
          if db_shutdown e then c
          else case marshal event of None \<Rightarrow> c
            | Some payload \<Rightarrow> c\<lparr>db_world := fst (pb (db_world c) (db_channel c) [payload])\<rparr>)"

definition db_Run ::
  "'w publish \<Rightarrow> ('e \<Rightarrow> 'g \<Rightarrow> 'g \<times> 'v) \<Rightarrow> ('v \<Rightarrow> json option) \<Rightarrow> duration option \<Rightarrow> 'e db_env \<Rightarrow> 'e db_env
    \<Rightarrow> 'e db_env select list \<Rightarrow> ('w, 'g) Db \<Rightarrow> ('w, 'g) Db" where
  "db_Run pb collect marshal cancelled prime first es c =
     run_ticks cancelled (db_interval c) (db_collectAndPublish pb collect marshal) first es (fst (db_collect collect prime c))"

definition publishes :: "('e \<Rightarrow> bool) \<Rightarrow> 'e db_env \<Rightarrow> bool" where
  "publishes writable e \<longleftrightarrow> \<not> db_shutdown e \<and> writable (db_round e)"

section \<open>The interface of an engine\<close>

locale engine =
  fixes collect :: "'e \<Rightarrow> 'g \<Rightarrow> 'g \<times> 'v"
    and marshal :: "'v \<Rightarrow> json option"
    and serverID :: "'g \<Rightarrow> bytes"
    and writable :: "'e \<Rightarrow> bool"
  assumes serverID_kept: "serverID (fst (collect e g)) = serverID g"
    and event_serverId: "marshal (snd (collect e g)) = Some j \<Longrightarrow> obj_field j ''serverId'' = Some (JStr (serverID g))"
    and event_writable: "marshal (snd (collect e g)) \<noteq> None \<longleftrightarrow> writable e"
begin

lemma collect_publishes:
  assumes "publishes writable e"
  obtains j where "marshal (snd (collect (db_round e) (db_engine c))) = Some j"
    "obj_field j ''serverId'' = Some (JStr (serverID (db_engine c)))"
  using assms event_writable [of "db_round e" "db_engine c"] event_serverId [of "db_round e" "db_engine c"]
  by (auto simp: publishes_def)

end

sublocale engine \<subseteq> db_ticks: ticking "db_collectAndPublish PublishBatch collect marshal" "\<lambda>c. wire (db_world c)"
  "\<lambda>c. (db_channel c, serverID (db_engine c))" "publishes writable"
proof
  fix e and s :: "(redis, 'g) Db"
  show "\<exists>p. wire (db_world (db_collectAndPublish PublishBatch collect marshal e s)) = wire (db_world s) @ [p]
      \<and> belongs (db_channel s, serverID (db_engine s)) p" if "publishes writable e"
  proof -
    obtain j where j: "marshal (snd (collect (db_round e) (db_engine s))) = Some j"
      "obj_field j ''serverId'' = Some (JStr (serverID (db_engine s)))"
      using collect_publishes [OF \<open>publishes writable e\<close>] .
    have "\<not> db_shutdown e" using \<open>publishes writable e\<close> by (simp add: publishes_def)
    then show ?thesis using j
      by (intro exI [of _ "(db_channel s, j)"]) (simp add: db_collectAndPublish_def db_collect_def split_beta belongs_def)
  qed
  show "wire (db_world (db_collectAndPublish PublishBatch collect marshal e s)) = wire (db_world s)" if "\<not> publishes writable e"
    using that event_writable [of "db_round e" "db_engine s"]
    by (auto simp: db_collectAndPublish_def db_collect_def split_beta publishes_def split: option.split)
  show "(db_channel (db_collectAndPublish PublishBatch collect marshal e s), serverID (db_engine (db_collectAndPublish PublishBatch collect marshal e s)))
      = (db_channel s, serverID (db_engine s))"
    by (simp add: db_collectAndPublish_def db_collect_def split_beta serverID_kept split: option.split)
qed

section \<open>The postgres engine\<close>

text \<open>The answers of a round whose floats can all be written as JSON.\<close>

definition pg_writable :: "pg_env \<Rightarrow> bool" where
  "pg_writable e \<longleftrightarrow> main_error e \<noteq> None \<or> finite_event (round_event e (engine_New [] []))"

lemma finite_event_round:
  "finite_event ((round_event e s)\<lparr>pe_Databases := ds\<rparr>) = finite_event (round_event e (engine_New [] []))"
  by (simp add: finite_event_def round_event_def empty_event_def)

lemma pg_Collect_serverID: "eg_serverID (fst (pg_Collect e s)) = eg_serverID s"
proof -
  let ?s0 = "s\<lparr>eg_seen := [], eg_attempts := 0\<rparr>"
  obtain s1 err where c: "connect e maintenanceDB ?s0 = (s1, err)" by fastforce
  have one: "engine_steps ?s0 (note_ok ''connect'' ok s1)" for ok
    by (rule steps_note [OF steps_connect [OF c rtranclp.rtrancl_refl]])
  have two: "engine_steps ?s0 (fst (before_round e (note_ok ''connect'' True s1, ev)))" for ev
    by (rule steps_before_round) (simp add: one)
  have "eg_serverID (fst (databases e sizes started rows t)) = eg_serverID t" for sizes started rows t
    using kept_steps [OF steps_database_loop [OF rtranclp.rtrancl_refl]] by (simp add: databases_fst Let_def)
  then have "eg_serverID (fst (connected_round e (note_ok ''connect'' True s1, ev))) = eg_serverID s" for ev
    using kept_steps [OF two, of ev] by (simp add: connected_round_eq Let_def split_beta split: sum.split)
  then show ?thesis using kept_steps [OF one [of False]]
    by (cases err) (simp_all add: pg_Collect_engine prune_def round_end_def c)
qed

interpretation pg: engine pg_Collect PostgresEvent_json eg_serverID pg_writable
proof
  fix e and g :: Engine
  show "eg_serverID (fst (pg_Collect e g)) = eg_serverID g" by (rule pg_Collect_serverID)
  have "pe_ServerID (snd (pg_Collect e g)) = eg_serverID g"
    by (simp add: pg_Collect_event round_event_def empty_event_def split: option.split)
  then show "obj_field j ''serverId'' = Some (JStr (eg_serverID g))" if "PostgresEvent_json (snd (pg_Collect e g)) = Some j" for j
    using PostgresEvent_serverId [OF that] by simp
  have "finite_event ((empty_event e g)\<lparr>pe_Up := u, pe_Error := t\<rparr>)" for u t
    by (simp add: finite_event_def empty_event_def finite_opt_def)
  then show "PostgresEvent_json (snd (pg_Collect e g)) \<noteq> None \<longleftrightarrow> pg_writable e"
    by (simp add: PostgresEvent_json_None pg_Collect_event pg_writable_def finite_event_round split: option.split)
qed

text \<open>
  C28. The database collector publishes one event a tick, on its channel and with its server id, whatever
  Postgres does: none for the reading it takes at startup or for a round the shutdown cut short, and none
  only where a float of the database is infinite or not a number, which JSON cannot carry.
\<close>

theorem db_one_event_per_tick:
  "\<exists>ps. wire (db_world (db_Run PublishBatch pg_Collect PostgresEvent_json cancelled prime first es c)) = wire (db_world c) @ ps
     \<and> length ps = length (filter (publishes pg_writable) (run_fired cancelled (db_interval c) first es))
     \<and> list_all (belongs (db_channel c, eg_serverID (db_engine c))) ps"
  using pg.db_ticks.run_published [of cancelled "db_interval c" first es "fst (db_collect pg_Collect prime c)"]
  by (simp add: db_Run_def db_collect_def split_beta pg_Collect_serverID)

lemma db_roundBudget_bounds: "db_minRound \<le> db_roundBudget interval \<and> db_roundBudget interval \<le> db_maxRound
    \<and> (db_minRound \<le> interval \<longrightarrow> db_roundBudget interval \<le> interval)"
  by (auto simp: db_roundBudget_def db_minRound_def db_maxRound_def)

end
