(* ===== verification/PgPayloads.thy ===== *)
theory PgPayloads
  imports PgTypes Payloads DbCollector
begin

text \<open>
  The events of the database collector on the wire. The driver scans the answers of the server into Go
  values, so their integers fit 64 bits and their finite floats are \<open>float64\<close> values: \<open>pg_fits\<close>. What the engine
  computes from them stays in these types, so every event it publishes is typed.
\<close>

definition answer :: "('a \<Rightarrow> bool) \<Rightarrow> pg_error + 'a \<Rightarrow> bool" where
  "answer P r = (case r of Inl _ \<Rightarrow> True | Inr x \<Rightarrow> P x)"

definition pg_fits :: "pg_env \<Rightarrow> bool" where
  "pg_fits e \<longleftrightarrow> answer int64 (pq_maxConnections e)
     \<and> answer (list_all (\<lambda>r. int64 (sr_Count r))) (pq_connections e)
     \<and> answer (list_all (\<lambda>r. int64 (sn_PID r) \<and> f64_fits (sn_QuerySeconds r) \<and> f64_fits (sn_TransactionSeconds r))) (pq_longRunning e)
     \<and> answer (list_all (\<lambda>r. int64 (bl_PID r) \<and> f64_fits (bl_QuerySeconds r) \<and> list_all int64 (bl_BlockedBy r))) (pq_blocked e)
     \<and> answer (list_all (\<lambda>r. f64_fits (rp_ReplayLagSeconds r) \<and> opt_int64 (rp_ReplayLagBytes r))) (pq_replicas e)
     \<and> answer (\<lambda>r. f64_fits (ry_DelaySeconds r) \<and> opt_int64 (ry_UnreplayedBytes r)) (pq_replay e)
     \<and> answer (list_all (\<lambda>r. int64 (dr_XIDAge r))) (pq_databases e)
     \<and> answer (list_all (\<lambda>r. opt_int64 (sz_Bytes r))) (pq_sizes e)
     \<and> (\<forall>db. answer (list_all (\<lambda>r. int64 (ts_Bytes r))) (pq_largest e db)
           \<and> answer (list_all (\<lambda>r. int64 (dt_Live r) \<and> int64 (dt_Dead r))) (pq_dead e db))"

section \<open>What the engine computes\<close>

lemma wrap_int64_range: "int64 (wrap_int64 i)"
proof -
  have "0 \<le> (i + 2 ^ 63) mod 2 ^ 64" "(i + 2 ^ 63) mod 2 ^ 64 < (2 :: int) ^ 64" by simp_all
  then show ?thesis by (simp add: int64_def wrap_int64_def)
qed

lemma div_second: "0 \<le> d \<Longrightarrow> 0 \<le> d div second \<and> d div second \<le> d \<and> 0 \<le> d mod second \<and> d mod second \<le> d"
  by (simp add: pos_imp_zdiv_nonneg_iff zmod_le_nonneg_dividend)

lemma bounded_add: "bounded k p \<Longrightarrow> bounded k q \<Longrightarrow> bounded (Suc k) (p + q)"
  using abs_triangle_ineq [of p q] by (simp add: bounded_def)

lemma bounded_divide: "bounded k p \<Longrightarrow> 1 \<le> q \<Longrightarrow> bounded k (p / q)"
proof -
  assume p: "bounded k p" and q: "1 \<le> q"
  have "\<bar>p\<bar> / q \<le> \<bar>p\<bar> / 1" using q by (intro divide_left_mono) simp_all
  then show ?thesis using p q by (simp add: bounded_def)
qed

lemma seconds_of_float64: "0 < d \<Longrightarrow> d < 2 ^ 63 \<Longrightarrow> is_float64 (seconds_of d)"
proof -
  assume d: "0 < d" "d < 2 ^ 63"
  then have "int64 (d div second)" "int64 (d mod second)" using div_second [of d] by (simp_all add: int64_def)
  then have "bounded 63 (of_i64 (d div second))" "bounded 63 (fdiv (of_i64 (d mod second)) 1000000000)"
    by (auto simp: fdiv_eq intro!: rnd_bounded bounded_divide bounded_int64)
  from bounded_add [OF this] show ?thesis unfolding seconds_of_def fadd_def by (rule float64_rnd) simp
qed

lemma Diff_fits: "Diff prev cur = Some a \<Longrightarrow> activity_fits a"
proof -
  assume a: "Diff prev cur = Some a"
  let ?d = "time_sub (sp_At cur) (sp_At prev)"
  have s: "pa_Seconds a = Seconds ?d" "0 < Seconds ?d" using a by (auto simp: Diff_def Let_def split: if_splits)
  have "0 < ?d" "?d < 2 ^ 63" using s(2) by (simp add: Seconds_pos) (simp add: time_sub_def)
  then have "is_float64 (pa_Seconds a)" using seconds_of_float64 s(1) by (simp add: Seconds_def)
  then show ?thesis using a by (auto simp: activity_fits_def Diff_def Let_def wrap_int64_range split: if_splits)
qed

lemma CacheHitPercent_float64: "CacheHitPercent p c = Some q \<Longrightarrow> is_float64 q"
proof -
  have "is_float64 (fmul (fdiv (of_i64 (wrap_int64 h)) (of_i64 t)) 100)" if "0 < t" for h t
  proof -
    have "(1 :: rat) \<le> of_int t" using that by (simp only: of_int_1_le_iff)
    then have "1 \<le> of_i64 t" unfolding of_i64_def by (rule binary64.ge_one)
    then have "bounded 63 (rnd (of_i64 (wrap_int64 h) / of_i64 t))"
      by (intro rnd_bounded bounded_divide bounded_int64 wrap_int64_range)
    then have "bounded 63 (fdiv (of_i64 (wrap_int64 h)) (of_i64 t))" using \<open>1 \<le> of_i64 t\<close> by (simp add: fdiv_eq)
    from bounded_mult [OF this bounded_hundred] show ?thesis unfolding fmul_def by (rule float64_rnd) simp
  qed
  then show "CacheHitPercent p c = Some q \<Longrightarrow> is_float64 q" by (auto simp: CacheHitPercent_def Let_def split: if_splits)
qed

lemma UptimeSeconds_int64: "int64 (pg_UptimeSeconds started now)"
proof -
  let ?up = "time_sub now (EpochToTime started)"
  have "?up < 2 ^ 63" by (simp add: time_sub_def)
  then show ?thesis using div_second [of ?up] by (auto simp: pg_UptimeSeconds_def Let_def int64_def)
qed

lemma map_put_in: "(k', x) \<in> set (map_put k v m) \<Longrightarrow> (k', x) \<in> set m \<or> x = v"
  by (auto simp: map_put_def)

lemma count_states_fit:
  "connections_fit c \<Longrightarrow> list_all (\<lambda>r. int64 (sr_Count r)) rows \<Longrightarrow> connections_fit (fold count_state rows c)"
proof (induction rows arbitrary: c)
  case (Cons row rows)
  have "connections_fit (count_state row c)" using Cons.prems
    by (auto simp: connections_fit_def count_state_def wrap_int64_range distinct_map_put dest: map_put_in)
  then show ?case using Cons by simp
qed simp

lemma distinct_put_error: "distinct (map fst m) \<Longrightarrow> distinct (map fst (put_error e part key err m))"
  by (simp add: put_error_def distinct_map_put split: option.split)

section \<open>The event of a round\<close>

lemma with_activity_fits: "database_fits d \<Longrightarrow> database_fits (with_activity prev cur d)"
  using Diff_fits CacheHitPercent_float64
  by (auto simp: with_activity_def Let_def database_fits_def split: option.split)

lemma database_entry_fits:
  assumes "opt_int64 (sizes (dr_Name row))" "int64 (dr_XIDAge row)"
  shows "database_fits (database_entry e sizes started prevs row)"
proof -
  have "database_fits \<lparr>da_Name = dr_Name row, da_SizeBytes = sizes (dr_Name row), da_XIDAge = dr_XIDAge row,
     da_CacheHitPercent = None, da_Activity = None, da_LargestTables = [], da_DeadTuples = [], da_Errors = []\<rparr>"
    using assms by (simp add: database_fits_def)
  then show ?thesis unfolding database_entry_def Let_def by (simp add: with_activity_fits split: option.split)
qed

lemma readTables_fits:
  assumes "pg_fits e" "database_fits d"
  shows "database_fits (snd (readTables e row (s, d)))"
proof -
  have t: "answer (list_all (\<lambda>r. int64 (ts_Bytes r))) (pq_largest e (dr_Name row))"
    "answer (list_all (\<lambda>r. int64 (dt_Live r) \<and> int64 (dt_Dead r))) (pq_dead e (dr_Name row))"
    using assms(1) by (simp_all add: pg_fits_def)
  show ?thesis
    by (cases rule: readTables_cases [where row = row and e = e and s = s];
        use assms(2) t in \<open>auto simp: readTables_no_conn readTables_refused readTables_read database_fits_def distinct_put_error
          distinct_map_put answer_def to_table_size_def to_dead_tuples_def list_all_iff split: sum.split_asm sum.split\<close>)
qed

lemma sizes_of_fits: "pg_fits e \<Longrightarrow> opt_int64 (sizes_of e name)"
proof -
  assume e: "pg_fits e"
  have "opt_int64 (size_map rows name)" if "pq_sizes e = Inr rows" for rows
  proof (cases "map_of (rev (map (\<lambda>r. (sz_Name r, sz_Bytes r)) rows)) name")
    case (Some p)
    then obtain r where "r \<in> set rows" "p = sz_Bytes r" using map_of_SomeD [OF Some] by auto
    moreover have "\<forall>r \<in> set rows. opt_int64 (sz_Bytes r)" using e \<open>pq_sizes e = Inr rows\<close> by (simp add: pg_fits_def answer_def list_all_iff)
    ultimately show ?thesis using Some by (simp add: size_map_def)
  qed (simp add: size_map_def)
  then show ?thesis by (simp add: sizes_of_def split: sum.split)
qed

lemma database_loop_fits:
  assumes "pg_fits e" "list_all (\<lambda>r. int64 (dr_XIDAge r)) rows"
  shows "\<forall>d \<in> set (snd (snd (database_loop e (sizes_of e) started rows nxt s))). database_fits d"
  using assms(2)
proof (induction rows arbitrary: nxt s)
  case (Cons row rows)
  have "database_fits (database_entry e (sizes_of e) started (eg_prev s) row)"
    using Cons.prems sizes_of_fits [OF assms(1)] by (intro database_entry_fits) simp_all
  then show ?case using Cons readTables_fits [OF assms(1)] by (simp add: Let_def split_beta)
qed simp

lemma databases_fit:
  assumes "pg_fits e" "list_all (\<lambda>r. int64 (dr_XIDAge r)) rows"
  shows "\<forall>d \<in> set (snd (databases e (sizes_of e) started rows s)). database_fits d"
  using database_loop_fits [OF assms] by (simp add: databases_def split_beta)

lemma replica_reads_fit:
  assumes "pg_fits e" "replica_reads e = Inr (rows, replay)"
  shows "(\<forall>x \<in> set rows. replica_fits (to_replica x)) \<and> f64_fits (ry_DelaySeconds replay) \<and> opt_int64 (ry_UnreplayedBytes replay)"
proof -
  obtain rs where rs: "pq_replicas e = Inr rs" using assms(2) by (cases "pq_replicas e") (auto simp: replica_reads_def replication_reads_alt Let_def)
  have rows: "\<forall>x \<in> set rs. replica_fits (to_replica x)"
    using assms(1) rs by (simp add: pg_fits_def answer_def list_all_iff replica_fits_def to_replica_def)
  have replay: "answer (\<lambda>r. f64_fits (ry_DelaySeconds r) \<and> opt_int64 (ry_UnreplayedBytes r)) (pq_replay e)"
    using assms(1) by (simp add: pg_fits_def)
  show ?thesis
  proof (cases "in_recovery e")
    case True
    then have "rows = rs" "pq_replay e = Inr replay"
      using assms(2) rs by (cases "pq_replay e"; simp add: replica_reads_def replication_reads_alt Let_def)+
    then show ?thesis using rows replay by (simp add: answer_def)
  next
    case False
    then have "rows = rs" "replay = \<lparr>ry_DelaySeconds = None, ry_UnreplayedBytes = None\<rparr>"
      using assms(2) rs by (simp_all add: replica_reads_def replication_reads_alt Let_def)
    then show ?thesis using rows by (simp add: f64_fits_def)
  qed
qed

lemma round_event_fits:
  assumes e: "pg_fits e"
  shows "event_fits (round_event e s)"
proof -
  have c: "connections_fit c" if "connection_reads e = Inr c" for c
  proof -
    obtain m rows where m: "pq_maxConnections e = Inr m" "pq_connections e = Inr rows"
      "c = fold count_state rows \<lparr>pc_Max = m, pc_Used = 0, pc_ByState = []\<rparr>"
      using \<open>connection_reads e = Inr c\<close> by (cases "pq_maxConnections e"; cases "pq_connections e") (auto simp: connection_reads_def readConnections_alt Let_def)
    show ?thesis unfolding m(3) using e m(1,2)
      by (intro count_states_fit) (simp_all add: connections_fit_def pg_fits_def answer_def)
  qed
  have "\<forall>x \<in> set (pe_LongRunning (round_event e s)). session_fits x"
    using e by (cases "pq_longRunning e") (auto simp: round_event_def sessions_def session_fits_def pg_fits_def answer_def list_all_iff)
  moreover have "\<forall>x \<in> set (pe_Blocked (round_event e s)). blocked_fits x"
    using e by (cases "pq_blocked e") (auto simp: round_event_def blocked_def Pids_def blocked_fits_def pg_fits_def answer_def list_all_iff)
  moreover have "(\<forall>x \<in> set (pe_Replicas (round_event e s)). replica_fits x)
      \<and> f64_fits (pe_ReplayDelaySeconds (round_event e s)) \<and> opt_int64 (pe_UnreplayedBytes (round_event e s))"
  proof (cases "replica_reads e")
    case (Inr p)
    then show ?thesis using replica_reads_fit [OF e, of "fst p" "snd p"] by (simp add: round_event_def split_beta)
  qed (simp add: round_event_def f64_fits_def)
  moreover have "\<forall>x \<in> set_option (pe_Connections (round_event e s)). connections_fit x"
    using c by (cases "connection_reads e") (simp_all add: round_event_def)
  moreover have "opt_int64 (pe_UptimeSeconds (round_event e s))"
    by (cases "pq_server e") (simp_all add: round_event_def UptimeSeconds_int64)
  moreover have "distinct (map fst (pe_Errors (round_event e s)))" by (simp add: round_event_def round_errors_def distinct_put_error)
  moreover have "pe_Databases (round_event e s) = []" by (simp add: round_event_def empty_event_def)
  ultimately show ?thesis by (simp add: event_fits_def)
qed

lemma pg_Collect_fits: "pg_fits e \<Longrightarrow> event_fits (snd (pg_Collect e s))"
proof (cases "main_error e")
  case None
  assume e: "pg_fits e"
  have rows: "list_all (\<lambda>r. int64 (dr_XIDAge r)) rows" if "pq_databases e = Inr rows" for rows
    using e that by (simp add: pg_fits_def answer_def)
  have "\<forall>d \<in> set (case pq_databases e of Inl _ \<Rightarrow> [] | Inr rows \<Rightarrow> snd (databases e (sizes_of e) (started_at e) rows t)). database_fits d" for t
    using databases_fit [OF e rows] by (cases "pq_databases e") simp_all
  then show ?thesis using round_event_fits [OF e, of s] None by (simp add: pg_Collect_event event_fits_def)
next
  case (Some x)
  then show ?thesis by (simp add: pg_Collect_event event_fits_def empty_event_def f64_fits_def)
qed

interpretation pg_types: typed_ticks "db_collectAndPublish PublishBatch pg_Collect PostgresEvent_json" "\<lambda>c. wire (db_world c)"
  "pg_fits \<circ> db_round" "\<lambda>_. True"
proof
  fix e :: "pg_env db_env" and c :: "(redis, Engine) Db"
  assume "(pg_fits \<circ> db_round) e" and r: "legible (wire (db_world c))"
  then have e: "pg_fits (db_round e)" by simp
  obtain g ev where ev: "pg_Collect (db_round e) (db_engine c) = (g, ev)" by fastforce
  show "legible (wire (db_world (db_collectAndPublish PublishBatch pg_Collect PostgresEvent_json e c)))"
  proof (cases "PostgresEvent_json ev")
    case (Some j)
    have "typed (Suc (Suc (Suc (Suc (Suc 0))))) j" using PostgresEvent_typed [OF Some] pg_Collect_fits [OF e, of "db_engine c"] ev by simp
    then have "legible [(db_channel c, j)]" by (rule typed_legible) (rule depth_enough, simp)
    then show ?thesis using r ev Some by (simp add: db_collectAndPublish_def db_collect_def)
  qed (use r ev in \<open>simp add: db_collectAndPublish_def db_collect_def\<close>)
qed simp

end
