(* ===== verification/PublisherConc.thy ===== *)
theory PublisherConc
  imports RedisPublisher "HOL-Library.Sublist" "HOL-Library.Multiset"
begin

text \<open>
  The publisher of \<^verbatim>\<open>src/redis/publisher.go\<close> is shared by all tailers, collectors and the heartbeat, which call
  \<^verbatim>\<open>PublishBatch\<close> from their own goroutines. Its calls are interleaved here: a call sends the commands of its
  pipeline one after the other (pipelines run on connections of their own, so the server may mix the
  commands of two of them), then takes the mutex for the failure log, then takes it again for the
  no-subscriber log, and any other call may take a step in between. One call by itself is \<open>PublishBatch\<close>.
\<close>

datatype phase = Sending "(bytes + int) list" | Tallied tally | FailuresLogged tally | Done tally

record pub_call =
  pc_channel :: bytes
  pc_payloads :: "json list"
  pc_phase :: phase

record pub_state =
  pb_pub :: redis
  pb_calls :: "pub_call list"

definition pub_init :: "redis \<Rightarrow> pub_state" where
  "pub_init p = \<lparr>pb_pub = p, pb_calls = []\<rparr>"

abbreviation set_phase :: "nat \<Rightarrow> phase \<Rightarrow> pub_state \<Rightarrow> pub_call list" where
  "set_phase i ph s \<equiv> (pb_calls s)[i := (pb_calls s ! i)\<lparr>pc_phase := ph\<rparr>]"

definition send_cmd :: "bytes \<Rightarrow> json \<Rightarrow> redis \<Rightarrow> redis" where
  "send_cmd channel payload p = p\<lparr>wire := wire p @ [(channel, payload)]\<rparr>"

definition log_failed :: "bytes \<Rightarrow> tally \<Rightarrow> redis \<Rightarrow> redis" where
  "log_failed channel t p =
     (if 0 < failed_n t
      then logFailure channel (of_nat (failed_n t)) (case firstErr t of None \<Rightarrow> [] | Some e \<Rightarrow> e) p else p)"

definition log_no_subs :: "bytes \<Rightarrow> tally \<Rightarrow> redis \<Rightarrow> redis" where
  "log_no_subs channel t p = (if 0 < noSubs_n t then logNoSubscribers channel (of_nat (noSubs_n t)) p else p)"

text \<open>A call made, and the atomic pieces of its body.\<close>

inductive pub_step :: "pub_state \<Rightarrow> pub_state \<Rightarrow> bool" where
  enter: "pub_step s (s\<lparr>pb_calls := pb_calls s @ [\<lparr>pc_channel = ch, pc_payloads = ps, pc_phase = Sending []\<rparr>]\<rparr>)"
| send: "i < length (pb_calls s) \<Longrightarrow> pb_calls s ! i = c \<Longrightarrow> pc_phase c = Sending rs \<Longrightarrow> length rs < length (pc_payloads c) \<Longrightarrow>
     pub_step s (s\<lparr>pb_pub := send_cmd (pc_channel c) (pc_payloads c ! length rs) (pb_pub s),
       pb_calls := set_phase i (Sending (rs @ [replies (pb_pub s) (length (wire (pb_pub s)))])) s\<rparr>)"
| count: "i < length (pb_calls s) \<Longrightarrow> pb_calls s ! i = c \<Longrightarrow> pc_phase c = Sending rs \<Longrightarrow> length rs = length (pc_payloads c) \<Longrightarrow>
     pub_step s (s\<lparr>pb_calls := set_phase i (Tallied (tally_cmds rs)) s\<rparr>)"
| failures: "i < length (pb_calls s) \<Longrightarrow> pb_calls s ! i = c \<Longrightarrow> pc_phase c = Tallied t \<Longrightarrow>
     pub_step s (s\<lparr>pb_pub := log_failed (pc_channel c) t (pb_pub s), pb_calls := set_phase i (FailuresLogged t) s\<rparr>)"
| no_subs: "i < length (pb_calls s) \<Longrightarrow> pb_calls s ! i = c \<Longrightarrow> pc_phase c = FailuresLogged t \<Longrightarrow>
     pub_step s (s\<lparr>pb_pub := log_no_subs (pc_channel c) t (pb_pub s), pb_calls := set_phase i (Done t) s\<rparr>)"

lemma pub_step_run: "pub_step s s1 \<Longrightarrow> pub_step\<^sup>*\<^sup>* s1 s' \<Longrightarrow> pub_step\<^sup>*\<^sup>* s s'"
  by (rule converse_rtranclp_into_rtranclp)

section \<open>One call by itself\<close>

abbreviation one_call :: "redis \<Rightarrow> bytes \<Rightarrow> json list \<Rightarrow> phase \<Rightarrow> pub_state" where
  "one_call p ch ps ph \<equiv> \<lparr>pb_pub = p, pb_calls = [\<lparr>pc_channel = ch, pc_payloads = ps, pc_phase = ph\<rparr>]\<rparr>"

definition sent_prefix :: "bytes \<Rightarrow> json list \<Rightarrow> nat \<Rightarrow> redis \<Rightarrow> redis" where
  "sent_prefix ch ps k p = p\<lparr>wire := wire p @ map (Pair ch) (take k ps)\<rparr>"

lemma sends_alone:
  "k \<le> length ps \<Longrightarrow> pub_step\<^sup>*\<^sup>* (one_call p ch ps (Sending []))
     (one_call (sent_prefix ch ps k p) ch ps (Sending (map (\<lambda>i. replies p (length (wire p) + i)) [0..<k])))"
proof (induction k)
  case 0
  then show ?case by (simp add: sent_prefix_def)
next
  case (Suc k)
  let ?rs = "map (\<lambda>i. replies p (length (wire p) + i)) [0..<k]" and ?q = "sent_prefix ch ps k p"
  have "pub_step (one_call ?q ch ps (Sending ?rs)) (one_call (send_cmd ch (ps ! k) ?q) ch ps
      (Sending (?rs @ [replies ?q (length (wire ?q))])))"
    using Suc.prems pub_step.send [of 0 "one_call ?q ch ps (Sending ?rs)" _ ?rs] by simp
  moreover have "send_cmd ch (ps ! k) ?q = sent_prefix ch ps (Suc k) p"
    "?rs @ [replies ?q (length (wire ?q))] = map (\<lambda>i. replies p (length (wire p) + i)) [0..<Suc k]"
    using Suc.prems by (simp_all add: send_cmd_def sent_prefix_def take_Suc_conv_app_nth)
  ultimately show ?case using Suc by (simp add: rtranclp.rtrancl_into_rtrancl)
qed

lemma pub_call_alone:
  "\<exists>t. pub_step\<^sup>*\<^sup>* (pub_init p) (one_call (fst (PublishBatch p ch ps)) ch ps (Done t))
     \<and> snd (PublishBatch p ch ps) = int (shipped_n t)"
proof -
  let ?rs = "map (\<lambda>i. replies p (length (wire p) + i)) [0..<length ps]" and ?q = "sent_prefix ch ps (length ps) p"
  let ?t = "tally_cmds ?rs"
  have "pub_step (pub_init p) (one_call p ch ps (Sending []))"
    using pub_step.enter [of "pub_init p" ch ps] by (simp add: pub_init_def)
  moreover have "pub_step (one_call ?q ch ps (Sending ?rs)) (one_call ?q ch ps (Tallied ?t))"
    using pub_step.count [of 0 "one_call ?q ch ps (Sending ?rs)", OF _ refl, of ?rs] by simp
  moreover have "pub_step (one_call q ch ps (Tallied ?t)) (one_call (log_failed ch ?t q) ch ps (FailuresLogged ?t))" for q
    using pub_step.failures [of 0 "one_call q ch ps (Tallied ?t)" _ ?t] by simp
  moreover have "pub_step (one_call q ch ps (FailuresLogged ?t)) (one_call (log_no_subs ch ?t q) ch ps (Done ?t))" for q
    using pub_step.no_subs [of 0 "one_call q ch ps (FailuresLogged ?t)" _ ?t] by simp
  ultimately have "pub_step\<^sup>*\<^sup>* (pub_init p) (one_call (log_no_subs ch ?t (log_failed ch ?t ?q)) ch ps (Done ?t))"
    using sends_alone [of "length ps" ps p ch]
    by (meson converse_rtranclp_into_rtranclp order_refl rtranclp.rtrancl_into_rtrancl)
  moreover have "fst (PublishBatch p ch ps) = log_no_subs ch ?t (log_failed ch ?t ?q)"
    "snd (PublishBatch p ch ps) = int (shipped_n ?t)"
    by (simp_all add: PublishBatch_def sent_prefix_def log_failed_def log_no_subs_def Let_def)
  ultimately show ?thesis by auto
qed

section \<open>The invariant of the shared publisher\<close>

text \<open>
  What a call has put on the wire, how many failures it has handed to the counter, and what its tally
  says: every payload is either accepted or failed.
\<close>

fun sent :: "pub_call \<Rightarrow> (bytes \<times> json) list" where
  "sent c = map (Pair (pc_channel c)) (case pc_phase c of Sending rs \<Rightarrow> take (length rs) (pc_payloads c) | _ \<Rightarrow> pc_payloads c)"

fun counted :: "phase \<Rightarrow> nat" where
  "counted (FailuresLogged t) = failed_n t"
| "counted (Done t) = failed_n t"
| "counted _ = 0"

fun phase_ok :: "json list \<Rightarrow> phase \<Rightarrow> bool" where
  "phase_ok ps (Sending rs) = (length rs \<le> length ps)"
| "phase_ok ps (Tallied t) = (shipped_n t + failed_n t = length ps)"
| "phase_ok ps (FailuresLogged t) = (shipped_n t + failed_n t = length ps)"
| "phase_ok ps (Done t) = (shipped_n t + failed_n t = length ps)"

definition call_ok :: "(bytes \<times> json) list \<Rightarrow> pub_call \<Rightarrow> bool" where
  "call_ok w c \<longleftrightarrow> phase_ok (pc_payloads c) (pc_phase c) \<and> subseq (sent c) w"

definition pub_inv :: "pub_state \<Rightarrow> bool" where
  "pub_inv s \<longleftrightarrow> throttled (pb_pub s)
     \<and> counted_failures (pb_pub s) = of_nat (\<Sum>c\<leftarrow>pb_calls s. counted (pc_phase c))
     \<and> mset (wire (pb_pub s)) = (\<Sum>c\<leftarrow>pb_calls s. mset (sent c))
     \<and> list_all (call_ok (wire (pb_pub s))) (pb_calls s)"

lemma sum_list_set_phase:
  fixes f :: "pub_call \<Rightarrow> 'a::comm_monoid_add"
  assumes "i < length cs" "f c' = f (cs ! i) + d"
  shows "sum_list (map f (cs[i := c'])) = sum_list (map f cs) + d"
  using assms by (induction cs arbitrary: i) (auto simp: nth_Cons ac_simps split: nat.splits)

lemma list_all_update: "list_all P xs \<Longrightarrow> P x \<Longrightarrow> list_all P (xs[i := x])"
  by (cases "i < length xs") (auto simp: list_all_length nth_list_update)

lemma call_ok_append: "call_ok w c \<Longrightarrow> call_ok (w @ v) c"
  by (auto simp: call_ok_def intro: subseq_rev_drop_many)

lemma log_failed_facts [simp]:
  "wire (log_failed ch t p) = wire p" "counted_failures (log_failed ch t p) = counted_failures p + of_nat (failed_n t)"
  by (simp_all add: log_failed_def logFailure_counted)

lemma log_no_subs_facts [simp]:
  "wire (log_no_subs ch t p) = wire p" "counted_failures (log_no_subs ch t p) = counted_failures p"
  by (simp_all add: log_no_subs_def logNoSubscribers_counted)

lemma log_throttled [inv_intros]:
  "throttled p \<Longrightarrow> throttled (log_failed ch t p)" "throttled p \<Longrightarrow> throttled (log_no_subs ch t p)"
  by (simp_all add: log_failed_def log_no_subs_def inv_intros)

lemma send_cmd_facts [simp]:
  "wire (send_cmd ch x p) = wire p @ [(ch, x)]" "counted_failures (send_cmd ch x p) = counted_failures p"
  "throttled (send_cmd ch x p) = throttled p"
  by (simp_all add: send_cmd_def counted_failures_def)

text \<open>
  One call moves to its next phase: the invariant is kept when the counter and the wire change by what the
  phase adds, and the call is in order there.
\<close>

lemma pub_inv_move:
  assumes "pub_inv s" "i < length (pb_calls s)" "c' = (pb_calls s ! i)\<lparr>pc_phase := ph\<rparr>" "throttled p"
    and "counted_failures p = counted_failures (pb_pub s) + of_nat d"
    and "counted ph = counted (pc_phase (pb_calls s ! i)) + d"
    and "wire p = wire (pb_pub s) @ v" "sent c' = sent (pb_calls s ! i) @ v" "call_ok (wire p) c'"
  shows "pub_inv (s\<lparr>pb_pub := p, pb_calls := (pb_calls s)[i := c']\<rparr>)"
proof -
  have "(\<Sum>c\<leftarrow>(pb_calls s)[i := c']. counted (pc_phase c)) = (\<Sum>c\<leftarrow>pb_calls s. counted (pc_phase c)) + d"
    using assms by (intro sum_list_set_phase) simp_all
  moreover have "(\<Sum>c\<leftarrow>(pb_calls s)[i := c']. mset (sent c)) = (\<Sum>c\<leftarrow>pb_calls s. mset (sent c)) + mset v"
    using assms(2,8) by (intro sum_list_set_phase) simp_all
  moreover have "list_all (call_ok (wire p)) ((pb_calls s)[i := c'])"
    using assms(1,7,9) by (intro list_all_update) (auto simp: pub_inv_def list_all_iff call_ok_append)
  ultimately show ?thesis using assms by (simp add: pub_inv_def)
qed

lemma pub_inv_call: "pub_inv s \<Longrightarrow> i < length (pb_calls s) \<Longrightarrow> call_ok (wire (pb_pub s)) (pb_calls s ! i)"
  by (simp add: pub_inv_def list_all_length)

lemma pub_inv_step: "pub_step s s' \<Longrightarrow> pub_inv s \<Longrightarrow> pub_inv s'"
proof (induction rule: pub_step.induct)
  case (enter s ch ps)
  then show ?case by (simp add: pub_inv_def call_ok_def)
next
  case (send i s c rs)
  let ?c = "c\<lparr>pc_phase := Sending (rs @ [replies (pb_pub s) (length (wire (pb_pub s)))])\<rparr>"
  have snt: "sent ?c = sent c @ [(pc_channel c, pc_payloads c ! length rs)]"
    using send.hyps by (simp add: take_Suc_conv_app_nth)
  have "call_ok (wire (pb_pub s) @ [(pc_channel c, pc_payloads c ! length rs)]) ?c"
    using pub_inv_call [OF send.prems] send.hyps snt by (auto simp: call_ok_def simp del: sent.simps)
  then show ?case
    using send snt by (intro pub_inv_move [where d = 0 and v = "[(pc_channel c, pc_payloads c ! length rs)]"])
      (auto simp: pub_inv_def simp del: sent.simps)
next
  case (count i s c rs)
  have "pub_inv (s\<lparr>pb_pub := pb_pub s, pb_calls := set_phase i (Tallied (tally_cmds rs)) s\<rparr>)"
    using count pub_inv_call [OF count.prems count.hyps(1)]
    by (intro pub_inv_move [where d = 0 and v = "[]"]) (auto simp: pub_inv_def call_ok_def tally_total)
  then show ?case by simp
next
  case (failures i s c t)
  then show ?case using pub_inv_call [OF failures.prems failures.hyps(1)]
    by (intro pub_inv_move [where d = "failed_n t" and v = "[]"]) (auto simp: pub_inv_def call_ok_def inv_intros)
next
  case (no_subs i s c t)
  then show ?case using pub_inv_call [OF no_subs.prems no_subs.hyps(1)]
    by (intro pub_inv_move [where d = 0 and v = "[]"]) (auto simp: pub_inv_def call_ok_def inv_intros)
qed

lemma pub_inv_init: "mono clk \<Longrightarrow> pub_inv (pub_init (redis_New rep clk))"
  using redis_New_throttled [of clk rep] by (simp add: pub_inv_def pub_init_def redis_New_def counted_failures_def)

lemma pub_inv_reachable: "pub_step\<^sup>*\<^sup>* s s' \<Longrightarrow> pub_inv s \<Longrightarrow> pub_inv s'"
  by (induction rule: rtranclp_induct) (auto intro: pub_inv_step)

section \<open>Every call ends\<close>

text \<open>The steps a call has left; no other call can take them away or hold it up.\<close>

fun steps_left :: "pub_call \<Rightarrow> nat" where
  "steps_left c = (case pc_phase c of Sending rs \<Rightarrow> 3 + (length (pc_payloads c) - length rs)
     | Tallied _ \<Rightarrow> 2 | FailuresLogged _ \<Rightarrow> 1 | Done _ \<Rightarrow> 0)"

lemma pub_call_steps:
  assumes "pub_inv s" "i < length (pb_calls s)" "0 < steps_left (pb_calls s ! i)"
  shows "\<exists>s'. pub_step s s' \<and> length (pb_calls s') = length (pb_calls s)
    \<and> steps_left (pb_calls s' ! i) < steps_left (pb_calls s ! i) \<and> (\<forall>j. j \<noteq> i \<longrightarrow> pb_calls s' ! j = pb_calls s ! j)"
proof (cases "pc_phase (pb_calls s ! i)")
  case (Sending rs)
  then have le: "length rs \<le> length (pc_payloads (pb_calls s ! i))"
    using pub_inv_call [OF assms(1,2)] by (simp add: call_ok_def)
  show ?thesis
  proof (cases "length rs = length (pc_payloads (pb_calls s ! i))")
    case True
    show ?thesis using pub_step.count [OF assms(2) refl Sending True] Sending assms(2)
      by (intro exI conjI) (assumption, auto)
  next
    case False
    then show ?thesis using pub_step.send [OF assms(2) refl Sending] le Sending assms(2)
      by (intro exI conjI) (rule pub_step.send [OF assms(2) refl Sending], auto)
  qed
next
  case (Tallied t)
  show ?thesis using pub_step.failures [OF assms(2) refl Tallied] Tallied assms(2) by (intro exI conjI) (assumption, auto)
next
  case (FailuresLogged t)
  show ?thesis using pub_step.no_subs [OF assms(2) refl FailuresLogged] FailuresLogged assms(2) by (intro exI conjI) (assumption, auto)
next
  case (Done t)
  then show ?thesis using assms(3) by simp
qed


lemma sum_list_less_at:
  fixes f :: "pub_call \<Rightarrow> nat"
  assumes "i < length cs" "length cs' = length cs" "f (cs' ! i) < f (cs ! i)" "\<forall>j. j \<noteq> i \<longrightarrow> cs' ! j = cs ! j"
  shows "sum_list (map f cs') < sum_list (map f cs)"
proof -
  have "cs = cs'[i := cs ! i]" using assms by (auto intro!: nth_equalityI simp: nth_list_update)
  moreover have "sum_list (map f (cs'[i := cs ! i])) = sum_list (map f cs') + (f (cs ! i) - f (cs' ! i))"
    using assms by (intro sum_list_set_phase) simp_all
  ultimately show ?thesis using assms(3) by simp
qed

text \<open>Left alone, the calls under way all run to their end.\<close>

lemma pub_calls_end:
  assumes "pub_inv s"
  shows "\<exists>s'. pub_step\<^sup>*\<^sup>* s s' \<and> length (pb_calls s') = length (pb_calls s) \<and> list_all (\<lambda>c. steps_left c = 0) (pb_calls s')"
  using assms
proof (induction "\<Sum>c\<leftarrow>pb_calls s. steps_left c" arbitrary: s rule: less_induct)
  case less
  show ?case
  proof (cases "list_all (\<lambda>c. steps_left c = 0) (pb_calls s)")
    case False
    then obtain i where i: "i < length (pb_calls s)" "0 < steps_left (pb_calls s ! i)" by (auto simp: list_all_length)
    then obtain s1 where s1: "pub_step s s1" "length (pb_calls s1) = length (pb_calls s)"
      "steps_left (pb_calls s1 ! i) < steps_left (pb_calls s ! i)" "\<forall>j. j \<noteq> i \<longrightarrow> pb_calls s1 ! j = pb_calls s ! j"
      using pub_call_steps [OF less.prems] by blast
    have "(\<Sum>c\<leftarrow>pb_calls s1. steps_left c) < (\<Sum>c\<leftarrow>pb_calls s. steps_left c)"
      using s1 i by (intro sum_list_less_at)
    from less.hyps [OF this pub_inv_step [OF s1(1) less.prems]] show ?thesis
      using s1(2) pub_step_run [OF s1(1)] by force
  qed auto
qed

section \<open>Property\<close>

text \<open>
  C12. \<^verbatim>\<open>PublishBatch\<close> is safe for concurrent use: however the calls of several goroutines interleave and whatever Redis
  answers, on a clock that does not run backwards, two failure lines are at least five seconds apart and
  two no-subscriber lines at least a minute; the commands on the wire are those of the calls, each call's
  in its own order and none twice; every payload of a finished call was either accepted or is
  counted among the failures that have been logged or are still to be logged; and from every such state the calls under
  way can all run to their end.
\<close>

theorem redis_concurrent_accounted:
  assumes "mono clk" "pub_step\<^sup>*\<^sup>* (pub_init (redis_New rep clk)) s"
  shows "spaced (5 * second) (failing_times (pb_pub s)) \<and> spaced (60 * second) (no_sub_times (pb_pub s))
    \<and> mset (wire (pb_pub s)) = (\<Sum>c\<leftarrow>pb_calls s. mset (sent c))
    \<and> (\<forall>c \<in> set (pb_calls s). subseq (sent c) (wire (pb_pub s)))
    \<and> counted_failures (pb_pub s) = of_nat (\<Sum>c\<leftarrow>pb_calls s. counted (pc_phase c))
    \<and> (\<forall>c \<in> set (pb_calls s). \<forall>t. pc_phase c = Done t \<longrightarrow> shipped_n t + counted (Done t) = length (pc_payloads c))
    \<and> (\<exists>s'. pub_step\<^sup>*\<^sup>* s s' \<and> length (pb_calls s') = length (pb_calls s) \<and> list_all (\<lambda>c. steps_left c = 0) (pb_calls s'))"
proof -
  have "pub_inv s" using pub_inv_reachable [OF assms(2) pub_inv_init [OF assms(1)]] .
  then show ?thesis using pub_calls_end [OF \<open>pub_inv s\<close>]
    by (auto simp: pub_inv_def throttled_def errLogInterval_def noSubLogInterval_def list_all_iff call_ok_def
        simp del: sent.simps steps_left.simps)
qed

text \<open>Two calls whose commands are mixed on the wire, the first refused and counted, the second under way.\<close>

definition mixed_calls :: "redis \<Rightarrow> pub_state" where
  "mixed_calls p = \<lparr>pb_pub = log_failed ''a'' (tally_cmds [Inl ''refused'', Inl ''refused''])
       (p\<lparr>wire := [(''a'', JInt 1), (''b'', JInt 2), (''a'', JInt 3)]\<rparr>),
     pb_calls = [\<lparr>pc_channel = ''a'', pc_payloads = [JInt 1, JInt 3], pc_phase = FailuresLogged (tally_cmds [Inl ''refused'', Inl ''refused''])\<rparr>,
       \<lparr>pc_channel = ''b'', pc_payloads = [JInt 2], pc_phase = Sending [Inl ''refused'']\<rparr>]\<rparr>"

lemma mixed_calls_reached:
  "pub_step\<^sup>*\<^sup>* (pub_init (redis_New (\<lambda>_. Inl ''refused'') clk)) (mixed_calls (redis_New (\<lambda>_. Inl ''refused'') clk))"
proof -
  let ?p = "redis_New (\<lambda>_. Inl ''refused'') clk" and ?t = "tally_cmds [Inl ''refused'', Inl ''refused'']"
  let ?A = "\<lambda>ph. \<lparr>pc_channel = ''a'', pc_payloads = [JInt 1, JInt 3], pc_phase = ph\<rparr>"
  let ?B = "\<lambda>ph. \<lparr>pc_channel = ''b'', pc_payloads = [JInt 2], pc_phase = ph\<rparr>"
  let ?s = "\<lambda>w cs. \<lparr>pb_pub = ?p\<lparr>wire := w\<rparr>, pb_calls = cs\<rparr>"
  let ?e = "Inl ''refused''"
  have s1: "pub_step (pub_init ?p) (?s [] [?A (Sending [])])"
    using pub_step.enter [of "pub_init ?p" "''a''" "[JInt 1, JInt 3]"] by (simp add: pub_init_def redis_New_def)
  have s2: "pub_step (?s [] [?A (Sending [])]) (?s [] [?A (Sending []), ?B (Sending [])])"
    using pub_step.enter [of "?s [] [?A (Sending [])]" "''b''" "[JInt 2]"] by simp
  have s3: "pub_step (?s [] [?A (Sending []), ?B (Sending [])]) (?s [(''a'', JInt 1)] [?A (Sending [?e]), ?B (Sending [])])"
    using pub_step.send [of 0 "?s [] [?A (Sending []), ?B (Sending [])]", OF _ refl, of "[]"] by (simp add: send_cmd_def redis_New_def)
  have s4: "pub_step (?s [(''a'', JInt 1)] [?A (Sending [?e]), ?B (Sending [])])
      (?s [(''a'', JInt 1), (''b'', JInt 2)] [?A (Sending [?e]), ?B (Sending [?e])])"
    using pub_step.send [of 1 "?s [(''a'', JInt 1)] [?A (Sending [?e]), ?B (Sending [])]", OF _ refl, of "[]"]
    by (simp add: send_cmd_def redis_New_def)
  have s5: "pub_step (?s [(''a'', JInt 1), (''b'', JInt 2)] [?A (Sending [?e]), ?B (Sending [?e])])
      (?s [(''a'', JInt 1), (''b'', JInt 2), (''a'', JInt 3)] [?A (Sending [?e, ?e]), ?B (Sending [?e])])"
    using pub_step.send [of 0 "?s [(''a'', JInt 1), (''b'', JInt 2)] [?A (Sending [?e]), ?B (Sending [?e])]", OF _ refl, of "[?e]"]
    by (simp add: send_cmd_def redis_New_def)
  have s6: "pub_step (?s w [?A (Sending [?e, ?e]), ?B (Sending [?e])]) (?s w [?A (Tallied ?t), ?B (Sending [?e])])" for w
    using pub_step.count [of 0 "?s w [?A (Sending [?e, ?e]), ?B (Sending [?e])]", OF _ refl, of "[?e, ?e]"] by simp
  have s7: "pub_step (?s [(''a'', JInt 1), (''b'', JInt 2), (''a'', JInt 3)] [?A (Tallied ?t), ?B (Sending [?e])]) (mixed_calls ?p)"
    using pub_step.failures [of 0 "?s [(''a'', JInt 1), (''b'', JInt 2), (''a'', JInt 3)] [?A (Tallied ?t), ?B (Sending [?e])]", OF _ refl, of ?t]
    by (simp add: mixed_calls_def)
  show ?thesis
    by (rule pub_step_run [OF s1], rule pub_step_run [OF s2],
        rule pub_step_run [OF s3], rule pub_step_run [OF s4],
        rule pub_step_run [OF s5], rule pub_step_run [OF s6],
        rule pub_step_run [OF s7 rtranclp.rtrancl_refl])
qed

theorem redis_concurrent_accounted_witness:
  "counted_failures (pb_pub (mixed_calls (redis_New (\<lambda>_. Inl ''refused'') (\<lambda>k. 10 ^ 18 + second * int k)))) = 2"
proof -
  have "mono (\<lambda>k. 10 ^ 18 + second * int k)" by (rule monoI) simp
  from redis_concurrent_accounted [OF this mixed_calls_reached] show ?thesis
    by (simp add: mixed_calls_def tally_cmds_def tally_cmd_def)
qed

end
