(* ===== verification/Subscriber.thy ===== *)
theory Subscriber
  imports PgPayloads PublisherConc
begin

text \<open>
  The other end of the channel. A subscriber reads the bytes of a log event back into the struct of
  \<^verbatim>\<open>src/model/event.go\<close>, by the names in its tags; what it gets are the lines of the log. Here the tailer, the event
  model, the publisher and \<^verbatim>\<open>encoding/json\<close> in both directions come together.
\<close>

text \<open>The tags of \<^verbatim>\<open>LogEvent\<close>, in the order of its fields.\<close>

definition LogEvent_tags :: "(bytes \<times> LogEvent dec) list" where
  "LogEvent_tags =
     [(''serverId'', sub le_ServerID le_ServerID_update dec_string), (''path'', sub le_Path le_Path_update dec_string),
      (''channel'', sub le_Channel le_Channel_update dec_string), (''timestamp'', sub le_Timestamp le_Timestamp_update dec_string),
      (''message'', sub le_Message le_Message_update dec_string)]"

definition decode_log :: "bytes \<Rightarrow> LogEvent option" where
  "decode_log data = Unmarshal (dec_struct LogEvent_tags)
     \<lparr>le_ServerID = [], le_Path = [], le_Channel = [], le_Timestamp = [], le_Message = []\<rparr> data"

text \<open>The event with every byte that is not part of valid UTF-8 replaced, as \<^verbatim>\<open>json.Marshal\<close> does it.\<close>

definition valid_log :: "LogEvent \<Rightarrow> LogEvent" where
  "valid_log e = \<lparr>le_ServerID = ToValidUTF8 (le_ServerID e), le_Path = ToValidUTF8 (le_Path e), le_Channel = ToValidUTF8 (le_Channel e),
     le_Timestamp = ToValidUTF8 (le_Timestamp e), le_Message = ToValidUTF8 (le_Message e)\<rparr>"

lemma unquote_key: "list_all htmlSafe k \<Longrightarrow> list_all plain_byte k \<Longrightarrow> unquote_json (quote_json k) = k"
  by (simp add: quote_plain unquote_json_plain)

lemma log_keys:
  "unquote_json (quote_json ''serverId'') = ''serverId''" "unquote_json (quote_json ''path'') = ''path''"
  "unquote_json (quote_json ''channel'') = ''channel''" "unquote_json (quote_json ''timestamp'') = ''timestamp''"
  "unquote_json (quote_json ''message'') = ''message''"
  by (rule unquote_key; code_simp)+

lemma log_fields:
  "field_of LogEvent_tags ''serverId'' = Some (sub le_ServerID le_ServerID_update dec_string)"
  "field_of LogEvent_tags ''path'' = Some (sub le_Path le_Path_update dec_string)"
  "field_of LogEvent_tags ''channel'' = Some (sub le_Channel le_Channel_update dec_string)"
  "field_of LogEvent_tags ''timestamp'' = Some (sub le_Timestamp le_Timestamp_update dec_string)"
  "field_of LogEvent_tags ''message'' = Some (sub le_Message le_Message_update dec_string)"
  by (rule field_of_exact; simp add: LogEvent_tags_def)+

lemma decode_log_Marshal:
  assumes "LogEvent_json e = Some j"
  shows "decode_log (Marshal j) = Some (valid_log e)"
proof -
  have p: "json_parse (Marshal j) = Some (to_jval j)"
    using Marshal_parse [OF LogEvent_typed [OF assms, of 0] depth_enough] by simp
  have "j = JObj [(''serverId'', JStr (le_ServerID e)), (''path'', JStr (le_Path e)), (''channel'', JStr (le_Channel e)),
      (''timestamp'', JStr (le_Timestamp e)), (''message'', JStr (le_Message e))]"
    using assms unfolding LogEvent_json_def option.inject by (rule sym)
  then have v: "to_jval j = VObj [(quote_json ''serverId'', VStr (quote_json (le_ServerID e))), (quote_json ''path'', VStr (quote_json (le_Path e))),
      (quote_json ''channel'', VStr (quote_json (le_Channel e))), (quote_json ''timestamp'', VStr (quote_json (le_Timestamp e))),
      (quote_json ''message'', VStr (quote_json (le_Message e)))]"
    by (simp only: to_jval.simps list.map prod.case)
  show ?thesis unfolding decode_log_def Unmarshal_def p option.case v dec_struct_def jval.case dec_fields.simps log_keys log_fields
    by (simp add: sub_def unquote_quote_json valid_log_def)
qed

text \<open>What the events on the wire are to a subscriber, and the messages it reads.\<close>

lemma message_of_log: "LogEvent_json e = Some j \<Longrightarrow> message_of j = le_Message e"
  unfolding LogEvent_json_def option.inject by (erule subst) (simp add: message_of_def)

lemma log_payloads_decode:
  assumes "list_all (log_payload ch sid) ps"
  obtains es where "map (decode_log \<circ> Marshal) ps = map Some es" "map le_Message es = map (ToValidUTF8 \<circ> message_of) ps"
    "list_all (\<lambda>e. le_Channel e = ToValidUTF8 ch \<and> le_ServerID e = ToValidUTF8 sid) es"
  using assms
proof (induction ps arbitrary: thesis)
  case (Cons j ps)
  obtain e where e: "LogEvent_json e = Some j" "le_Channel e = ch" "le_ServerID e = sid"
    using Cons.prems(2) unfolding list.pred_inject log_payload_def by blast
  have m: "message_of j = le_Message e" using e(1) by (rule message_of_log)
  obtain es where "map (decode_log \<circ> Marshal) ps = map Some es" "map le_Message es = map (ToValidUTF8 \<circ> message_of) ps"
    "list_all (\<lambda>e. le_Channel e = ToValidUTF8 ch \<and> le_ServerID e = ToValidUTF8 sid) es"
    using Cons.IH Cons.prems(2) unfolding list.pred_inject by blast
  then show ?case using decode_log_Marshal [OF e(1)] e(2,3) m
    unfolding comp_def by (intro Cons.prems(1) [of "valid_log e # es"]) (simp_all add: valid_log_def comp_def)
qed simp

text \<open>
  C1. End to end, from the bytes of a log file to a subscriber: started on an exact path, the tailer puts on its
  channel one payload for each complete line written to the file after startup and nothing else, and the JSON
  that goes over the wire is read back by a subscriber as a log event of that channel and server whose message is
  the line, once and in order. A byte of the line that is not part of valid UTF-8 arrives as U+FFFD.
\<close>

theorem subscriber_receives_appended_lines:
  fixes w :: redis
  assumes "\<not> ContainsAny path ''*?[''"
    and "opens_at_end c0 f path ino e0" "quiet_env c1 f path ino e0"
    and "list_all2 (\<lambda>c e. quiet_env c f path ino e) cs es"
    and "sorted_wrt prefix (c0 # c1 # cs)"
    and "short_lines (drop (length c0) (last (c1 # cs)))"
  shows "\<exists>ps evs. wire (t_world (r_t (tailer_Run PublishBatch (e0 # es) (run_init now (tailer_New path ch sid w))))) = wire w @ map (Pair ch) ps
     \<and> map (decode_log \<circ> Marshal) ps = map Some evs
     \<and> map le_Message evs = map ToValidUTF8 (messages (drop (length c0) (last (c1 # cs))))
     \<and> list_all (\<lambda>e. le_Channel e = ToValidUTF8 ch \<and> le_ServerID e = ToValidUTF8 sid) evs"
proof -
  let ?init = "run_init now (tailer_New path ch sid w)"
  let ?s = "tailer_Run PublishBatch (e0 # es) ?init"
  have new: "t_channel (r_t ?init) = ch" "t_serverID (r_t ?init) = sid" "t_world (r_t ?init) = w" "t_batch (r_t ?init) = []"
    by (simp_all add: run_init_def tailer_New_def)
  then have "log_inv ch sid (wire w) (r_t ?init)" using log_inv_New [of "r_t ?init"] by simp
  then have "log_inv ch sid (wire w) (r_t ?s)" by (rule tailer_Run_log)
  then obtain ps where ps: "wire (t_world (r_t ?s)) = wire w @ map (Pair ch) ps" "list_all (log_payload ch sid) ps"
    unfolding log_inv_def by blast
  have "sent_messages wire ?s = sent_messages wire ?init @ messages (drop (length c0) (last (c1 # cs)))"
    by (rule redis_publisher.run_delivers [OF assms])
  then have m: "map message_of ps = messages (drop (length c0) (last (c1 # cs)))"
    unfolding sent_messages_def new(3) ps(1) by (simp add: comp_def)
  obtain evs where "map (decode_log \<circ> Marshal) ps = map Some evs" "map le_Message evs = map (ToValidUTF8 \<circ> message_of) ps"
    "list_all (\<lambda>e. le_Channel e = ToValidUTF8 ch \<and> le_ServerID e = ToValidUTF8 sid) evs"
    using log_payloads_decode [OF ps(2)] .
  then show ?thesis using ps(1) unfolding m [symmetric] by (intro exI [of _ ps] exI [of _ evs]) (simp add: comp_def)
qed

theorem subscriber_receives_appended_lines_witness:
  "let w = wire (t_world (r_t (tailer_Run PublishBatch
      [file_env (''old'' @ [newline]), file_env (''old'' @ [newline] @ ''a<b'' @ [newline] @ ''part'')]
      (run_init 0 (tailer_New ''/var/log/a.log'' ''ch'' ''srv'' example_redis)))))
   in length w = 1 \<and> map (\<lambda>p. map_option le_Message (decode_log (Marshal (snd p)))) w = [Some ''a<b'']"
proof -
  let ?old = "''old'' @ [newline]" and ?grown = "''old'' @ [newline] @ ''a<b'' @ [newline] @ ''part''"
  have "messages (drop (length ?old) (last [?old, ?grown])) = [''a<b'']" by code_simp
  moreover have "ToValidUTF8 ''a<b'' = ''a<b''" by (simp add: ToValid_ascii ToValidUTF8.simps [of "[]"])
  ultimately have m: "map ToValidUTF8 (messages (drop (length ?old) (last [?old, ?grown]))) = [''a<b'']" by (simp only: list.map)
  have s: "short_lines (drop (length ?old) (last [?old, ?grown]))"
    by (simp add: short_lines_def maxLineBytes_def readBufSize_def)
  have q: "quiet_env ?old 3 ''/var/log/a.log'' 7 (file_env ?old)"
    "list_all2 (\<lambda>c e. quiet_env c 3 ''/var/log/a.log'' 7 e) [?grown] [file_env ?grown]"
    by (simp_all add: file_env_quiet readBufSize_def)
  have g: "sorted_wrt prefix [?old, ?old, ?grown]" by simp
  have p: "\<not> ContainsAny ''/var/log/a.log'' ''*?[''" by (simp add: ContainsAny_def)
  have w: "wire example_redis = []" by (simp add: example_redis_def redis_New_def)
  obtain ps evs where ps: "wire (t_world (r_t (tailer_Run PublishBatch [file_env ?old, file_env ?grown]
      (run_init 0 (tailer_New ''/var/log/a.log'' ''ch'' ''srv'' example_redis))))) = map (Pair ''ch'') ps"
    and evs: "map (decode_log \<circ> Marshal) ps = map Some evs" "map le_Message evs = [''a<b'']"
    using subscriber_receives_appended_lines [OF p file_env_opens q g s, of 0 "''ch''" "''srv''" example_redis] unfolding m w append_Nil
    by (elim exE conjE) (rule that)
  have "length ps = 1" using arg_cong [OF evs(1), of length] arg_cong [OF evs(2), of length] by simp
  moreover have "map (map_option le_Message) (map (decode_log \<circ> Marshal) ps) = [Some ''a<b'']"
    unfolding evs(1) using arg_cong [OF evs(2), of "map Some"] by (simp add: comp_def)
  ultimately show ?thesis unfolding ps Let_def by (simp add: comp_def)
qed

end
