(* ===== verification/System.thy ===== *)
theory System
  imports Subscriber
begin

text \<open>
  The running agent. The goroutines that \<^verbatim>\<open>main\<close> starts share the publisher and nothing else; each is created afresh by
  its supervisor whenever it starts, and is woken up by its timers in an order nobody controls. The step relation
  \<open>sys_step\<close> interleaves the components of a configuration: one is started, one runs an iteration of its loop
  against the shared publisher, or one ends, by returning or by a panic between iterations. The locale \<open>part\<close> is what
  each kind of component has to keep for the whole to be sound.
\<close>

definition SocketDir :: bytes where
  "SocketDir = ''/var/run/postgresql''"

text \<open>A component between its start and its end.\<close>

datatype live =
    LTailer "redis run"
  | LResources "redis Resources"
  | LStorage "redis Storage"
  | LDocker "redis Docker"
  | LPostgres "(redis, Engine) Db"
  | LHeartbeat "redis Emitter"

fun with_world :: "redis \<Rightarrow> live \<Rightarrow> live" where
  "with_world w (LTailer s) = LTailer (s\<lparr>r_t := (r_t s)\<lparr>t_world := w\<rparr>\<rparr>)"
| "with_world w (LResources c) = LResources (c\<lparr>rc_world := w\<rparr>)"
| "with_world w (LStorage c) = LStorage (c\<lparr>sc_world := w\<rparr>)"
| "with_world w (LDocker c) = LDocker (c\<lparr>dk_world := w\<rparr>)"
| "with_world w (LPostgres c) = LPostgres (c\<lparr>db_world := w\<rparr>)"
| "with_world w (LHeartbeat e) = LHeartbeat (e\<lparr>em_world := w\<rparr>)"

text \<open>
  What the closures given to \<^verbatim>\<open>runSupervised\<close> do before their loop: a new component, and the readings that the
  resources, docker and postgres collectors take first and do not publish.
\<close>

record boot =
  bt_now :: time
  bt_resources :: tick_env
  bt_docker :: docker_env
  bt_postgres :: "pg_env db_env"

fun start_live :: "bytes \<Rightarrow> boot \<Rightarrow> redis \<Rightarrow> component \<Rightarrow> live" where
  "start_live sid b w (TailerOf path ch) = LTailer (run_init (bt_now b) (tailer_New path ch sid w))"
| "start_live sid b w (ResourcesEvery ch d) = LResources (primeRates (bt_resources b) (resources_New ch sid d w))"
| "start_live sid b w (StorageEvery mounts ch d) = LStorage (storage_New mounts ch sid d w)"
| "start_live sid b w (DockerEvery ch d) = LDocker (primeCPU (bt_docker b) (docker_New ch sid d w))"
| "start_live sid b w (PostgresEvery ch d) =
     LPostgres (fst (db_collect pg_Collect (bt_postgres b) (db_New ch d (engine_New sid SocketDir) w)))"
| "start_live sid b w (HeartbeatEvery ch d) = LHeartbeat (heartbeat_New sid ch d w)"

text \<open>One iteration of a component's loop: what it is then, if it has not returned, and the publisher.\<close>

datatype wake =
    WTailer env
  | WResources tick_env
  | WStorage storage_env
  | WDocker docker_fire
  | WPostgres "pg_env db_env"
  | WHeartbeat

fun wake_step :: "wake \<Rightarrow> live \<Rightarrow> (live option \<times> redis) option" where
  "wake_step (WTailer e) (LTailer s) =
     (case run_iter PublishBatch e s of
        (Continue _, s) \<Rightarrow> Some (Some (LTailer s), t_world (r_t s))
      | (Return, s) \<Rightarrow> Some (None, t_world (r_t s))
      | (Pending, _) \<Rightarrow> None)"
| "wake_step (WResources e) (LResources c) =
     (let c = resources_collect PublishBatch e c in Some (Some (LResources c), rc_world c))"
| "wake_step (WStorage e) (LStorage c) =
     (let c = storage_collect PublishBatch e c in Some (Some (LStorage c), sc_world c))"
| "wake_step (WDocker f) (LDocker c) =
     (let c = docker_step PublishBatch f c in Some (Some (LDocker c), dk_world c))"
| "wake_step (WPostgres e) (LPostgres c) =
     (let c = db_collectAndPublish PublishBatch pg_Collect PostgresEvent_json e c in Some (Some (LPostgres c), db_world c))"
| "wake_step WHeartbeat (LHeartbeat e) =
     (let e = beat PublishBatch () e in Some (Some (LHeartbeat e), em_world e))"
| "wake_step _ _ = None"

text \<open>What Go's types guarantee of an observation.\<close>

fun wake_fits :: "wake \<Rightarrow> bool" where
  "wake_fits (WResources e) = go_slice (te_stat e)"
| "wake_fits (WPostgres e) = pg_fits (db_round e)"
| "wake_fits _ = True"

record system =
  sy_redis :: redis
  sy_live :: "live option list"

definition sys_init :: "redis \<Rightarrow> component list \<Rightarrow> system" where
  "sys_init w cs = \<lparr>sy_redis = w, sy_live = map (\<lambda>_. None) cs\<rparr>"

inductive sys_step :: "bytes \<Rightarrow> component list \<Rightarrow> system \<Rightarrow> system \<Rightarrow> bool" for sid cs where
  start: "i < length (sy_live s) \<Longrightarrow> sy_live s ! i = None \<Longrightarrow>
     sys_step sid cs s (s\<lparr>sy_live := (sy_live s)[i := Some (start_live sid b (sy_redis s) (cs ! i))]\<rparr>)"
| wake: "i < length (sy_live s) \<Longrightarrow> sy_live s ! i = Some l \<Longrightarrow> wake_fits m \<Longrightarrow>
     wake_step m (with_world (sy_redis s) l) = Some (l', w') \<Longrightarrow>
     sys_step sid cs s (s\<lparr>sy_redis := w', sy_live := (sy_live s)[i := l']\<rparr>)"
| stop: "i < length (sy_live s) \<Longrightarrow> sys_step sid cs s (s\<lparr>sy_live := (sy_live s)[i := None]\<rparr>)"

abbreviation sys_steps :: "bytes \<Rightarrow> component list \<Rightarrow> system \<Rightarrow> system \<Rightarrow> bool" where
  "sys_steps sid cs \<equiv> (sys_step sid cs)\<^sup>*\<^sup>*"

section \<open>What a component keeps\<close>

text \<open>What a step adds to the wire is of this channel and server, and can be read if all before it can.\<close>

definition adds :: "bytes \<times> bytes \<Rightarrow> redis \<Rightarrow> redis \<Rightarrow> bool" where
  "adds ident w w' \<longleftrightarrow> (\<exists>ps. wire w' = wire w @ ps \<and> list_all (belongs ident) ps) \<and> (legible (wire w) \<longrightarrow> legible (wire w'))"

locale part =
  fixes step :: "'e \<Rightarrow> 's \<Rightarrow> 's"
    and world_of :: "'s \<Rightarrow> redis"
    and put :: "redis \<Rightarrow> 's \<Rightarrow> 's"
    and keeps :: "bytes \<times> bytes \<Rightarrow> 's \<Rightarrow> bool"
    and fits :: "'e \<Rightarrow> bool"
  assumes world_put: "world_of (put w s) = w"
    and keeps_put: "keeps ident s \<Longrightarrow> keeps ident (put w s)"
    and step_keeps: "fits e \<Longrightarrow> keeps ident s \<Longrightarrow> keeps ident (step e s)"
    and step_adds: "fits e \<Longrightarrow> keeps ident s \<Longrightarrow> adds ident (world_of s) (world_of (step e s))"
begin

lemma woken: "fits e \<Longrightarrow> keeps ident s \<Longrightarrow> keeps ident (step e (put w s)) \<and> adds ident w (world_of (step e (put w s)))"
  using step_keeps [of e ident "put w s"] step_adds [of e ident "put w s"] keeps_put [of ident s w] by (simp add: world_put)

end

text \<open>A collector that ticks and whose events are typed is such a part.\<close>

locale ticking_part = ticks: ticking tick "\<lambda>s. wire (world_of s)" ident_of good + types: typed_ticks tick "\<lambda>s. wire (world_of s)" fits inv
  for tick :: "'e \<Rightarrow> 's \<Rightarrow> 's" and world_of :: "'s \<Rightarrow> redis" and ident_of :: "'s \<Rightarrow> bytes \<times> bytes"
    and good :: "'e \<Rightarrow> bool" and fits :: "'e \<Rightarrow> bool" and inv :: "'s \<Rightarrow> bool" +
  fixes put :: "redis \<Rightarrow> 's \<Rightarrow> 's"
  assumes put_world: "world_of (put w s) = w"
    and put_ident: "ident_of (put w s) = ident_of s"
    and put_inv: "inv s \<Longrightarrow> inv (put w s)"

sublocale ticking_part \<subseteq> part tick world_of put "\<lambda>ident s. ident_of s = ident \<and> inv s" fits
proof
  fix e ident s
  assume fits: "fits e" and s: "ident_of s = ident \<and> inv s"
  show "ident_of (tick e s) = ident \<and> inv (tick e s)" using fits s by (simp add: ticks.tick_ident types.tick_inv)
  have "\<exists>ps. wire (world_of (tick e s)) = wire (world_of s) @ ps \<and> list_all (belongs ident) ps"
    using ticks.ticks_published [of "[e]" s] s by auto
  then show "adds ident (world_of s) (world_of (tick e s))"
    using types.tick_legible [OF fits, of s] s by (simp add: adds_def)
qed (simp_all add: put_world put_ident put_inv)

interpretation resources_part: ticking_part "resources_collect PublishBatch" rc_world "\<lambda>c. (rc_channel c, rc_serverID c)" loads_finite
  "\<lambda>e. go_slice (te_stat e)" "\<lambda>_. True" "\<lambda>w. rc_world_update (\<lambda>_. w)"
  by unfold_locales simp_all

interpretation storage_part: ticking_part "storage_collect PublishBatch" sc_world "\<lambda>c. (sc_channel c, sc_serverID c)" "\<lambda>_. True"
  "\<lambda>_. True" "\<lambda>_. True" "\<lambda>w. sc_world_update (\<lambda>_. w)"
  by unfold_locales simp_all

interpretation docker_part: ticking_part "docker_step PublishBatch" dk_world "\<lambda>c. (dk_channel c, dk_serverID c)" fires_event
  "\<lambda>_. True" docker_inv "\<lambda>w. dk_world_update (\<lambda>_. w)"
  by unfold_locales (simp_all add: docker_inv_same)

interpretation postgres_part: ticking_part "db_collectAndPublish PublishBatch pg_Collect PostgresEvent_json" db_world
  "\<lambda>c. (db_channel c, eg_serverID (db_engine c))" "publishes pg_writable" "pg_fits \<circ> db_round" "\<lambda>_. True" "\<lambda>w. db_world_update (\<lambda>_. w)"
  by unfold_locales simp_all

text \<open>The heartbeat's payload is made once, so its channel and server are in it.\<close>

definition beat_keeps :: "bytes \<times> bytes \<Rightarrow> redis Emitter \<Rightarrow> bool" where
  "beat_keeps ident e \<longleftrightarrow> belongs ident (em_channel e, em_payload e) \<and> typed 1 (em_payload e)"

interpretation heartbeat_part: part "beat PublishBatch" em_world "\<lambda>w. em_world_update (\<lambda>_. w)" beat_keeps "\<lambda>_. True"
proof
  fix u ident and s :: "redis Emitter"
  assume s: "beat_keeps ident s"
  show "beat_keeps ident (beat PublishBatch u s)" using s by (simp add: beat_keeps_def)
  have "wire (em_world (beat PublishBatch u s)) = wire (em_world s) @ [(em_channel s, em_payload s)]"
    using beats_wire [of "[u]" s] by simp
  then show "adds ident (em_world s) (em_world (beat PublishBatch u s))"
    unfolding adds_def using s beats.tick_legible [of s u] by (simp add: beat_keeps_def)
qed (simp_all add: beat_keeps_def)

text \<open>A tailer, by the log events of its batch.\<close>

definition tail_keeps :: "bytes \<times> bytes \<Rightarrow> redis run \<Rightarrow> bool" where
  "tail_keeps ident s \<longleftrightarrow> log_inv (fst ident) (snd ident) (wire (t_world (r_t s))) (r_t s)"

lemma log_inv_here: "log_inv ch sid w t \<Longrightarrow> log_inv ch sid (wire (t_world t)) t"
  by (simp add: log_inv_def)

lemma log_payload_belongs: "log_payload ch sid j \<Longrightarrow> belongs (ch, sid) (ch, j)"
  unfolding log_payload_def LogEvent_json_def by (elim exE conjE, simp only: option.inject, erule subst) (simp add: belongs_def)

interpretation tailer_part: part "\<lambda>e s. snd (run_iter PublishBatch e s)" "\<lambda>s. t_world (r_t s)"
  "\<lambda>w s. s\<lparr>r_t := (r_t s)\<lparr>t_world := w\<rparr>\<rparr>" tail_keeps "\<lambda>_. True"
proof
  fix e ident and s :: "redis run" and w :: redis
  show "tail_keeps ident (s\<lparr>r_t := (r_t s)\<lparr>t_world := w\<rparr>\<rparr>)" if "tail_keeps ident s"
    using that by (simp add: tail_keeps_def log_inv_def)
  assume s: "tail_keeps ident s"
  then have t: "log_inv (fst ident) (snd ident) (wire (t_world (r_t s))) (r_t (snd (run_iter PublishBatch e s)))"
    unfolding tail_keeps_def by (rule run_iter_log)
  then show "tail_keeps ident (snd (run_iter PublishBatch e s))" unfolding tail_keeps_def by (rule log_inv_here)
  obtain ps where ps: "wire (t_world (r_t (snd (run_iter PublishBatch e s)))) = wire (t_world (r_t s)) @ map (Pair (fst ident)) ps"
    "list_all (log_payload (fst ident) (snd ident)) ps" using t unfolding log_inv_def by blast
  have "list_all (belongs ident) (map (Pair (fst ident)) ps)"
    using ps(2) log_payload_belongs [of "fst ident" "snd ident"] by (simp add: list_all_iff)
  then show "adds ident (t_world (r_t s)) (t_world (r_t (snd (run_iter PublishBatch e s))))"
    unfolding adds_def using ps(1) log_inv_legible [OF t] by blast
qed simp

section \<open>What the agent keeps\<close>

fun live_keeps :: "bytes \<times> bytes \<Rightarrow> live \<Rightarrow> bool" where
  "live_keeps ident (LTailer s) = tail_keeps ident s"
| "live_keeps ident (LResources c) = ((rc_channel c, rc_serverID c) = ident)"
| "live_keeps ident (LStorage c) = ((sc_channel c, sc_serverID c) = ident)"
| "live_keeps ident (LDocker c) = ((dk_channel c, dk_serverID c) = ident \<and> docker_inv c)"
| "live_keeps ident (LPostgres c) = ((db_channel c, eg_serverID (db_engine c)) = ident)"
| "live_keeps ident (LHeartbeat e) = beat_keeps ident e"

lemma start_keeps: "live_keeps (channel_of c, sid) (start_live sid b w c)"
proof (cases c)
  case (TailerOf path ch)
  then show ?thesis using log_inv_New [of "tailer_New path ch sid w"]
    by (simp add: tail_keeps_def run_init_def tailer_New_def)
next
  case (ResourcesEvery ch d)
  then show ?thesis by (simp add: resources_New_def)
next
  case (DockerEvery ch d)
  then show ?thesis by (simp add: inv_intros) (simp add: docker_New_def)
next
  case (PostgresEvery ch d)
  then show ?thesis by (simp add: db_collect_def split_beta db_New_def pg_Collect_serverID engine_New_def)
next
  case (HeartbeatEvery ch d)
  then show ?thesis by (simp add: heartbeat_New_def beat_keeps_def belongs_def HeartbeatEvent_json_def)
qed (simp add: storage_New_def)

lemma wake_keeps:
  assumes "wake_step m (with_world w l) = Some (l', w')" "wake_fits m" "live_keeps ident l"
  shows "(\<forall>x. l' = Some x \<longrightarrow> live_keeps ident x) \<and> adds ident w w'"
proof (cases l)
  case (LTailer s)
  then obtain e where m: "m = WTailer e" using assms(1) by (cases m) auto
  let ?r = "run_iter PublishBatch e (s\<lparr>r_t := (r_t s)\<lparr>t_world := w\<rparr>\<rparr>)"
  have "tail_keeps ident (snd ?r) \<and> adds ident w (t_world (r_t (snd ?r)))"
    using assms(3) LTailer by (intro tailer_part.woken) simp_all
  then show ?thesis using assms(1) unfolding LTailer m by (cases ?r; cases "fst ?r") auto
next
  case (LResources c)
  then obtain e where m: "m = WResources e" using assms(1) by (cases m) auto
  show ?thesis using resources_part.woken [of e c ident w] assms unfolding LResources m by (auto simp: Let_def)
next
  case (LStorage c)
  then obtain e where m: "m = WStorage e" using assms(1) by (cases m) auto
  show ?thesis using storage_part.woken [of c ident e w] assms unfolding LStorage m by (auto simp: Let_def)
next
  case (LDocker c)
  then obtain e where m: "m = WDocker e" using assms(1) by (cases m) auto
  show ?thesis using docker_part.woken [of c ident e w] assms unfolding LDocker m by (auto simp: Let_def)
next
  case (LPostgres c)
  then obtain e where m: "m = WPostgres e" using assms(1) by (cases m) auto
  show ?thesis using postgres_part.woken [of e c ident w] assms unfolding LPostgres m by (auto simp: Let_def)
next
  case (LHeartbeat e)
  then have m: "m = WHeartbeat" using assms(1) by (cases m) auto
  show ?thesis using heartbeat_part.woken [of ident e "()" w] assms unfolding LHeartbeat m by (auto simp: Let_def)
qed

definition sys_inv :: "bytes \<Rightarrow> component list \<Rightarrow> system \<Rightarrow> bool" where
  "sys_inv sid cs s \<longleftrightarrow> length (sy_live s) = length cs
     \<and> (\<forall>i < length cs. \<forall>l. sy_live s ! i = Some l \<longrightarrow> live_keeps (channel_of (cs ! i), sid) l)
     \<and> (\<forall>p \<in> set (wire (sy_redis s)). \<exists>c \<in> set cs. belongs (channel_of c, sid) p) \<and> legible (wire (sy_redis s))"

lemma sys_inv_init: "wire w = [] \<Longrightarrow> sys_inv sid cs (sys_init w cs)"
  by (simp add: sys_inv_def sys_init_def)

lemma sys_inv_step: "sys_step sid cs s s' \<Longrightarrow> sys_inv sid cs s \<Longrightarrow> sys_inv sid cs s'"
proof (induction rule: sys_step.induct)
  case (start i s b)
  then show ?case using start_keeps by (auto simp: sys_inv_def nth_list_update)
next
  case (wake i s l m l' w')
  let ?id = "(channel_of (cs ! i), sid)"
  have i: "i < length cs" and l: "live_keeps ?id l" using wake by (auto simp: sys_inv_def)
  from wake_keeps [OF wake(4,3) l] have l': "\<And>x. l' = Some x \<Longrightarrow> live_keeps ?id x" and w: "adds ?id (sy_redis s) w'" by auto
  obtain ps where ps: "wire w' = wire (sy_redis s) @ ps" "list_all (belongs ?id) ps" "legible (wire w')"
    using w wake.prems by (auto simp: adds_def sys_inv_def)
  have "\<forall>p \<in> set (wire w'). \<exists>c \<in> set cs. belongs (channel_of c, sid) p"
    using wake.prems ps(2) nth_mem [OF i] unfolding ps(1) by (auto simp: sys_inv_def list_all_iff)
  then show ?case using wake.prems ps(3) l' i by (auto simp: sys_inv_def nth_list_update)
next
  case (stop i s)
  then show ?case by (auto simp: sys_inv_def nth_list_update)
qed

lemma sys_inv_steps: "sys_steps sid cs s s' \<Longrightarrow> sys_inv sid cs s \<Longrightarrow> sys_inv sid cs s'"
  by (induction rule: rtranclp_induct) (auto intro: sys_inv_step)

text \<open>
  C3. Whatever the agent's components do, in any interleaving and through any restarts, everything it has put
  on the wire was meant for a subscriber of one of them: on the channel of a component that the loaded
  configuration enables, with the configured server id, and as bytes that parse as JSON and from which every
  value of the event is read back. Go's types bound what is observed (\<open>wake_fits\<close>); nothing else is assumed of the server.
\<close>

theorem agent_events_readable:
  assumes "Load readFile unmarshal_yaml json_error path = Inr cfg" "main_start cfg = Inr cs" "wire w = []"
    and "sys_steps (ac_ServerID cfg) cs (sys_init w cs) s"
  shows "\<forall>(ch, j) \<in> set (wire (sy_redis s)). ch \<noteq> [] \<and> (\<exists>c \<in> set cs. channel_of c = ch)
     \<and> ac_ServerID cfg \<noteq> [] \<and> obj_field j ''serverId'' = Some (JStr (ac_ServerID cfg))
     \<and> (\<exists>v. json_parse (Marshal j) = Some v \<and> reads j v)"
proof -
  have inv: "sys_inv (ac_ServerID cfg) cs s" using sys_inv_steps [OF assms(4)] sys_inv_init [OF assms(3)] by blast
  have ch: "\<forall>c \<in> set cs. channel_of c \<noteq> []" using loaded_start [OF assms(1,2)] by blast
  have sid: "ac_ServerID cfg \<noteq> []" using Load_good(1) [OF assms(1)] by (simp add: good_config_def)
  show ?thesis
  proof (clarify, intro conjI)
    fix ch j
    assume p: "(ch, j) \<in> set (wire (sy_redis s))"
    then obtain c where c: "c \<in> set cs" "belongs (channel_of c, ac_ServerID cfg) (ch, j)" using inv unfolding sys_inv_def by blast
    then show "ch \<noteq> []" "\<exists>c \<in> set cs. channel_of c = ch" using ch by (auto simp: belongs_def)
    show "ac_ServerID cfg \<noteq> []" by (rule sid)
    show "obj_field j ''serverId'' = Some (JStr (ac_ServerID cfg))" using c(2) by (simp add: belongs_def)
    show "\<exists>v. json_parse (Marshal j) = Some v \<and> reads j v" using inv p unfolding sys_inv_def legible_def by blast
  qed
qed

theorem agent_events_readable_witness:
  "\<exists>cs s. main_start (applyDefaults example_config) = Inr cs \<and> sys_steps ''srv'' cs (sys_init example_redis cs) s
     \<and> length (wire (sy_redis s)) = 1
     \<and> (\<forall>(ch, j) \<in> set (wire (sy_redis s)). ch \<noteq> [] \<and> (\<exists>v. json_parse (Marshal j) = Some v \<and> reads j v))"
proof -
  let ?c = "applyDefaults example_config" and ?beat = "HeartbeatEvery DefaultHeartbeatChannel (10 * second)"
  let ?cs = "[?beat]"
  have cs: "main_start ?c = Inr ?cs"
    using default_interval_parses
    by (simp add: main_start_def parse_interval_def components_def IsEnabled_def applyDefaults_def Let_def example_config_def)
  have sid: "ac_ServerID ?c = ''srv''" by (simp add: applyDefaults_def Let_def example_config_def)
  have w: "wire example_redis = []" by (simp add: example_redis_def redis_New_def)
  let ?l = "LHeartbeat (heartbeat_New ''srv'' DefaultHeartbeatChannel (10 * second) example_redis)"
  let ?up = "\<lparr>sy_redis = example_redis, sy_live = [Some ?l]\<rparr>"
  have "sys_step ''srv'' ?cs (sys_init example_redis ?cs) ?up"
    using sys_step.start [of 0 "sys_init example_redis ?cs" "''srv''" ?cs] by (simp add: sys_init_def)
  moreover obtain l' w' where wk: "wake_step WHeartbeat ?l = Some (l', w')" "length (wire w') = 1"
    using beats_wire [of "[()]" "heartbeat_New ''srv'' DefaultHeartbeatChannel (10 * second) example_redis"] w
    by (simp add: Let_def heartbeat_New_def)
  moreover have "with_world example_redis ?l = ?l" by (simp add: heartbeat_New_def)
  ultimately have steps: "sys_steps ''srv'' ?cs (sys_init example_redis ?cs) (?up\<lparr>sy_redis := w', sy_live := [l']\<rparr>)"
    using sys_step.wake [of 0 ?up ?l WHeartbeat l' w' "''srv''" ?cs] by (simp add: converse_rtranclp_into_rtranclp)
  have "\<forall>(ch, j) \<in> set (wire w'). ch \<noteq> [] \<and> (\<exists>v. json_parse (Marshal j) = Some v \<and> reads j v)"
    using agent_events_readable [OF example_config_loads cs w, unfolded sid, OF steps] by auto
  then show ?thesis using cs steps wk(2)
    by (intro exI [of _ ?cs] exI [of _ "?up\<lparr>sy_redis := w', sy_live := [l']\<rparr>"]) simp
qed

end
