(* ===== verification/PgParts.thy ===== *)
theory PgParts
  imports PgEngine
begin

text \<open>
  What a round of the Postgres engine publishes, stated from the driver's answers alone: a specification of every part of the
  event, independent of the engine's own functions, and the proof that each part of the event is what its own answers
  stand for, whether the other parts could be read or not.
\<close>

section \<open>What the answers stand for\<close>

text \<open>
  Connecting: up to \<open>tries + 1\<close> attempts, \<open>n\<close> made before in the round, another one only after a refusal for too many
  connections and while the round's time lasts. The result is the error, if any, and the attempts made by then.
\<close>

fun dial :: "pg_env \<Rightarrow> nat \<Rightarrow> nat \<Rightarrow> pg_error option \<times> nat" where
  "dial e 0 n = (pq_connect e n, Suc n)"
| "dial e (Suc tries) n =
     (case pq_connect e n of
        None \<Rightarrow> (None, Suc n)
      | Some x \<Rightarrow> if IsTooManyConnections x \<and> \<not> pq_waitDone e n then dial e tries (Suc n) else (Some x, Suc n))"

text \<open>How the session to each database goes, one after the other; none is asked for where connections are not allowed.\<close>

fun dials :: "pg_env \<Rightarrow> DatabaseRow list \<Rightarrow> nat \<Rightarrow> pg_error option list" where
  "dials e [] n = []"
| "dials e (row # rows) n =
     (if dr_AllowConn row then fst (dial e 2 n) # dials e rows (snd (dial e 2 n)) else None # dials e rows n)"

text \<open>The text published for a failure; once the round's time is over it reads as timed out.\<close>

definition failure_text :: "pg_env \<Rightarrow> bytes \<Rightarrow> pg_error \<Rightarrow> bytes" where
  "failure_text e key x = (if pq_expired e key \<or> er_deadline x \<or> er_timeout x then ''timed out'' else er_text x)"

text \<open>How a server-wide part failed, if it did. Connections and replication ask two queries each.\<close>

definition event_failure :: "pg_env \<Rightarrow> bytes \<Rightarrow> pg_error option" where
  "event_failure e part =
     (if part = ''server'' then err_of (pq_server e)
      else if part = ''connections'' then (case pq_maxConnections e of Inl x \<Rightarrow> Some x | Inr _ \<Rightarrow> err_of (pq_connections e))
      else if part = ''longRunning'' then err_of (pq_longRunning e)
      else if part = ''blocked'' then err_of (pq_blocked e)
      else if part = ''replication'' then
        (case (pq_replicas e, pq_server e) of
           (Inl x, _) \<Rightarrow> Some x
         | (Inr _, Inr sv) \<Rightarrow> if sv_InRecovery sv then err_of (pq_replay e) else None
         | (Inr _, Inl _) \<Rightarrow> None)
      else if part = ''databases'' then err_of (pq_databases e)
      else if part = ''sizes'' then err_of (pq_sizes e) else None)"

definition server_published :: "pg_env \<Rightarrow> PostgresEvent \<Rightarrow> bool" where
  "server_published e ev \<longleftrightarrow>
     (case pq_server e of
        Inl _ \<Rightarrow> pe_StartedAt ev = [] \<and> pe_UptimeSeconds ev = None \<and> pe_Role ev = []
      | Inr sv \<Rightarrow> pe_StartedAt ev = FormatEpoch (sv_StartedEpoch sv)
          \<and> pe_UptimeSeconds ev = Some (pg_UptimeSeconds (sv_StartedEpoch sv) (pq_now e))
          \<and> pe_Role ev = (if sv_InRecovery sv then ''replica'' else ''primary''))"

definition connections_published :: "pg_env \<Rightarrow> PostgresEvent \<Rightarrow> bool" where
  "connections_published e ev \<longleftrightarrow>
     (case (pq_maxConnections e, pq_connections e) of
        (Inr n, Inr rows) \<Rightarrow>
          (\<exists>c. pe_Connections ev = Some c \<and> pc_Max c = n \<and> pc_Used c = wrap_int64 (sum_list (map sr_Count rows))
             \<and> map_of (pc_ByState c) = map_of (rev (map (\<lambda>r. (sr_State r, sr_Count r)) rows)))
      | _ \<Rightarrow> pe_Connections ev = None)"

definition sessions_published :: "pg_env \<Rightarrow> PostgresEvent \<Rightarrow> bool" where
  "sessions_published e ev \<longleftrightarrow>
     pe_LongRunning ev = (case pq_longRunning e of Inl _ \<Rightarrow> [] | Inr rows \<Rightarrow>
       map (\<lambda>r. \<lparr>ps_PID = sn_PID r, ps_Database = sn_Database r, ps_User = sn_User r, ps_Application = sn_Application r,
         ps_State = sn_State r, ps_QuerySeconds = sn_QuerySeconds r, ps_TransactionSeconds = sn_TransactionSeconds r\<rparr>) rows)
     \<and> pe_Blocked ev = (case pq_blocked e of Inl _ \<Rightarrow> [] | Inr rows \<Rightarrow>
       map (\<lambda>r. \<lparr>pb_PID = bl_PID r, pb_Database = bl_Database r, pb_User = bl_User r, pb_Application = bl_Application r,
         pb_QuerySeconds = bl_QuerySeconds r, pb_BlockedBy = bl_BlockedBy r\<rparr>) rows)"

definition replication_published :: "pg_env \<Rightarrow> PostgresEvent \<Rightarrow> bool" where
  "replication_published e ev \<longleftrightarrow>
     (case (event_failure e ''replication'', pq_replicas e) of
        (None, Inr rows) \<Rightarrow>
          pe_Replicas ev = map (\<lambda>r. \<lparr>pr_Application = rp_Application r,
            pr_ClientAddr = (case rp_ClientAddr r of None \<Rightarrow> [] | Some a \<Rightarrow> a), pr_State = rp_State r,
            pr_ReplayLagSeconds = rp_ReplayLagSeconds r, pr_ReplayLagBytes = rp_ReplayLagBytes r\<rparr>) rows
          \<and> (case (pq_server e, pq_replay e) of
               (Inr sv, Inr y) \<Rightarrow> if sv_InRecovery sv
                 then pe_ReplayDelaySeconds ev = ry_DelaySeconds y \<and> pe_UnreplayedBytes ev = ry_UnreplayedBytes y
                 else pe_ReplayDelaySeconds ev = None \<and> pe_UnreplayedBytes ev = None
             | _ \<Rightarrow> pe_ReplayDelaySeconds ev = None \<and> pe_UnreplayedBytes ev = None)
      | _ \<Rightarrow> pe_Replicas ev = [] \<and> pe_ReplayDelaySeconds ev = None \<and> pe_UnreplayedBytes ev = None)"

text \<open>The errors of one database's entry: \<open>conn\<close> is how the session to it went.\<close>

definition database_failure :: "pg_env \<Rightarrow> DatabaseRow \<Rightarrow> pg_error option \<Rightarrow> bytes \<Rightarrow> bytes option" where
  "database_failure e row conn part =
     (let text = failure_text e (''db/'' @ dr_Name row @ ''/'' @ part)
      in if \<not> dr_AllowConn row then (if part = ''connect'' then Some ''database does not allow connections'' else None)
         else case conn of
           Some x \<Rightarrow> if part = ''connect'' then Some (text x) else None
         | None \<Rightarrow>
             if part = ''largestTables'' then map_option text (err_of (pq_largest e (dr_Name row)))
             else if part = ''deadTuples'' then map_option text (err_of (pq_dead e (dr_Name row))) else None)"

definition sample_of :: "pg_env \<Rightarrow> DatabaseRow \<Rightarrow> pg_Sample option" where
  "sample_of e row =
     (case (pq_server e, ParseCounters row) of
        (Inr sv, Some c) \<Rightarrow> Some \<lparr>sp_Counters = c, sp_At = pq_readAt e, sp_StartedAt = sv_StartedEpoch sv\<rparr>
      | _ \<Rightarrow> None)"

definition database_published ::
  "pg_env \<Rightarrow> (bytes \<rightharpoonup> pg_Sample) \<Rightarrow> DatabaseRow \<Rightarrow> pg_error option \<Rightarrow> PostgresDatabase \<Rightarrow> bool" where
  "database_published e prevs row conn d \<longleftrightarrow>
     da_Name d = dr_Name row \<and> da_XIDAge d = dr_XIDAge row
     \<and> da_SizeBytes d = (case pq_sizes e of Inl _ \<Rightarrow> None
         | Inr rows \<Rightarrow> Option.bind (map_of (rev (map (\<lambda>r. (sz_Name r, sz_Bytes r)) rows)) (dr_Name row)) id)
     \<and> (case (sample_of e row, prevs (dr_Name row)) of
          (Some cur, Some prev) \<Rightarrow>
            da_Activity d = Diff prev cur
            \<and> da_CacheHitPercent d = (if Diff prev cur = None then None else CacheHitPercent (sp_Counters prev) (sp_Counters cur))
        | _ \<Rightarrow> da_Activity d = None \<and> da_CacheHitPercent d = None)
     \<and> da_LargestTables d = (case pq_largest e (dr_Name row) of Inl _ \<Rightarrow> []
         | Inr rows \<Rightarrow> if dr_AllowConn row \<and> conn = None
             then map (\<lambda>t. \<lparr>pt_Schema = ts_Schema t, pt_Table = ts_Table t, pt_TotalBytes = ts_Bytes t\<rparr>) rows else [])
     \<and> da_DeadTuples d = (case pq_dead e (dr_Name row) of Inl _ \<Rightarrow> []
         | Inr rows \<Rightarrow> if dr_AllowConn row \<and> conn = None
             then map (\<lambda>t. \<lparr>pd_Schema = dt_Schema t, pd_Table = dt_Table t, pd_LiveTuples = dt_Live t, pd_DeadTuples = dt_Dead t,
               pd_LastAutovacuum = (case dt_LastAutovacuumEpoch t of None \<Rightarrow> [] | Some ep \<Rightarrow> FormatEpoch ep)\<rparr>) rows else [])
     \<and> (\<forall>part. map_of (da_Errors d) part = database_failure e row conn part)"

section \<open>Connecting\<close>

lemma connect_from_dial:
  "(snd (connect_from e db tries s), eg_attempts (fst (connect_from e db tries s))) = dial e tries (eg_attempts s)"
proof (induction tries arbitrary: s)
  case 0
  show ?case by (subst (1 2) connect_from.simps) (simp add: Let_def split: option.split)
next
  case (Suc tries)
  show ?case
  proof (cases "pq_connect e (eg_attempts s)")
    case None
    then show ?thesis by (subst (1 2) connect_from.simps) (simp add: Let_def)
  next
    case (Some x)
    then show ?thesis
      using Suc.IH [of "call (Refused (session_config (eg_socketDir s) db)) (s\<lparr>eg_attempts := Suc (eg_attempts s)\<rparr>)"]
      by (subst (1 2) connect_from.simps) (auto simp: Let_def)
  qed
qed

lemma connect_dial: "connect e db s = (s', r) \<Longrightarrow> dial e 2 (eg_attempts s) = (r, eg_attempts s')"
  using connect_from_dial [of e db "connectAttempts - 1" s] by (simp add: connect_def connectAttempts_def)

lemma main_error_dial: "main_error e = fst (dial e 2 0)"
  using connect_dial [of e maintenanceDB "engine_New [] []"]
  by (cases "connect e maintenanceDB (engine_New [] [])") (simp add: main_error_def engine_New_def)

text \<open>Nothing but connecting counts an attempt.\<close>

lemma event_ok_attempts [simp]: "eg_attempts (fst (event_ok e part err acc)) = eg_attempts (fst acc)"
  by (cases acc) (simp add: event_ok_eq)

lemma apfst_call_attempts [simp]: "eg_attempts (fst (apfst (call c) acc)) = eg_attempts (fst acc)"
  by (cases acc) simp

lemma reads_attempts [simp]:
  "eg_attempts (fst (readConnections e s)) = eg_attempts s" "eg_attempts (fst (replication_reads e replica s)) = eg_attempts s"
  by (simp_all add: readConnections_alt replication_reads_alt Let_def split: sum.split)

lemma parts_attempts [simp]:
  "eg_attempts (fst (collect_server e acc)) = eg_attempts (fst acc)" "eg_attempts (fst (collect_connections e acc)) = eg_attempts (fst acc)"
  "eg_attempts (fst (collect_longRunning e acc)) = eg_attempts (fst acc)" "eg_attempts (fst (collect_blocked e acc)) = eg_attempts (fst acc)"
  "eg_attempts (fst (readReplication e replica acc)) = eg_attempts (fst acc)"
  "eg_attempts (fst (before_databases e acc)) = eg_attempts (fst acc)"
  by (simp_all add: collect_server_alt collect_connections_def collect_longRunning_alt collect_blocked_alt readReplication_def
      before_databases_def split_beta split: sum.split)

lemma connected_engine_attempts: "eg_attempts (connected_engine e s) = snd (dial e 2 0)"
  using connect_dial [of e maintenanceDB "s\<lparr>eg_seen := [], eg_attempts := 0\<rparr>"]
  by (cases "connect e maintenanceDB (s\<lparr>eg_seen := [], eg_attempts := 0\<rparr>)") (simp add: connected_engine_def before_round_def)

section \<open>The databases\<close>

lemma failure_text_eq: "part_error e key x = failure_text e key x"
  by (simp add: part_error_def failure_text_def ErrorText_def pg_errTimedOut_def)

lemma database_entry_published:
  assumes "d = database_entry e (sizes_of e) (started_at e) prevs row"
  shows "da_Name d = dr_Name row" "da_XIDAge d = dr_XIDAge row" "da_LargestTables d = []" "da_DeadTuples d = []" "da_Errors d = []"
    and "da_SizeBytes d = (case pq_sizes e of Inl _ \<Rightarrow> None
         | Inr rows \<Rightarrow> Option.bind (map_of (rev (map (\<lambda>r. (sz_Name r, sz_Bytes r)) rows)) (dr_Name row)) id)"
    and "case (sample_of e row, prevs (dr_Name row)) of
          (Some cur, Some prev) \<Rightarrow>
            da_Activity d = Diff prev cur
            \<and> da_CacheHitPercent d = (if Diff prev cur = None then None else CacheHitPercent (sp_Counters prev) (sp_Counters cur))
        | _ \<Rightarrow> da_Activity d = None \<and> da_CacheHitPercent d = None"
proof -
  have s: "row_sample e (started_at e) row = sample_of e row"
    by (simp add: row_sample_def sample_of_def started_at_def split: sum.split option.split)
  show "da_Name d = dr_Name row" "da_XIDAge d = dr_XIDAge row" "da_LargestTables d = []" "da_DeadTuples d = []" "da_Errors d = []"
    by (simp_all add: assms database_entry_def with_activity_def Let_def split: option.split)
  show "da_SizeBytes d = (case pq_sizes e of Inl _ \<Rightarrow> None
         | Inr rows \<Rightarrow> Option.bind (map_of (rev (map (\<lambda>r. (sz_Name r, sz_Bytes r)) rows)) (dr_Name row)) id)"
    by (simp add: assms database_entry_fields sizes_of_def size_map_def split: sum.split option.split)
  show "case (sample_of e row, prevs (dr_Name row)) of
          (Some cur, Some prev) \<Rightarrow>
            da_Activity d = Diff prev cur
            \<and> da_CacheHitPercent d = (if Diff prev cur = None then None else CacheHitPercent (sp_Counters prev) (sp_Counters cur))
        | _ \<Rightarrow> da_Activity d = None \<and> da_CacheHitPercent d = None"
    by (simp add: assms database_entry_def s with_activity_def Let_def split: option.split)
qed

lemma published_entry:
  assumes "lt = (case pq_largest e (dr_Name row) of Inl _ \<Rightarrow> []
      | Inr rows \<Rightarrow> if dr_AllowConn row \<and> conn = None then map to_table_size rows else [])"
    and "dt = (case pq_dead e (dr_Name row) of Inl _ \<Rightarrow> []
      | Inr rows \<Rightarrow> if dr_AllowConn row \<and> conn = None then map to_dead_tuples rows else [])"
    and "\<And>part. map_of er part = database_failure e row conn part"
  shows "database_published e prevs row conn ((database_entry e (sizes_of e) (started_at e) prevs row)
     \<lparr>da_LargestTables := lt, da_DeadTuples := dt, da_Errors := er\<rparr>)"
proof -
  let ?b = "database_entry e (sizes_of e) (started_at e) prevs row"
  let ?d = "?b\<lparr>da_LargestTables := lt, da_DeadTuples := dt, da_Errors := er\<rparr>"
  have d: "da_Name ?d = da_Name ?b" "da_XIDAge ?d = da_XIDAge ?b" "da_SizeBytes ?d = da_SizeBytes ?b" "da_Activity ?d = da_Activity ?b"
    "da_CacheHitPercent ?d = da_CacheHitPercent ?b" "da_LargestTables ?d = lt" "da_DeadTuples ?d = dt" "da_Errors ?d = er" by simp_all
  show ?thesis
    unfolding database_published_def d
    by (intro conjI allI database_entry_published [OF refl] assms [unfolded to_table_size_def [abs_def] to_dead_tuples_def [abs_def]])
qed

lemma readTables_published:
  assumes "readTables e row (s, database_entry e (sizes_of e) (started_at e) (eg_prev s) row) = (s', d)"
  shows "database_published e (eg_prev s) row (if dr_AllowConn row then fst (dial e 2 (eg_attempts s)) else None) d"
    and "eg_attempts s' = (if dr_AllowConn row then snd (dial e 2 (eg_attempts s)) else eg_attempts s)"
    and "eg_prev s' = eg_prev s"
proof -
  let ?b = "database_entry e (sizes_of e) (started_at e) (eg_prev s) row"
  let ?conn = "if dr_AllowConn row then fst (dial e 2 (eg_attempts s)) else None"
  have b: "da_LargestTables ?b = []" "da_DeadTuples ?b = []" "da_Errors ?b = []" by (rule database_entry_published [OF refl])+
  have fill: "?b\<lparr>da_Errors := er\<rparr> = ?b\<lparr>da_LargestTables := [], da_DeadTuples := [], da_Errors := er\<rparr>" for er
    using b by (cases ?b) simp
  show "eg_prev s' = eg_prev s" using readTables_keeps(4) [of e row s ?b] assms by simp
  have "database_published e (eg_prev s) row ?conn d
      \<and> eg_attempts s' = (if dr_AllowConn row then snd (dial e 2 (eg_attempts s)) else eg_attempts s)"
  proof (cases rule: readTables_cases [where row = row and e = e and s = s])
    case no_conn
    then have r: "s' = s" "d = ?b\<lparr>da_Errors := [(''connect'', errNoConnections)]\<rparr>"
      using assms b(3) by (auto simp: readTables_no_conn map_put_def)
    show ?thesis unfolding r fill
      by (rule conjI, rule published_entry)
        (simp_all add: no_conn database_failure_def errNoConnections_def Let_def split: sum.split)
  next
    case (refused s1 x)
    then have r: "s' = note_ok (db_key row @ ''connect'') False s1"
      "d = ?b\<lparr>da_Errors := [(''connect'', failure_text e (db_key row @ ''connect'') x)]\<rparr>"
      using assms b(3) by (auto simp: readTables_refused put_error_def map_put_def failure_text_eq)
    show ?thesis unfolding r fill using connect_dial [OF refused(2)]
      by (intro conjI published_entry) (simp_all add: refused(1) database_failure_def db_key_def Let_def split: sum.split)
  next
    case (read s1)
    have r: "s' = tables_engine e row s1"
      "d = ?b\<lparr>da_LargestTables := (case pq_largest e (dr_Name row) of Inl _ \<Rightarrow> [] | Inr rows \<Rightarrow> map to_table_size rows),
          da_DeadTuples := (case pq_dead e (dr_Name row) of Inl _ \<Rightarrow> [] | Inr rows \<Rightarrow> map to_dead_tuples rows),
          da_Errors := put_error e ''deadTuples'' (db_key row @ ''deadTuples'') (err_of (pq_dead e (dr_Name row)))
            (put_error e ''largestTables'' (db_key row @ ''largestTables'') (err_of (pq_largest e (dr_Name row))) [])\<rparr>"
      using assms readTables_read [OF read, of ?b] b by simp_all
    show ?thesis unfolding r using connect_dial [OF read(2)]
      by (intro conjI published_entry)
        (simp_all add: read(1) database_failure_def put_error_lookup failure_text_eq db_key_def tables_engine_def Let_def err_of_def
          split: sum.split)
  qed
  then show "database_published e (eg_prev s) row ?conn d"
    "eg_attempts s' = (if dr_AllowConn row then snd (dial e 2 (eg_attempts s)) else eg_attempts s)" by blast+
qed

lemma database_loop_published:
  "list_all2 (\<lambda>(row, conn) d. database_published e (eg_prev s) row conn d) (zip rows (dials e rows (eg_attempts s)))
     (snd (snd (database_loop e (sizes_of e) (started_at e) rows nxt s)))"
proof (induction rows arbitrary: nxt s)
  case (Cons row rows)
  let ?r = "readTables e row (s, database_entry e (sizes_of e) (started_at e) (eg_prev s) row)"
  obtain s' d where r: "?r = (s', d)" by (cases ?r)
  show ?case using readTables_published [OF r] Cons.IH [of s'] by (cases "dr_AllowConn row") (simp_all add: Let_def split_beta r)
qed simp

section \<open>The server-wide parts\<close>

lemma wrap_int64_add: "wrap_int64 (wrap_int64 a + b) = wrap_int64 (a + b)"
  unfolding wrap_int64_def by (simp add: mod_simps algebra_simps)

lemma fold_count_state:
  "pc_Max (fold count_state rows c) = pc_Max c"
  "pc_Used c = wrap_int64 a \<Longrightarrow> pc_Used (fold count_state rows c) = wrap_int64 (a + sum_list (map sr_Count rows))"
  "map_of (pc_ByState (fold count_state rows c)) = map_of (pc_ByState c) ++ map_of (rev (map (\<lambda>r. (sr_State r, sr_Count r)) rows))"
proof -
  show "pc_Max (fold count_state rows c) = pc_Max c"
    by (induction rows arbitrary: c) (simp_all add: count_state_def)
  show "pc_Used c = wrap_int64 a \<Longrightarrow> pc_Used (fold count_state rows c) = wrap_int64 (a + sum_list (map sr_Count rows))"
  proof (induction rows arbitrary: c a)
    case (Cons r rows)
    have "pc_Used (count_state r c) = wrap_int64 (a + sr_Count r)" using Cons.prems by (simp add: count_state_def wrap_int64_add)
    from Cons.IH [OF this] show ?case by (simp add: algebra_simps)
  qed simp
  show "map_of (pc_ByState (fold count_state rows c)) = map_of (pc_ByState c) ++ map_of (rev (map (\<lambda>r. (sr_State r, sr_Count r)) rows))"
  proof (induction rows arbitrary: c)
    case (Cons r rows)
    then show ?case by (simp add: count_state_def map_add_def fun_eq_iff split: option.split)
  qed simp
qed

lemma event_failure_eq: "event_failure e part = part_failure e part"
  by (simp add: event_failure_def part_failure_def connection_reads_def replica_reads_def readConnections_alt
      replication_reads_alt in_recovery_def Let_def split: sum.split)

lemma round_event_published:
  assumes "pe_StartedAt ev = pe_StartedAt (round_event e s)" "pe_UptimeSeconds ev = pe_UptimeSeconds (round_event e s)"
    "pe_Role ev = pe_Role (round_event e s)" "pe_Connections ev = pe_Connections (round_event e s)"
    "pe_LongRunning ev = pe_LongRunning (round_event e s)" "pe_Blocked ev = pe_Blocked (round_event e s)"
    "pe_Replicas ev = pe_Replicas (round_event e s)" "pe_ReplayDelaySeconds ev = pe_ReplayDelaySeconds (round_event e s)"
    "pe_UnreplayedBytes ev = pe_UnreplayedBytes (round_event e s)"
  shows "server_published e ev" "connections_published e ev" "sessions_published e ev" "replication_published e ev"
proof -
  show "server_published e ev"
    using assms(1-3) by (simp add: server_published_def round_event_def split: sum.split)
  have "connection_reads e = (case (pq_maxConnections e, pq_connections e) of (Inr n, Inr rows) \<Rightarrow>
      Inr (fold count_state rows \<lparr>pc_Max = n, pc_Used = 0, pc_ByState = []\<rparr>) | (Inl x, _) \<Rightarrow> Inl x | (Inr _, Inl x) \<Rightarrow> Inl x)"
    by (simp add: connection_reads_def readConnections_alt Let_def split: sum.split)
  then show "connections_published e ev"
    using assms(4) fold_count_state(2) [of "\<lparr>pc_Max = n, pc_Used = 0, pc_ByState = []\<rparr>" 0 for n]
    by (simp add: connections_published_def round_event_def fold_count_state wrap_int64_id split: sum.split)
  show "sessions_published e ev"
    using assms(5,6) by (simp add: sessions_published_def round_event_def sessions_def blocked_def Pids_def split: sum.split)
  show "replication_published e ev"
    using assms(7-9)
    by (simp add: replication_published_def event_failure_def round_event_def replica_reads_def replication_reads_alt to_replica_def
        in_recovery_def Let_def split: sum.split)
qed

section \<open>Property\<close>

text \<open>
  C24. Every part of the event stands by itself. When the agent cannot connect, having tried at most three times, the event says whether
  Postgres is up (it answered, with anything but that it cannot serve now) and why, and carries nothing
  else. When it can, exactly the parts that could not be read are named in the errors, each with its own
  text, or as timed out when the round's time had run out; and whatever could be read is published, the
  other parts failing or not: the server, its connections, the sessions, the replicas and the replay delay, and for each database, in the
  order listed, its age, its size, its activity, its tables and dead tuples where a session to it could be
  had, and its own errors.
\<close>

theorem pg_parts_fail_alone:
  "let ev = snd (pg_Collect e s)
   in case dial e 2 0 of
        (Some x, _) \<Rightarrow>
          ev = \<lparr>pe_ServerID = eg_serverID s, pe_Timestamp = pq_stamp e,
            pe_Up = (case er_pg x of None \<Rightarrow> False | Some (code, _) \<Rightarrow> code \<noteq> ''57P03''),
            pe_Error = (case er_pg x of
                None \<Rightarrow> if er_deadline x \<or> er_timeout x then ''timed out'' else er_text x
              | Some (_, msg) \<Rightarrow> msg),
            pe_StartedAt = [], pe_UptimeSeconds = None, pe_Role = [], pe_Connections = None, pe_LongRunning = [], pe_Blocked = [],
            pe_Replicas = [], pe_ReplayDelaySeconds = None, pe_UnreplayedBytes = None, pe_Databases = [], pe_Errors = []\<rparr>
      | (None, n) \<Rightarrow>
          pe_ServerID ev = eg_serverID s \<and> pe_Timestamp ev = pq_stamp e \<and> pe_Up ev \<and> pe_Error ev = []
          \<and> (\<forall>part. map_of (pe_Errors ev) part = map_option (failure_text e part) (event_failure e part))
          \<and> server_published e ev \<and> connections_published e ev \<and> sessions_published e ev \<and> replication_published e ev
          \<and> (case pq_databases e of
               Inl _ \<Rightarrow> pe_Databases ev = []
             | Inr rows \<Rightarrow> list_all2 (\<lambda>(row, conn) d. database_published e (eg_prev s) row conn d)
                 (zip rows (dials e rows n)) (pe_Databases ev))"
proof (cases "dial e 2 0")
  case (Pair r n)
  show ?thesis
  proof (cases r)
    case (Some x)
    then have "main_error e = Some x" using Pair by (simp add: main_error_dial)
    then show ?thesis
      by (simp add: Pair Some pg_Collect_event ConnectFailure_def codeCannotConnectNow_def ErrorText_def pg_errTimedOut_def
          empty_event_def Let_def split: option.split)
  next
    case None
    define ev where "ev = snd (pg_Collect e s)"
    have "main_error e = None" using Pair None by (simp add: main_error_dial)
    then have ev: "ev = (round_event e s)\<lparr>pe_Databases := (case pq_databases e of Inl _ \<Rightarrow> []
        | Inr rows \<Rightarrow> snd (databases e (sizes_of e) (started_at e) rows (connected_engine e s)))\<rparr>"
      by (simp add: ev_def pg_Collect_event)
    have "list_all2 (\<lambda>(row, conn) d. database_published e (eg_prev s) row conn d) (zip rows (dials e rows n))
        (snd (databases e (sizes_of e) (started_at e) rows (connected_engine e s)))" for rows
      using database_loop_published [of e "connected_engine e s" rows Map.empty] Pair
      by (simp add: databases_def split_beta connected_engine_attempts connected_engine_kept)
    then have dbs: "case pq_databases e of Inl _ \<Rightarrow> pe_Databases ev = []
        | Inr rows \<Rightarrow> list_all2 (\<lambda>(row, conn) d. database_published e (eg_prev s) row conn d) (zip rows (dials e rows n)) (pe_Databases ev)"
      by (simp add: ev split: sum.split)
    have errs: "map_of (pe_Errors ev) part = map_option (failure_text e part) (event_failure e part)" for part
      using round_errors_lookup [of e part] by (simp add: ev round_event_def event_failure_eq failure_text_eq [abs_def])
    have "pe_ServerID ev = eg_serverID s \<and> pe_Timestamp ev = pq_stamp e \<and> pe_Up ev \<and> pe_Error ev = []"
      by (simp add: ev round_event_def empty_event_def)
    moreover have "server_published e ev" "connections_published e ev" "sessions_published e ev" "replication_published e ev"
      by (rule round_event_published [where s = s]; simp add: ev)+
    ultimately show ?thesis using dbs errs unfolding Let_def ev_def [symmetric] Pair None by simp
  qed
qed

end
