(* ===== verification/RedisClient.thy ===== *)
theory RedisClient
  imports Agent
begin

text \<open>
  The life of the Redis client: \<^verbatim>\<open>New\<close> and \<^verbatim>\<open>Close\<close> of \<^verbatim>\<open>src/redis/publisher.go\<close> and the calls of \<^verbatim>\<open>src/main.go\<close> to them. The
  client library is third-party code; what is kept is the sequence of the calls made to it, with what each attempt's
  \<^verbatim>\<open>PING\<close> answers as an input. The publishes in between are those of \<open>RedisPublisher\<close>.
\<close>

definition redis_dialTimeout :: duration where
  "redis_dialTimeout = 5 * second"

definition rwTimeout :: duration where
  "rwTimeout = 3 * second"

record redis_Options =
  ro_Addr :: bytes
  ro_Password :: bytes
  ro_DB :: int
  ro_DialTimeout :: duration
  ro_ReadTimeout :: duration
  ro_WriteTimeout :: duration

datatype redis_call = NewClient redis_Options | Ping duration | CloseClient

definition redis_options :: "bytes \<Rightarrow> bytes \<Rightarrow> int \<Rightarrow> redis_Options" where
  "redis_options addr password db =
     \<lparr>ro_Addr = addr, ro_Password = password, ro_DB = db, ro_DialTimeout = redis_dialTimeout,
      ro_ReadTimeout = rwTimeout, ro_WriteTimeout = rwTimeout\<rparr>"

text \<open>
  \<^verbatim>\<open>New\<close>, with the calls it makes. The publisher it returns has the server's replies and the clock as its inputs.
\<close>

definition redis_dial ::
  "(nat \<Rightarrow> bytes + int) \<Rightarrow> (nat \<Rightarrow> time) \<Rightarrow> bytes \<Rightarrow> bytes \<Rightarrow> int \<Rightarrow> bytes option \<Rightarrow> redis_call list \<times> (bytes + redis)" where
  "redis_dial rep clk addr password db ping =
     (let calls = [NewClient (redis_options addr password db), Ping redis_dialTimeout]
      in case ping of
           Some err \<Rightarrow> (calls @ [CloseClient], Inl err)
         | None \<Rightarrow> (calls, Inr (redis_New rep clk)))"

definition redis_Close :: "redis_call list" where
  "redis_Close = [CloseClient]"

text \<open>The loop of \<^verbatim>\<open>main\<close> around it; \<open>None\<close> while no attempt has succeeded.\<close>

fun redis_connect ::
  "(nat \<Rightarrow> bytes + int) \<Rightarrow> (nat \<Rightarrow> time) \<Rightarrow> RedisConfig \<Rightarrow> (duration \<times> bytes option) list \<Rightarrow> redis_call list \<times> redis option" where
  "redis_connect rep clk cfg [] = ([], None)"
| "redis_connect rep clk cfg ((took, ping) # pings) =
     (case redis_dial rep clk (rd_Addr cfg) (rd_Password cfg) (rd_DB cfg) ping of
        (calls, Inr p) \<Rightarrow> (calls, Some p)
      | (calls, Inl _) \<Rightarrow> (case redis_connect rep clk cfg pings of (calls', p) \<Rightarrow> (calls @ calls', p)))"

text \<open>The calls of a run of \<^verbatim>\<open>main\<close>, over the arguments of \<open>main_run\<close>.\<close>

definition main_redis_calls ::
  "(nat \<Rightarrow> bytes + int) \<Rightarrow> (nat \<Rightarrow> time) \<Rightarrow> (bytes \<Rightarrow> bytes + bytes) \<Rightarrow> (bytes \<Rightarrow> bytes + AppConfig) \<Rightarrow> (bytes \<Rightarrow> bytes) \<Rightarrow> bytes
    \<Rightarrow> bytes list \<Rightarrow> time \<Rightarrow> (duration \<times> bytes option) list \<Rightarrow> time option \<Rightarrow> (nat \<Rightarrow> (duration \<times> run_end) list) \<Rightarrow> redis_call list" where
  "main_redis_calls rep clk readFile unmarshal_yaml json_error env args now pings signal runs =
     (case Load readFile unmarshal_yaml json_error (ResolvePath env args) of
        Inl _ \<Rightarrow> []
      | Inr cfg \<Rightarrow>
          (let calls = fst (redis_connect rep clk (ac_Redis cfg) pings)
           in case main_run readFile unmarshal_yaml json_error env args now pings signal runs of
                ExitConfig _ \<Rightarrow> []
              | ExitStart _ \<Rightarrow> []
              | Connecting _ \<Rightarrow> calls
              | Running _ _ \<Rightarrow> calls
              | Stopped _ _ \<Rightarrow> calls @ redis_Close))"

section \<open>One client at a time\<close>

text \<open>
  The protocol of a client with options \<open>o\<close>: it is created when none is open, pinged and closed while it is. The state is
  whether one is open; a call out of turn, or with other options, is \<open>None\<close>.
\<close>

fun client_step :: "redis_Options \<Rightarrow> bool \<Rightarrow> redis_call \<Rightarrow> bool option" where
  "client_step opts False (NewClient o') = (if o' = opts then Some True else None)"
| "client_step opts True (Ping d) = (if 0 < d \<and> d \<le> redis_dialTimeout then Some True else None)"
| "client_step opts True CloseClient = Some False"
| "client_step _ _ _ = None"

fun client_steps :: "redis_Options \<Rightarrow> bool \<Rightarrow> redis_call list \<Rightarrow> bool option" where
  "client_steps opts b [] = Some b"
| "client_steps opts b (c # cs) = (case client_step opts b c of None \<Rightarrow> None | Some b' \<Rightarrow> client_steps opts b' cs)"

lemma client_steps_append:
  "client_steps opts b (cs @ cs') = (case client_steps opts b cs of None \<Rightarrow> None | Some b' \<Rightarrow> client_steps opts b' cs')"
  by (induction cs arbitrary: b) (auto split: option.splits)

lemma redis_dial_steps:
  "client_steps (redis_options addr password db) False (fst (redis_dial rep clk addr password db ping)) = Some (ping = None)"
  by (cases ping) (simp_all add: redis_dial_def redis_dialTimeout_def)

lemma redis_connect_steps:
  "client_steps (redis_options (rd_Addr cfg) (rd_Password cfg) (rd_DB cfg)) False (fst (redis_connect rep clk cfg pings))
     = Some (snd (redis_connect rep clk cfg pings) \<noteq> None)"
proof (induction pings)
  case (Cons ping pings)
  then show ?case using redis_dial_steps [of "rd_Addr cfg" "rd_Password cfg" "rd_DB cfg" rep clk "snd ping"]
    by (cases ping; cases "snd ping") (simp_all add: redis_dial_def redis_dialTimeout_def split_beta client_steps_append)
qed simp

text \<open>It is the loop of \<open>redis_retry\<close>, and hands the components a publisher that has sent nothing.\<close>

lemma redis_connect_retry:
  "snd (redis_connect rep clk cfg pings) = (if snd (redis_retry now pings) then Some (redis_New rep clk) else None)"
proof (induction pings arbitrary: now)
  case (Cons ping pings)
  then show ?case by (cases ping; cases "snd ping") (simp_all add: redis_dial_def split_beta)
qed simp

lemma main_run_connected:
  assumes "main_run readFile unmarshal_yaml json_error env args now pings signal runs = res"
  shows "(\<exists>cs ts. res = Running cs ts \<or> res = Stopped cs ts) \<Longrightarrow> snd (redis_retry now pings)"
    and "res = Connecting t \<Longrightarrow> \<not> snd (redis_retry now pings)"
  using assms
  by (auto simp: main_run_def supervise_all_def Let_def split: sum.splits prod.splits bool.splits if_splits)

text \<open>
  However the attempts to connect go, \<^verbatim>\<open>main\<close> has at most one client at a time, always to the configured server and
  with the timeouts of the source; a client whose \<^verbatim>\<open>PING\<close> failed is closed before the next one is made; one is open while
  the components run, and none after shutdown.
\<close>

theorem redis_one_client:
  assumes "Load readFile unmarshal_yaml json_error (ResolvePath env args) = Inr cfg"
  shows "client_steps (redis_options (rd_Addr (ac_Redis cfg)) (rd_Password (ac_Redis cfg)) (rd_DB (ac_Redis cfg))) False
      (main_redis_calls rep clk readFile unmarshal_yaml json_error env args now pings signal runs) =
    Some (case main_run readFile unmarshal_yaml json_error env args now pings signal runs of Running _ _ \<Rightarrow> True | _ \<Rightarrow> False)"
proof -
  define res where "res = main_run readFile unmarshal_yaml json_error env args now pings signal runs"
  note steps = redis_connect_steps [of "ac_Redis cfg" rep clk pings] redis_connect_retry [of rep clk "ac_Redis cfg" pings now]
  show ?thesis
    using main_run_connected [OF res_def [symmetric]] steps unfolding main_redis_calls_def assms res_def [symmetric]
    by (cases res) (auto simp: redis_Close_def client_steps_append)
qed

end
