(* ===== verification/TailerHistory.thy ===== *)
theory TailerHistory
  imports Tailer RedisPublisher
begin

text \<open>
  A tailer over the whole life of its log: files that are rotated, truncated, removed, superseded by a newer match or
  unreadable for a while. Its abstract specification is a list of \<open>period\<close>s, one for each time a file was open: the
  file's content when it was last read from, and the part of it that was read. The files may do anything
  between the iterations but rewrite what the tailer has read of an open file and then let it read on.
\<close>

record period =
  fp_start :: nat
  fp_content :: bytes
  fp_end :: int

definition period_bytes :: "period \<Rightarrow> bytes" where
  "period_bytes p = window (fp_content p) (fp_start p) (fp_end p)"

text \<open>The periods after an iteration from \<open>s\<close> to \<open>s'\<close>, during which the open file has content \<open>c\<close>.\<close>

definition note_iter :: "bytes \<Rightarrow> env \<Rightarrow> 'w run \<Rightarrow> 'w run \<Rightarrow> period list \<Rightarrow> period list" where
  "note_iter c e s s' ps =
     (if e_ctxErr e then ps
      else case r_f s of
        None \<Rightarrow>
          (case open_phase e (heartbeat (e_clock e) s) of
             Inl _ \<Rightarrow> ps
           | Inr (_, opened) \<Rightarrow> ps @ [\<lparr>fp_start = nat (r_offset opened), fp_content = c, fp_end = r_offset s'\<rparr>])
      | Some _ \<Rightarrow>
          if r_offset s' = r_offset s then ps
          else butlast ps @ [(last ps)\<lparr>fp_content := c, fp_end := r_offset s'\<rparr>])"

fun tail_history :: "'w publish \<Rightarrow> (bytes \<times> env) list \<Rightarrow> 'w run \<Rightarrow> period list \<Rightarrow> 'w run \<times> period list" where
  "tail_history pb [] s ps = (s, ps)"
| "tail_history pb ((c, e) # ces) s ps =
     (case run_iter pb e s of
        (Continue _, s') \<Rightarrow> tail_history pb ces s' (note_iter c e s s' ps)
      | (_, s') \<Rightarrow> (s', note_iter c e s s' ps))"

text \<open>
  What is asked of the files: reads return bytes of the content, a seek to the end finds an offset in it, lines are short
  enough not to be cut, and a file that is read on while it is open has only been appended to.
\<close>

definition honest_iter :: "bytes \<Rightarrow> env \<Rightarrow> 'w run \<Rightarrow> 'w run \<Rightarrow> period list \<Rightarrow> bool" where
  "honest_iter c e s s' ps \<longleftrightarrow> short_lines c \<and> (\<forall>d \<in> set (e_drain e). \<forall>f. reads_from c f d)
     \<and> (\<forall>f off. e_seekEnd e f = Inr off \<longrightarrow> 0 \<le> off \<and> off \<le> int (length c))
     \<and> (r_f s \<noteq> None \<and> r_offset s' \<noteq> r_offset s \<longrightarrow> prefix (fp_content (last ps)) c)"

fun honest_files :: "'w publish \<Rightarrow> (bytes \<times> env) list \<Rightarrow> 'w run \<Rightarrow> period list \<Rightarrow> bool" where
  "honest_files pb [] s ps = True"
| "honest_files pb ((c, e) # ces) s ps =
     (case run_iter pb e s of
        (Continue _, s') \<Rightarrow> honest_iter c e s s' ps \<and> honest_files pb ces s' (note_iter c e s s' ps)
      | (_, s') \<Rightarrow> honest_iter c e s s' ps)"

lemma tail_history_run: "fst (tail_history pb ces s ps) = tailer_Run pb (map snd ces) s"
proof (induction ces arbitrary: s ps)
  case (Cons ce ces)
  then show ?case by (cases ce; cases "run_iter pb (snd ce) s"; cases "fst (run_iter pb (snd ce) s)") auto
qed simp

section \<open>Lines of a part of a file\<close>

lemma Split_no_sep_append: "sep \<notin> set p \<Longrightarrow> Split sep (p @ b) = (p @ hd (Split sep b)) # tl (Split sep b)"
proof (induction p)
  case Nil
  then show ?case by (cases "Split sep b") (use Split_not_Nil [of sep b] in auto)
qed auto

lemma short_lines_drop: "short_lines c \<Longrightarrow> short_lines (drop n c)"
proof -
  assume c: "short_lines c"
  let ?a = "take n c" and ?b = "drop n c"
  have "newline \<notin> set (last (Split newline ?a))" by (rule sep_not_in_Split [where s = ?a]) simp
  from Split_no_sep_append [OF this, of ?b]
  have s: "Split newline c = butlast (Split newline ?a) @ (last (Split newline ?a) @ hd (Split newline ?b)) # tl (Split newline ?b)"
    using Split_append [of newline ?a ?b] by simp
  have "Split newline ?b = hd (Split newline ?b) # tl (Split newline ?b)" using Split_not_Nil [of newline ?b] by simp
  then have "l \<in> set (Split newline ?b) \<Longrightarrow> \<exists>l' \<in> set (Split newline c). length l \<le> length l'" for l
    unfolding s by (metis (no_types, lifting) Un_iff le_add2 length_append list.set_intros(1,2) order_refl set_ConsD set_append)
  then show ?thesis using c unfolding short_lines_def by (meson add_le_mono1 le_trans)
qed

section \<open>One iteration\<close>

text \<open>What of a state the delivery of lines depends on.\<close>

definition same_read :: "'w run \<Rightarrow> 'w run \<Rightarrow> bool" where
  "same_read s s' \<longleftrightarrow> t_batch (r_t s') = t_batch (r_t s) \<and> t_world (r_t s') = t_world (r_t s)
     \<and> r_offset s' = r_offset s \<and> r_startAtEnd s' = r_startAtEnd s"

definition closed :: "'w run \<Rightarrow> bool" where
  "closed s \<longleftrightarrow> r_f s = None \<and> r_lineBuffer s = []"

text \<open>An iteration once a file is open.\<close>

definition file_part :: "'w publish \<Rightarrow> env \<Rightarrow> nat \<Rightarrow> 'w run \<Rightarrow> iter \<times> 'w run" where
  "file_part pb e f s =
     (case rotation_phase e f (s\<lparr>r_cycle := r_cycle s + 1\<rparr>) of
        (s, False) \<Rightarrow> (Continue None, s)
      | (s, True) \<Rightarrow> read_phase pb e f s)"

lemma run_iter_parts:
  "run_iter pb e s =
     (if e_ctxErr e then (Return, s)
      else case open_phase e (heartbeat (e_clock e) s) of
        Inl (d, s) \<Rightarrow> (Continue (Some d), s) | Inr (f, s) \<Rightarrow> file_part pb e f s)"
  by (cases "open_phase e (heartbeat (e_clock e) s)") (simp_all add: run_iter_def file_part_def split_beta)

lemma rotation_phase_same:
  assumes "rotation_phase e f s = (s', b)"
  shows "same_read s s' \<and> (if b then r_f s' = r_f s \<and> r_lineBuffer s' = r_lineBuffer s else closed s')"
proof -
  have "same_read s (close_file s)" "closed (close_file s)" by (simp_all add: same_read_def closed_def close_file_def)
  moreover have "same_read s (s\<lparr>r_t := t, r_switchPending := n\<rparr>)" if "hasNewerMatch x y z (r_t s) = (t, n)" for x y z t n
    using hasNewerMatch_keeps [OF that] by (simp add: same_read_def)
  ultimately show ?thesis using assms
    by (auto simp: rotation_phase_def Let_def same_read_def split: if_splits prod.splits)
qed

text \<open>It closes the file without reading, or drains it and then keeps it open or closes it.\<close>

lemma file_part_cases:
  assumes "file_part pb e f s = (i, s')"
  obtains (no_read) "same_read s s'" "closed s'"
  | (read) s1 sz res s2 where "drain pb f (e_drain e) s1 sz = (res, s2)" "same_read s s1" "r_f s1 = r_f s" "r_lineBuffer s1 = r_lineBuffer s"
      "same_read s2 s'" "closed s' \<or> res \<noteq> DrainErr \<and> r_f s' = r_f s2 \<and> r_lineBuffer s' = r_lineBuffer s2"
proof -
  obtain s1 b where r: "rotation_phase e f (s\<lparr>r_cycle := r_cycle s + 1\<rparr>) = (s1, b)" by fastforce
  have s1: "same_read s s1" "if b then r_f s1 = r_f s \<and> r_lineBuffer s1 = r_lineBuffer s else closed s1"
    using rotation_phase_same [OF r] by (simp_all add: same_read_def)
  show thesis
  proof (cases b)
    case False
    then show thesis using s1 assms r by (intro no_read) (simp_all add: file_part_def)
  next
    case b: True
    then have rp: "read_phase pb e f s1 = (i, s')" using assms r by (simp add: file_part_def)
    have cl: "same_read x (close_file x)" "closed (close_file x)" for x :: "'a run" by (simp_all add: same_read_def closed_def close_file_def)
    show thesis
    proof (cases "\<exists>info. e_fstat e f = Inr info \<and> r_offset s1 \<le> fi_size info")
      case False
      then have "s' = close_file s1" using rp by (auto simp: read_phase_def split: sum.splits if_splits)
      then show thesis using cl [of s1] s1(1) by (intro no_read) (simp_all add: same_read_def)
    next
      case True
      then obtain info where info: "e_fstat e f = Inr info" "r_offset s1 \<le> fi_size info" by blast
      obtain res s2 where d: "drain pb f (e_drain e) s1 (fi_size info) = (res, s2)" by fastforce
      have "s' = s2 \<and> (res = DrainErr \<longrightarrow> closed s') \<or> (\<exists>l. s' = close_file (s2\<lparr>r_t := (r_t s2)\<lparr>t_left := l\<rparr>\<rparr>))"
        using rp info d drain_keeps [OF d]
        by (cases res) (auto simp: read_phase_def closed_def split: if_splits)
      then have "same_read s2 s' \<and> (closed s' \<or> res \<noteq> DrainErr \<and> r_f s' = r_f s2 \<and> r_lineBuffer s' = r_lineBuffer s2)"
        by (auto simp: same_read_def closed_def close_file_def)
      then show thesis using d s1 b by (intro read [OF d]) simp_all
    qed
  qed
qed

text \<open>A drain that does not advance has sent nothing and kept its buffer, or closed the file.\<close>

lemma drain_still:
  assumes "drain pb f ds s sz = (res, s')" "r_offset s' = r_offset s"
  shows "same_read s s' \<and> (res = DrainErr \<and> closed s' \<or> res \<noteq> DrainErr \<and> r_f s' = r_f s \<and> r_lineBuffer s' = r_lineBuffer s)"
proof -
  have mono: "r_offset s \<le> r_offset s'" if "drain pb f ds s sz = (res, s')" for ds s sz
    using that
  proof (induction ds arbitrary: s sz)
    case (Cons d ds)
    obtain data err where r: "d_ReadAt d f (r_offset s) = (data, err)" by (cases "d_ReadAt d f (r_offset s)")
    show ?case using Cons.prems r Cons.IH
      by (fastforce simp: Let_def split: if_splits read_err.splits sum.splits)
  qed (auto split: if_splits)
  show ?thesis using assms
  proof (induction ds arbitrary: s sz)
    case (Cons d ds)
    obtain data err where r: "d_ReadAt d f (r_offset s) = (data, err)" by (cases "d_ReadAt d f (r_offset s)")
    show ?case
    proof (cases "data = []")
      case True
      then have s: "drain_read pb (d_stamp d) data s = s" by (simp add: drain_read_def)
      show ?thesis
      proof (cases "\<not> r_offset s < sz \<or> (\<exists>e. err = ReadErr e) \<or> (\<exists>e. d_Stat d f = Inl e) \<or> d_ctxErr d")
        case True
        then show ?thesis using Cons.prems r s
          by (auto simp: Let_def same_read_def closed_def close_file_def split: if_splits read_err.splits sum.splits)
      next
        case False
        then obtain info where "d_Stat d f = Inr info" by (cases "d_Stat d f") auto
        with False Cons.prems(1) r s have "drain pb f ds (heartbeat (d_clock d) s) (fi_size info) = (res, s')"
          by (cases err) auto
        from Cons.IH [OF this] Cons.prems(2) show ?thesis by (simp add: same_read_def)
      qed
    next
      case False
      then show ?thesis using Cons.prems r mono
        by (fastforce simp: Let_def same_read_def split: if_splits read_err.splits sum.splits)
    qed
  qed (auto simp: same_read_def split: if_splits)
qed

lemma drain_batch: "drain pb f ds s sz = (res, s') \<Longrightarrow> t_batch (r_t s) = [] \<Longrightarrow> t_batch (r_t s') = [] \<and> r_startAtEnd s' = r_startAtEnd s"
proof (induction ds arbitrary: s sz)
  case (Cons d ds)
  obtain data err where r: "d_ReadAt d f (r_offset s) = (data, err)" by (cases "d_ReadAt d f (r_offset s)")
  let ?s = "drain_read pb (d_stamp d) data s"
  have s: "t_batch (r_t ?s) = []" using Cons.prems(2) by (simp add: drain_read_def split_beta)
  show ?case
  proof (cases "\<not> r_offset s < sz \<or> (\<exists>e. err = ReadErr e) \<or> (\<exists>e. d_Stat d f = Inl e) \<or> d_ctxErr d")
    case True
    then show ?thesis using Cons.prems r s
      by (auto simp: Let_def close_file_def split: if_splits read_err.splits sum.splits)
  next
    case False
    then obtain info where "d_Stat d f = Inr info" by (cases "d_Stat d f") auto
    with False Cons.prems(1) r have "drain pb f ds (heartbeat (d_clock d) ?s) (fi_size info) = (res, s')"
      by (cases err) auto
    from Cons.IH [OF this] s show ?thesis by simp
  qed
qed (auto split: if_splits)

lemma open_phase_same:
  assumes "r_f s = None"
  shows "open_phase e s = Inl (d, s') \<Longrightarrow> r_f s' = None \<and> r_lineBuffer s' = r_lineBuffer s \<and> r_startAtEnd s' = r_startAtEnd s
       \<and> t_batch (r_t s') = t_batch (r_t s) \<and> t_world (r_t s') = t_world (r_t s)"
    and "open_phase e s = Inr (f, s') \<Longrightarrow> t_world (r_t s') = t_world (r_t s)"
proof -
  obtain s1 b where f: "find_file e (s\<lparr>r_switchPending := False\<rparr>) = (s1, b)" by fastforce
  have k: "r_f s1 = None" "r_startAtEnd s1 = r_startAtEnd s" "r_lineBuffer s1 = r_lineBuffer s" "t_batch (r_t s1) = t_batch (r_t s)"
    "t_world (r_t s1) = t_world (r_t s)"
    using f assms by (auto simp: find_file_def dest: newestMatch_keeps split: if_splits prod.splits)
  show "open_phase e s = Inl (d, s') \<Longrightarrow> r_f s' = None \<and> r_lineBuffer s' = r_lineBuffer s \<and> r_startAtEnd s' = r_startAtEnd s
       \<and> t_batch (r_t s') = t_batch (r_t s) \<and> t_world (r_t s') = t_world (r_t s)"
    using f k assms by (cases b) (auto simp: open_phase_def Let_def split: sum.splits)
  show "open_phase e s = Inr (f, s') \<Longrightarrow> t_world (r_t s') = t_world (r_t s)"
    using f k assms by (cases b) (auto simp: open_phase_def Let_def split: sum.splits)
qed

lemma same_read_sent: "same_read s s' \<Longrightarrow> sent_messages snt s' = sent_messages snt s"
  by (simp add: same_read_def sent_messages_def)

lemma same_read_trans: "same_read s s' \<Longrightarrow> same_read s' s'' \<Longrightarrow> same_read s s''"
  by (simp add: same_read_def)

lemma same_read_at_offset:
  "same_read s s' \<Longrightarrow> r_lineBuffer s' = r_lineBuffer s \<Longrightarrow> at_offset snt c start old s' = at_offset snt c start old s"
  by (simp add: same_read_def at_offset_def delivered_def sent_messages_def)

lemma at_offset_sent: "at_offset snt c start old s \<Longrightarrow> t_batch (r_t s) = [] \<and> sent_messages snt s = old @ messages (window c start (r_offset s))"
  by (simp add: at_offset_def delivered_def)

text \<open>
  A file found replaced or gone is closed as it is: whatever has been appended to it since the last iteration is neither
  looked at nor sent, whereas a switch to a newer match drains the old file first.
\<close>

lemma replaced_file_not_drained:
  assumes "r_f s = Some f" "\<not> e_ctxErr e" "(r_cycle s + 1) mod rotationCheckEvery = 0"
    and "e_rotStat e (t_path (r_t s)) = Inl ENOENT \<or> (\<exists>ino. e_rotIno e (t_path (r_t s)) = Inr ino \<and> ino \<noteq> r_fileIno s)"
  shows "\<exists>s'. (\<forall>fstat reads. run_iter pb (e\<lparr>e_fstat := fstat, e_drain := reads\<rparr>) s = (Continue None, s')) \<and> closed s' \<and> same_read s s'"
proof (intro exI conjI allI)
  let ?s = "(heartbeat (e_clock e) s)\<lparr>r_cycle := r_cycle s + 1\<rparr>"
  show "run_iter pb (e\<lparr>e_fstat := fstat, e_drain := reads\<rparr>) s = (Continue None, close_file ?s)" for fstat reads
    using assms by (auto simp: run_iter_parts file_part_def open_phase_def rotation_phase_def hasBeenReplaced_def Let_def)
  show "closed (close_file ?s)" "same_read s (close_file ?s)" by (simp_all add: closed_def same_read_def close_file_def)
qed

section \<open>Every state of a run\<close>

definition hist_inv :: "('w \<Rightarrow> (bytes \<times> json) list) \<Rightarrow> bytes list \<Rightarrow> 'w run \<Rightarrow> period list \<Rightarrow> bool" where
  "hist_inv snt old s ps \<longleftrightarrow> t_batch (r_t s) = [] \<and> (r_startAtEnd s \<longleftrightarrow> ps = []) \<and> list_all (\<lambda>p. fp_start p = 0) (tl ps)
     \<and> sent_messages snt s = old @ concat (map (messages \<circ> period_bytes) ps)
     \<and> (if r_f s = None then r_lineBuffer s = []
        else ps \<noteq> [] \<and> fp_end (last ps) = r_offset s
          \<and> at_offset snt (fp_content (last ps)) (fp_start (last ps)) (old @ concat (map (messages \<circ> period_bytes) (butlast ps))) s)"

context publisher
begin

lemma file_part_delivers:
  assumes fp: "file_part PublishBatch e f s = (i, s')" and "open": "r_f s \<noteq> None" and s: "at_offset sent c0 start old s"
    and reads: "\<forall>d \<in> set (e_drain e). \<forall>f. reads_from c f d" and short: "short_lines c"
    and grown: "r_offset s' \<noteq> r_offset s \<Longrightarrow> prefix c0 c"
    and c': "c' = (if r_offset s' = r_offset s then c0 else c)"
  shows "t_batch (r_t s') = [] \<and> r_startAtEnd s' = r_startAtEnd s
     \<and> sent_messages sent s' = old @ messages (window c' start (r_offset s'))
     \<and> (if r_f s' = None then r_lineBuffer s' = [] else at_offset sent c' start old s')"
  using fp
proof (cases rule: file_part_cases)
  case no_read
  then show ?thesis using at_offset_sent [OF s] same_read_sent [OF no_read(1), of sent] c' by (auto simp: same_read_def closed_def)
next
  case (read s1 sz res s2)
  have s1: "at_offset sent c0 start old s1" using s same_read_at_offset [OF read(2,4)] by simp
  have b: "t_batch (r_t s') = []" "r_startAtEnd s' = r_startAtEnd s"
    using drain_batch [OF read(1)] at_offset_sent [OF s1] read(2,5) by (simp_all add: same_read_def)
  have off: "r_offset s2 = r_offset s'" "r_offset s1 = r_offset s" using read(2,5) by (simp_all add: same_read_def)
  have sent: "sent_messages sent s' = sent_messages sent s2" by (rule same_read_sent [OF read(5)])
  show ?thesis
  proof (cases "r_offset s' = r_offset s")
    case True
    from drain_still [OF read(1)] True off
    have still: "same_read s1 s2" "res = DrainErr \<or> r_f s2 = r_f s1 \<and> r_lineBuffer s2 = r_lineBuffer s1" by auto
    have "sent_messages sent s2 = sent_messages sent s1" by (rule same_read_sent [OF still(1)])
    moreover have "at_offset sent c0 start old s'" if "r_f s' \<noteq> None"
    proof -
      have "r_lineBuffer s' = r_lineBuffer s1" using that read(6) still(2) by (auto simp: closed_def)
      then show ?thesis using s1 same_read_at_offset [OF same_read_trans [OF still(1) read(5)]] by simp
    qed
    moreover have "r_f s' = None \<Longrightarrow> r_lineBuffer s' = []"
      using read(3,6) still(2) "open" by (auto simp: closed_def)
    ultimately show ?thesis using b sent at_offset_sent [OF s1] True off(2) c' by simp
  next
    case False
    have "at_offset sent c start old s1" by (rule at_offset_extend [OF s1 grown [OF False]])
    from drain_delivers [OF this short_lines_drop [OF short] _ read(1)] reads
    have d: "sent_messages sent s2 = old @ messages (window c start (r_offset s2))" "res \<noteq> DrainErr \<longrightarrow> at_offset sent c start old s2"
      by auto
    have "at_offset sent c start old s'" if "r_f s' \<noteq> None"
    proof -
      have "res \<noteq> DrainErr" "r_lineBuffer s' = r_lineBuffer s2" using that read(6) by (auto simp: closed_def)
      then show ?thesis using d(2) same_read_at_offset [OF read(5)] by simp
    qed
    moreover have "r_f s' = None \<Longrightarrow> r_lineBuffer s' = []"
      using read(6) drain_keeps [OF read(1)] read(3) "open" by (auto simp: closed_def)
    ultimately show ?thesis using b sent d(1) off(1) False c' by simp
  qed
qed

lemma opened_hist:
  assumes inv: "hist_inv sent old s ps" and none: "r_f s = None" and o: "open_phase e (heartbeat (e_clock e) s) = Inr (f, s0)"
    and part: "file_part PublishBatch e f s0 = (i, s')" and honest: "honest_iter c e s s' ps"
  shows "hist_inv sent old s' (ps @ [\<lparr>fp_start = nat (r_offset s0), fp_content = c, fp_end = r_offset s'\<rparr>])"
proof -
  let ?ms = "map (messages \<circ> period_bytes)" and ?p = "\<lparr>fp_start = nat (r_offset s0), fp_content = c, fp_end = r_offset s'\<rparr>"
  have reads: "\<forall>d \<in> set (e_drain e). \<forall>f. reads_from c f d" and short: "short_lines c"
    and seek: "\<And>f off. e_seekEnd e f = Inr off \<Longrightarrow> 0 \<le> off \<and> off \<le> int (length c)"
    using honest unfolding honest_iter_def by blast+
  from open_phase_Inr [OF o] none open_phase_same(2) [of "heartbeat (e_clock e) s" e f s0] o
  have s0: "r_f s0 = Some f" "\<not> r_startAtEnd s0" "r_lineBuffer s0 = r_lineBuffer s" "t_batch (r_t s0) = t_batch (r_t s)"
    "r_startAtEnd s \<Longrightarrow> e_seekEnd e f = Inr (r_offset s0)" "\<not> r_startAtEnd s \<Longrightarrow> r_offset s0 = 0"
    "sent_messages sent s0 = sent_messages sent s" by (auto simp: sent_messages_def)
  have bnd: "0 \<le> r_offset s0" "r_offset s0 \<le> int (length c)" using s0(5,6) seek [of f] by (cases "r_startAtEnd s"; auto)+
  have "window c (nat (r_offset s0)) (r_offset s0) = []" by (simp add: window_def)
  then have "at_offset sent c (nat (r_offset s0)) (old @ concat (?ms ps)) s0"
    using inv none s0 bnd by (simp add: hist_inv_def at_offset_def delivered_def)
  then have "t_batch (r_t s') = [] \<and> r_startAtEnd s' = r_startAtEnd s0
      \<and> sent_messages sent s' = (old @ concat (?ms ps)) @ messages (window c (nat (r_offset s0)) (r_offset s'))
      \<and> (if r_f s' = None then r_lineBuffer s' = [] else at_offset sent c (nat (r_offset s0)) (old @ concat (?ms ps)) s')"
    using part s0(1) file_part_delivers [of e f s0 i s' c "nat (r_offset s0)" "old @ concat (?ms ps)" c c] reads short by simp
  moreover have "list_all (\<lambda>p. fp_start p = 0) (tl (ps @ [?p]))"
    using inv s0(6) by (cases ps) (auto simp: hist_inv_def)
  ultimately show ?thesis using s0(2) by (simp add: hist_inv_def period_bytes_def)
qed

lemma followed_hist:
  assumes inv: "hist_inv sent old s ps" and "open": "r_f s = Some f"
    and part: "file_part PublishBatch e f (heartbeat (e_clock e) s) = (i, s')" and honest: "honest_iter c e s s' ps"
  shows "hist_inv sent old s' (if r_offset s' = r_offset s then ps else butlast ps @ [(last ps)\<lparr>fp_content := c, fp_end := r_offset s'\<rparr>])"
proof -
  let ?p = "last ps" and ?old = "old @ concat (map (messages \<circ> period_bytes) (butlast ps))"
  define c' where "c' = (if r_offset s' = r_offset s then fp_content ?p else c)"
  let ?q = "?p\<lparr>fp_content := c', fp_end := r_offset s'\<rparr>"
  have at: "ps \<noteq> []" "fp_end ?p = r_offset s" "at_offset sent (fp_content ?p) (fp_start ?p) ?old (heartbeat (e_clock e) s)"
    using inv "open" by (auto simp: hist_inv_def)
  have d: "t_batch (r_t s') = [] \<and> r_startAtEnd s' = r_startAtEnd s
      \<and> sent_messages sent s' = ?old @ messages (window c' (fp_start ?p) (r_offset s'))
      \<and> (if r_f s' = None then r_lineBuffer s' = [] else at_offset sent c' (fp_start ?p) ?old s')"
    using file_part_delivers [OF part _ at(3), of c c'] honest "open" by (auto simp: honest_iter_def c'_def)
  have "(if r_offset s' = r_offset s then ps else butlast ps @ [?p\<lparr>fp_content := c, fp_end := r_offset s'\<rparr>]) = butlast ps @ [?q]"
    using at(1) by (cases "r_offset s' = r_offset s") (simp_all add: c'_def at(2) [symmetric])
  moreover have "list_all (\<lambda>p. fp_start p = 0) (tl (butlast ps @ [?q]))"
    using inv at(1) by (cases ps rule: rev_cases) (auto simp: hist_inv_def tl_append split: list.splits)
  ultimately show ?thesis using d inv at(1) by (simp add: hist_inv_def period_bytes_def)
qed

lemma run_iter_hist:
  assumes inv: "hist_inv sent old s ps" and step: "run_iter PublishBatch e s = (i, s')" and honest: "honest_iter c e s s' ps"
  shows "hist_inv sent old s' (note_iter c e s s' ps)"
proof (cases "e_ctxErr e")
  case True
  then show ?thesis using inv step by (simp add: run_iter_parts note_iter_def)
next
  case go: False
  let ?h = "heartbeat (e_clock e) s"
  have h: "hist_inv sent old ?h ps" using inv by (simp add: hist_inv_def)
  show ?thesis
  proof (cases "r_f s")
    case None
    show ?thesis
    proof (cases "open_phase e ?h")
      case (Inl x)
      then show ?thesis using h step go None open_phase_same(1) [of ?h e "fst x" s']
        by (cases x) (auto simp: run_iter_parts note_iter_def hist_inv_def sent_messages_def)
    next
      case (Inr x)
      then show ?thesis using opened_hist [OF inv None _ _ honest, of "fst x" "snd x" i] step go None
        by (cases x) (simp add: run_iter_parts note_iter_def)
    qed
  next
    case (Some f)
    then have "file_part PublishBatch e f ?h = (i, s')" using step go by (simp add: run_iter_parts open_phase_def)
    from followed_hist [OF inv Some this honest] show ?thesis using go Some by (simp add: note_iter_def)
  qed
qed

text \<open>The first file stays the first, and is entered where a seek to its end leads.\<close>

lemma run_iter_first:
  assumes inv: "hist_inv sent old s ps" and honest: "honest_iter c e s s' ps"
  shows "if ps = [] then note_iter c e s s' ps \<noteq> [] \<longrightarrow> (\<exists>f. e_seekEnd e f = Inr (int (fp_start (hd (note_iter c e s s' ps)))))
    else note_iter c e s s' ps \<noteq> [] \<and> fp_start (hd (note_iter c e s s' ps)) = fp_start (hd ps)"
proof (cases "ps = []")
  case True
  then have none: "r_f s = None" and start: "r_startAtEnd s" using inv by (auto simp: hist_inv_def split: if_splits)
  show ?thesis
  proof (cases "e_ctxErr e \<or> (\<exists>x. open_phase e (heartbeat (e_clock e) s) = Inl x)")
    case False
    then obtain f opened where o: "open_phase e (heartbeat (e_clock e) s) = Inr (f, opened)"
      by (cases "open_phase e (heartbeat (e_clock e) s)") auto
    have seek: "e_seekEnd e f = Inr (r_offset opened)" using open_phase_Inr [OF o] none start by auto
    then have "0 \<le> r_offset opened" using honest unfolding honest_iter_def by blast
    then show ?thesis using False o none True seek by (auto simp: note_iter_def)
  qed (use True none in \<open>auto simp: note_iter_def\<close>)
next
  case False
  then show ?thesis by (cases ps) (auto simp: note_iter_def split: option.split sum.split)
qed

lemma tail_history_first:
  assumes "hist_inv sent old s ps" "honest_files PublishBatch ces s ps" "tail_history PublishBatch ces s ps = (s', ps')"
  shows "if ps = [] then ps' \<noteq> [] \<longrightarrow> (\<exists>ce \<in> set ces. \<exists>f. e_seekEnd (snd ce) f = Inr (int (fp_start (hd ps'))))
    else ps' \<noteq> [] \<and> fp_start (hd ps') = fp_start (hd ps)"
  using assms
proof (induction ces arbitrary: s ps)
  case (Cons ce ces)
  obtain c e where ce: "ce = (c, e)" by fastforce
  obtain i s1 where r: "run_iter PublishBatch e s = (i, s1)" by fastforce
  have h: "honest_iter c e s s1 ps" using Cons.prems(2) r ce by (cases i) auto
  note step = run_iter_first [OF Cons.prems(1) h] and inv = run_iter_hist [OF Cons.prems(1) r h]
  show ?case
  proof (cases "\<exists>d. i = Continue d")
    case True
    then have "honest_files PublishBatch ces s1 (note_iter c e s s1 ps)" "tail_history PublishBatch ces s1 (note_iter c e s s1 ps) = (s', ps')"
      using Cons.prems(2,3) r ce by auto
    from Cons.IH [OF inv this] step show ?thesis by (auto simp: ce split: if_splits)
  next
    case False
    then have "ps' = note_iter c e s s1 ps" using Cons.prems(3) r ce by (cases i) auto
    then show ?thesis using step by (auto simp: ce split: if_splits)
  qed
qed simp

lemma tail_history_hist:
  "hist_inv sent old s ps \<Longrightarrow> honest_files PublishBatch ces s ps \<Longrightarrow> tail_history PublishBatch ces s ps = (s', ps') \<Longrightarrow> hist_inv sent old s' ps'"
proof (induction ces arbitrary: s ps)
  case (Cons ce ces)
  obtain c e where ce: "ce = (c, e)" by fastforce
  obtain i s1 where r: "run_iter PublishBatch e s = (i, s1)" by fastforce
  have h: "honest_iter c e s s1 ps" using Cons.prems(2) r ce by (cases i) auto
  from run_iter_hist [OF Cons.prems(1) r h] show ?case using Cons.prems Cons.IH r ce by (cases i) auto
qed simp

end

section \<open>Property\<close>

text \<open>
  C2. Through rotations, truncations, removals, read errors and switches to newer files, in any order, the tailer refines its
  specification: what it has sent is, period after period in which a file was open, exactly the complete lines of the
  bytes read in that period, each once and in order. The first file is entered where a seek to its end leads, every later one
  at its first byte; no line is put together from two files; and the incomplete last line of the open file
  is in the buffer.
\<close>

theorem tailer_delivers_every_file:
  fixes w :: redis
  assumes "honest_files PublishBatch ces (run_init now (tailer_New path ch sid w)) []"
    and "tail_history PublishBatch ces (run_init now (tailer_New path ch sid w)) [] = (s, ps)"
  shows "s = tailer_Run PublishBatch (map snd ces) (run_init now (tailer_New path ch sid w))
     \<and> sent_messages wire s = sent_messages wire (run_init now (tailer_New path ch sid w)) @ concat (map (messages \<circ> period_bytes) ps)
     \<and> (ps \<noteq> [] \<longrightarrow> (\<exists>ce \<in> set ces. \<exists>f. e_seekEnd (snd ce) f = Inr (int (fp_start (hd ps)))))
     \<and> list_all (\<lambda>p. fp_start p = 0) (tl ps)
     \<and> r_lineBuffer s = (if r_f s = None then [] else partial_line (period_bytes (last ps)))"
proof -
  let ?init = "run_init now (tailer_New path ch sid w)"
  have init: "hist_inv wire (sent_messages wire ?init) ?init []" by (simp add: hist_inv_def run_init_def tailer_New_def)
  have first: "ps \<noteq> [] \<longrightarrow> (\<exists>ce \<in> set ces. \<exists>f. e_seekEnd (snd ce) f = Inr (int (fp_start (hd ps))))"
    using redis_publisher.tail_history_first [OF init assms] by simp
  from redis_publisher.tail_history_hist [OF init assms] have inv: "hist_inv wire (sent_messages wire ?init) s ps" .
  then have "r_lineBuffer s = (if r_f s = None then [] else partial_line (period_bytes (last ps)))"
    by (auto simp: hist_inv_def at_offset_def delivered_def period_bytes_def)
  moreover have "s = tailer_Run PublishBatch (map snd ces) ?init"
    using tail_history_run [of PublishBatch ces ?init "[]"] assms(2) by simp
  ultimately show ?thesis using inv first by (simp add: hist_inv_def)
qed

text \<open>A file that grows, is truncated and written again.\<close>

lemma file_env_honest:
  assumes "short_lines c" "r_f s \<noteq> None \<and> r_offset s' \<noteq> r_offset s \<longrightarrow> prefix (fp_content (last ps)) c"
  shows "honest_iter c (file_env c) s s' ps"
  using assms quiet_round_reads [OF file_round_quiet] by (simp add: honest_iter_def file_env_def Let_def)

lemma truncated_iteration:
  assumes "quiet_env c f path ino e" "following f path ino s" "int (length c) < r_offset s"
  shows "run_iter pb e s = (Continue None, close_file ((heartbeat (e_clock e) s)\<lparr>r_cycle := r_cycle s + 1\<rparr>))"
proof -
  let ?s = "(heartbeat (e_clock e) s)\<lparr>r_cycle := r_cycle s + 1\<rparr>"
  have "following f path ino ?s" using assms(2) by (simp add: following_def)
  from rotation_phase_quiet [OF assms(1) this] show ?thesis
    using assms by (auto simp: run_iter_parts file_part_def open_phase_def read_phase_def quiet_env_def following_def)
qed

lemma open_phase_again:
  assumes "opens_at_end c f path ino e" "r_f s = None" "\<not> r_startAtEnd s" "\<not> t_glob (r_t s)" "t_path (r_t s) = path"
  shows "open_phase e s = Inr (f, s\<lparr>r_switchPending := False, r_f := Some f, r_fileIno := ino, r_offset := 0, r_startAtEnd := False\<rparr>)"
  using assms by (simp add: opens_at_end_def open_phase_def find_file_def openFile_def)

lemma example_short: "short_lines (drop n (''old'' @ [newline]))" "short_lines (drop n (''old'' @ [newline] @ ''new'' @ [newline]))"
  "short_lines (drop n (''x'' @ [newline]))"
  by (rule short_lines_drop, simp add: short_lines_def maxLineBytes_def readBufSize_def)+

lemma example_grown:
  fixes s :: "redis run"
  defines "a \<equiv> ''old'' @ [newline]" and "b \<equiv> ''old'' @ [newline] @ ''new'' @ [newline]"
  assumes s: "s = run_init 0 (tailer_New ''a.log'' ''ch'' ''srv'' example_redis)"
  obtains s1 s2 where "run_iter PublishBatch (file_env a) s = (Continue (Some pollInterval), s1)"
    "run_iter PublishBatch (file_env b) s1 = (Continue (Some pollInterval), s2)"
    "honest_iter a (file_env a) s s1 []" "note_iter a (file_env a) s s1 [] = [\<lparr>fp_start = 4, fp_content = a, fp_end = 4\<rparr>]"
    "honest_iter b (file_env b) s1 s2 [\<lparr>fp_start = 4, fp_content = a, fp_end = 4\<rparr>]"
    "note_iter b (file_env b) s1 s2 [\<lparr>fp_start = 4, fp_content = a, fp_end = 4\<rparr>] = [\<lparr>fp_start = 4, fp_content = b, fp_end = 8\<rparr>]"
    "following 3 ''a.log'' 7 s2" "t_batch (r_t s2) = []" "r_offset s2 = 8" "\<not> r_startAtEnd s2"
proof -
  have q: "quiet_env a 3 ''a.log'' 7 (file_env a)" "quiet_env b 3 ''a.log'' 7 (file_env b)"
    by (simp_all add: file_env_quiet readBufSize_def a_def b_def)
  let ?h = "heartbeat (e_clock (file_env a)) s" and ?p = "\<lparr>fp_start = 4, fp_content = a, fp_end = 4\<rparr>"
  let ?open = "?h\<lparr>r_switchPending := False, r_f := Some 3, r_fileIno := 7, r_offset := 4, r_startAtEnd := False\<rparr>"
  have i: "r_f s = None" "r_startAtEnd s" "\<not> t_glob (r_t s)" "t_path (r_t s) = ''a.log''" "t_batch (r_t s) = []"
    "r_lineBuffer s = []" "sent_messages wire s = []"
    unfolding s by (simp_all add: run_init_def tailer_New_def ContainsAny_def sent_messages_def example_redis_def redis_New_def)
  have o1: "open_phase (file_env a) ?h = Inr (3, ?open)"
    using open_phase_start [OF file_env_opens, of ?h "''a.log''" a] i by (simp add: a_def)
  have "at_offset wire a 4 [] ?open" using i by (simp add: at_offset_def delivered_def window_def sent_messages_def a_def)
  then obtain s1 where s1: "run_iter PublishBatch (file_env a) s = (Continue (Some pollInterval), s1)" "following 3 ''a.log'' 7 s1"
    "at_offset wire a 4 [] s1" "r_offset s1 = 4"
    using redis_publisher.quiet_iteration_open [OF q(1) o1 _ _ example_short(1) [folded a_def]] i by (auto simp: following_def a_def)
  have "prefix a b" by (simp add: a_def b_def)
  then obtain s2 where s2: "run_iter PublishBatch (file_env b) s1 = (Continue (Some pollInterval), s2)" "following 3 ''a.log'' 7 s2"
    "at_offset wire b 4 [] s2" "r_offset s2 = 8"
    using redis_publisher.quiet_iteration [OF q(2) s1(2) at_offset_extend [OF s1(3)] example_short(2) [folded b_def]] by (auto simp: b_def)
  have n1: "note_iter a (file_env a) s s1 [] = [?p]" using o1 i(1) s1(4) by (simp add: note_iter_def file_env_def Let_def)
  have n2: "note_iter b (file_env b) s1 s2 [?p] = [\<lparr>fp_start = 4, fp_content = b, fp_end = 8\<rparr>]"
    using s1(2,4) s2(4) by (simp add: note_iter_def following_def file_env_def Let_def)
  have h: "honest_iter a (file_env a) s s1 []" "honest_iter b (file_env b) s1 s2 [?p]"
    using example_short(1,2) [of 0] i(1) \<open>prefix a b\<close> by (auto intro!: file_env_honest simp: a_def b_def)
  have "hist_inv wire [] s []" using i by (simp add: hist_inv_def)
  from redis_publisher.run_iter_hist [OF redis_publisher.run_iter_hist [OF this s1(1) h(1), unfolded n1] s2(1) h(2), unfolded n2]
  have "\<not> r_startAtEnd s2" "t_batch (r_t s2) = []" by (simp_all add: hist_inv_def)
  then show thesis by (intro that [OF s1(1) s2(1) h(1) n1 h(2) n2 s2(2) _ s2(4)])
qed

lemma example_rewritten:
  fixes s2 :: "redis run"
  defines "c \<equiv> ''x'' @ [newline]"
  assumes s2: "following 3 ''a.log'' 7 s2" "t_batch (r_t s2) = []" "r_offset s2 = 8" "\<not> r_startAtEnd s2"
  obtains s3 s4 where "run_iter PublishBatch (file_env c) s2 = (Continue None, s3)"
    "run_iter PublishBatch (file_env c) s3 = (Continue (Some pollInterval), s4)"
    "honest_iter c (file_env c) s2 s3 [p]" "note_iter c (file_env c) s2 s3 [p] = [p]"
    "honest_iter c (file_env c) s3 s4 [p]" "note_iter c (file_env c) s3 s4 [p] = [p, \<lparr>fp_start = 0, fp_content = c, fp_end = 2\<rparr>]"
proof -
  have q: "quiet_env c 3 ''a.log'' 7 (file_env c)" by (simp add: file_env_quiet readBufSize_def c_def)
  define s3 where "s3 = close_file ((heartbeat (e_clock (file_env c)) s2)\<lparr>r_cycle := r_cycle s2 + 1\<rparr>)"
  have s3: "run_iter PublishBatch (file_env c) s2 = (Continue None, s3)"
    using truncated_iteration [OF q s2(1)] s2(3) by (simp add: s3_def c_def)
  have c3: "r_f s3 = None" "\<not> r_startAtEnd s3" "\<not> t_glob (r_t s3)" "t_path (r_t s3) = ''a.log''" "r_lineBuffer s3 = []" "r_offset s3 = 8"
    "t_batch (r_t s3) = []"
    using s2 by (simp_all add: s3_def close_file_def following_def)
  let ?k = "heartbeat (e_clock (file_env c)) s3"
  let ?open = "?k\<lparr>r_switchPending := False, r_f := Some 3, r_fileIno := 7, r_offset := 0, r_startAtEnd := False\<rparr>"
  have o4: "open_phase (file_env c) ?k = Inr (3, ?open)"
    using open_phase_again [OF file_env_opens, of ?k "''a.log''" c] c3 by simp
  have "at_offset wire c 0 (sent_messages wire s3) ?open"
    using c3 by (simp add: at_offset_def delivered_def window_def sent_messages_def)
  then obtain s4 where s4: "run_iter PublishBatch (file_env c) s3 = (Continue (Some pollInterval), s4)" "r_offset s4 = 2"
    using redis_publisher.quiet_iteration_open [OF q o4 _ _ example_short(3) [folded c_def]] c3 by (auto simp: following_def c_def)
  have "note_iter c (file_env c) s2 s3 [p] = [p]" using s2(1,3) c3(6) by (simp add: note_iter_def following_def)
  moreover have "note_iter c (file_env c) s3 s4 [p] = [p, \<lparr>fp_start = 0, fp_content = c, fp_end = 2\<rparr>]"
    using o4 c3(1) s4(2) by (simp add: note_iter_def file_env_def Let_def)
  moreover have "honest_iter c (file_env c) s2 s3 [p]" "honest_iter c (file_env c) s3 s4 [p]"
    using example_short(3) [of 0] c3(1,6) s2(3) by (auto intro!: file_env_honest simp: c_def)
  ultimately show thesis using that s3 s4(1) by (simp only:)
qed

theorem tailer_delivers_every_file_witness:
  "\<exists>ces :: (bytes \<times> env) list. sent_messages wire (tailer_Run PublishBatch (map snd ces) (run_init 0 (tailer_New ''a.log'' ''ch'' ''srv'' example_redis))) = [''new'', ''x'']"
proof -
  let ?init = "run_init 0 (tailer_New ''a.log'' ''ch'' ''srv'' example_redis)"
  let ?a = "''old'' @ [newline]" and ?b = "''old'' @ [newline] @ ''new'' @ [newline]" and ?c = "''x'' @ [newline]"
  let ?ces = "[(?a, file_env ?a), (?b, file_env ?b), (?c, file_env ?c), (?c, file_env ?c)]"
  let ?p = "\<lparr>fp_start = 4, fp_content = ?b, fp_end = 8\<rparr>" and ?q = "\<lparr>fp_start = 0, fp_content = ?c, fp_end = 2\<rparr>"
  obtain s1 s2 where g: "run_iter PublishBatch (file_env ?a) ?init = (Continue (Some pollInterval), s1)"
    "run_iter PublishBatch (file_env ?b) s1 = (Continue (Some pollInterval), s2)"
    "honest_iter ?a (file_env ?a) ?init s1 []" "note_iter ?a (file_env ?a) ?init s1 [] = [\<lparr>fp_start = 4, fp_content = ?a, fp_end = 4\<rparr>]"
    "honest_iter ?b (file_env ?b) s1 s2 [\<lparr>fp_start = 4, fp_content = ?a, fp_end = 4\<rparr>]"
    "note_iter ?b (file_env ?b) s1 s2 [\<lparr>fp_start = 4, fp_content = ?a, fp_end = 4\<rparr>] = [?p]"
    and s2: "following 3 ''a.log'' 7 s2" "t_batch (r_t s2) = []" "r_offset s2 = 8" "\<not> r_startAtEnd s2"
    by (rule example_grown [OF refl])
  obtain s3 s4 where r: "run_iter PublishBatch (file_env ?c) s2 = (Continue None, s3)"
    "run_iter PublishBatch (file_env ?c) s3 = (Continue (Some pollInterval), s4)"
    "honest_iter ?c (file_env ?c) s2 s3 [?p]" "note_iter ?c (file_env ?c) s2 s3 [?p] = [?p]"
    "honest_iter ?c (file_env ?c) s3 s4 [?p]" "note_iter ?c (file_env ?c) s3 s4 [?p] = [?p, ?q]"
    by (rule example_rewritten [OF s2])
  have "honest_files PublishBatch ?ces ?init []" by (simp only: honest_files.simps g r prod.case iter.case simp_thms)
  moreover have "tail_history PublishBatch ?ces ?init [] = (s4, [?p, ?q])"
    by (simp only: tail_history.simps g r prod.case iter.case)
  ultimately have d: "s4 = tailer_Run PublishBatch (map snd ?ces) ?init
      \<and> sent_messages wire s4 = sent_messages wire ?init @ concat (map (messages \<circ> period_bytes) [?p, ?q])
      \<and> ([?p, ?q] \<noteq> [] \<longrightarrow> (\<exists>ce \<in> set ?ces. \<exists>f. e_seekEnd (snd ce) f = Inr (int (fp_start (hd [?p, ?q])))))
      \<and> list_all (\<lambda>p. fp_start p = 0) (tl [?p, ?q])
      \<and> r_lineBuffer s4 = (if r_f s4 = None then [] else partial_line (period_bytes (last [?p, ?q])))"
    by (rule tailer_delivers_every_file)
  have "concat (map (messages \<circ> period_bytes) [?p, ?q]) = [''new'', ''x'']" by code_simp
  moreover have "sent_messages wire ?init = []"
    by (simp add: run_init_def tailer_New_def sent_messages_def example_redis_def redis_New_def)
  ultimately have "sent_messages wire s4 = [''new'', ''x'']" using conjunct1 [OF conjunct2 [OF d]] by (simp only: append_Nil)
  then have "sent_messages wire (tailer_Run PublishBatch (map snd ?ces) ?init) = [''new'', ''x'']"
    unfolding conjunct1 [OF d, symmetric] .
  then show ?thesis by (rule exI [where x = ?ces])
qed

end
