(* ===== verification/DockerRound.thy ===== *)
theory DockerRound
  imports DockerCollector
begin

text \<open>
  The goroutines of one round of \<^verbatim>\<open>withDetails\<close> (and, with stats only, of \<^verbatim>\<open>preReadCPU\<close>) in
  \<^verbatim>\<open>src/docker/collector.go\<close>, as a step relation: each worker waits for a slot of its kind or for the
  round to end, does its request while it holds the slot, and stores its result. Any interleaving of the
  workers, and any moment for the round to end, is a run of the relation.

  The relation is shown to keep the number of requests in flight of each kind within \<open>maxParallel\<close>, never
  to get stuck before every worker is done, to end after at most two steps of each worker, and to leave
  the results that the collector's \<open>round_results\<close> takes as its input.
\<close>

datatype worker = Waiting | InFlight | Finished result

record round_state =
  ro_workers :: "worker list"
  ro_ended :: bool

text \<open>The workers that hold a slot of the pool for the given kind, and so have a request in flight.\<close>

definition in_flight :: "Container list \<Rightarrow> bool \<Rightarrow> round_state \<Rightarrow> nat set" where
  "in_flight cts kind s = {i. i < length (ro_workers s) \<and> ro_workers s ! i = InFlight \<and> hasStats (ct_State (cts ! i)) = kind}"

definition round_init :: "Container list \<Rightarrow> round_state" where
  "round_init cts = \<lparr>ro_workers = replicate (length cts) Waiting, ro_ended = False\<rparr>"

inductive worker_step :: "docker_env \<Rightarrow> go_err \<Rightarrow> Container list \<Rightarrow> round_state \<Rightarrow> round_state \<Rightarrow> bool"
  for e ctx_err cts where
  acquire: "i < length (ro_workers s) \<Longrightarrow> ro_workers s ! i = Waiting \<Longrightarrow>
     card (in_flight cts (hasStats (ct_State (cts ! i))) s) < maxParallel \<Longrightarrow>
     worker_step e ctx_err cts s (s\<lparr>ro_workers := (ro_workers s)[i := InFlight]\<rparr>)"
| expire: "i < length (ro_workers s) \<Longrightarrow> ro_workers s ! i = Waiting \<Longrightarrow> ro_ended s \<Longrightarrow>
     worker_step e ctx_err cts s (s\<lparr>ro_workers := (ro_workers s)[i := Finished (result_zero\<lparr>rt_err := Some ctx_err\<rparr>)]\<rparr>)"
| finish: "i < length (ro_workers s) \<Longrightarrow> ro_workers s ! i = InFlight \<Longrightarrow>
     worker_step e ctx_err cts s (s\<lparr>ro_workers := (ro_workers s)[i := Finished (read_result e (cts ! i))]\<rparr>)"

text \<open>Besides the workers, the round's deadline can pass or the agent can be shut down.\<close>

inductive round_step :: "docker_env \<Rightarrow> go_err \<Rightarrow> Container list \<Rightarrow> round_state \<Rightarrow> round_state \<Rightarrow> bool"
  for e ctx_err cts where
  work: "worker_step e ctx_err cts s s' \<Longrightarrow> round_step e ctx_err cts s s'"
| end_round: "round_step e ctx_err cts s (s\<lparr>ro_ended := True\<rparr>)"

inductive_cases worker_stepE: "worker_step e ctx_err cts s s'"
inductive_cases round_stepE: "round_step e ctx_err cts s s'"

definition all_finished :: "round_state \<Rightarrow> bool" where
  "all_finished s \<longleftrightarrow> list_all (\<lambda>w. \<exists>r. w = Finished r) (ro_workers s)"

fun worker_work :: "worker \<Rightarrow> nat" where
  "worker_work Waiting = 2"
| "worker_work InFlight = 1"
| "worker_work (Finished r) = 0"

definition round_work :: "round_state \<Rightarrow> nat" where
  "round_work s = sum_list (map worker_work (ro_workers s))"

section \<open>The pools are never exceeded\<close>

text \<open>A finished worker has the context's error or the result of its own request.\<close>

definition worker_ok :: "docker_env \<Rightarrow> go_err \<Rightarrow> Container \<Rightarrow> worker \<Rightarrow> bool" where
  "worker_ok e ctx_err ct w \<longleftrightarrow> w \<in> {Waiting, InFlight, Finished (result_zero\<lparr>rt_err := Some ctx_err\<rparr>), Finished (read_result e ct)}"

definition round_inv :: "docker_env \<Rightarrow> go_err \<Rightarrow> Container list \<Rightarrow> round_state \<Rightarrow> bool" where
  "round_inv e ctx_err cts s \<longleftrightarrow> list_all2 (worker_ok e ctx_err) cts (ro_workers s)
     \<and> (\<forall>kind. card (in_flight cts kind s) \<le> maxParallel)"

lemma finite_in_flight [simp]: "finite (in_flight cts kind s)"
  by (simp add: in_flight_def)

lemma in_flight_acquire:
  "i < length (ro_workers s) \<Longrightarrow> in_flight cts kind (s\<lparr>ro_workers := (ro_workers s)[i := InFlight]\<rparr>) =
     (if hasStats (ct_State (cts ! i)) = kind then insert i (in_flight cts kind s) else in_flight cts kind s - {i})"
  by (auto simp: in_flight_def nth_list_update)

lemma in_flight_finish:
  "in_flight cts kind (s\<lparr>ro_workers := (ro_workers s)[i := Finished r]\<rparr>) \<subseteq> in_flight cts kind s"
  by (cases "i < length (ro_workers s)") (auto simp: in_flight_def nth_list_update split: if_splits)

lemma round_inv_init [inv_intros]: "round_inv e ctx_err cts (round_init cts)"
proof -
  have "in_flight cts kind (round_init cts) = {}" for kind by (auto simp: in_flight_def round_init_def)
  then show ?thesis by (simp add: round_inv_def round_init_def worker_ok_def list_all2_conv_all_nth)
qed

lemma list_all2_update:
  "list_all2 P xs ys \<Longrightarrow> (i < length ys \<Longrightarrow> P (xs ! i) y) \<Longrightarrow> list_all2 P xs (ys[i := y])"
  by (cases "i < length ys") (auto simp: list_all2_conv_all_nth nth_list_update)

lemma round_inv_done:
  assumes "round_inv e ctx_err cts s" "i < length (ro_workers s)" "worker_ok e ctx_err (cts ! i) (Finished r)"
  shows "round_inv e ctx_err cts (s\<lparr>ro_workers := (ro_workers s)[i := Finished r]\<rparr>)"
proof -
  have "card (in_flight cts kind (s\<lparr>ro_workers := (ro_workers s)[i := Finished r]\<rparr>)) \<le> maxParallel" for kind
    using assms(1) card_mono [OF finite_in_flight in_flight_finish] unfolding round_inv_def by (meson order_trans)
  then show ?thesis using assms by (simp add: round_inv_def list_all2_update)
qed

lemma round_inv_worker [inv_intros]:
  assumes "worker_step e ctx_err cts s s'" "round_inv e ctx_err cts s"
  shows "round_inv e ctx_err cts s'"
  using assms(1)
proof cases
  case (acquire i)
  have "card (in_flight cts kind s') \<le> maxParallel" for kind
  proof (cases "hasStats (ct_State (cts ! i)) = kind")
    case True
    then show ?thesis using acquire by (auto simp: in_flight_acquire card_insert_if)
  next
    case False
    then show ?thesis using acquire assms(2) card_Diff1_le [of "in_flight cts kind s" i]
      by (auto simp: in_flight_acquire round_inv_def intro: order_trans)
  qed
  then show ?thesis using acquire assms(2) by (auto simp: round_inv_def worker_ok_def intro!: list_all2_update)
next
  case (expire i)
  then show ?thesis using round_inv_done [OF assms(2)] by (simp add: worker_ok_def)
next
  case (finish i)
  then show ?thesis using round_inv_done [OF assms(2)] by (simp add: worker_ok_def)
qed

lemma round_inv_step [inv_intros]:
  "round_step e ctx_err cts s s' \<Longrightarrow> round_inv e ctx_err cts s \<Longrightarrow> round_inv e ctx_err cts s'"
  by (elim round_stepE) (auto intro: round_inv_worker, simp add: round_inv_def in_flight_def)

lemma round_inv_reachable:
  "(round_step e ctx_err cts)\<^sup>*\<^sup>* (round_init cts) s \<Longrightarrow> round_inv e ctx_err cts s"
  by (induction rule: rtranclp_induct) (auto intro: inv_intros)

section \<open>The round ends\<close>

lemma worker_step_work:
  assumes "worker_step e ctx_err cts s s'"
  shows "round_work s' < round_work s"
proof -
  have less: "sum_list (map worker_work (ws[i := w])) < sum_list (map worker_work ws)"
    if "i < length ws" "worker_work w < worker_work (ws ! i)" for i w and ws :: "worker list"
    using that
  proof (induction ws arbitrary: i)
    case (Cons v ws)
    then show ?case by (cases i) auto
  qed simp
  show ?thesis using assms by cases (auto simp: round_work_def intro!: less)
qed

text \<open>While a worker is left, some worker can take a step: nothing waits for ever for a slot.\<close>

lemma round_not_stuck:
  assumes "round_inv e ctx_err cts s" "\<not> all_finished s"
  shows "\<exists>s'. worker_step e ctx_err cts s s'"
proof (cases "\<exists>i < length (ro_workers s). ro_workers s ! i = InFlight")
  case True
  then show ?thesis using finish by blast
next
  case False
  then have none: "in_flight cts kind s = {}" for kind by (auto simp: in_flight_def)
  obtain i where i: "i < length (ro_workers s)" "\<nexists>r. ro_workers s ! i = Finished r"
    using assms(2) by (auto simp: all_finished_def list_all_length)
  then have "ro_workers s ! i = Waiting" using False by (cases "ro_workers s ! i") auto
  then have "worker_step e ctx_err cts s (s\<lparr>ro_workers := (ro_workers s)[i := InFlight]\<rparr>)"
    by (rule acquire [OF i(1)]) (simp add: none maxParallel_def)
  then show ?thesis by blast
qed

lemma round_finishes:
  "round_inv e ctx_err cts s \<Longrightarrow> \<exists>s'. (worker_step e ctx_err cts)\<^sup>*\<^sup>* s s' \<and> all_finished s'"
proof (induction "round_work s" arbitrary: s rule: less_induct)
  case less
  show ?case
  proof (cases "all_finished s")
    case False
    then obtain s1 where s1: "worker_step e ctx_err cts s s1" using round_not_stuck less.prems by blast
    then obtain s' where "(worker_step e ctx_err cts)\<^sup>*\<^sup>* s1 s'" "all_finished s'"
      using less.hyps [OF worker_step_work [OF s1] round_inv_worker [OF s1 less.prems]] by blast
    then show ?thesis using s1 converse_rtranclp_into_rtranclp by metis
  qed blast
qed

text \<open>
  C7. However the workers of a round interleave and whenever the round ends, there are never more than
  \<^verbatim>\<open>maxParallel\<close> stats requests and as many details requests in flight; while a worker is left, some worker
  can go on, so no worker waits for a slot for ever; every worker's step brings the end nearer, from at
  most two steps for each container; and from any point the round can be finished by the workers alone.
\<close>

theorem docker_round_bounded_and_ends:
  assumes "(round_step e ctx_err cts)\<^sup>*\<^sup>* (round_init cts) s"
  shows "card (in_flight cts kind s) \<le> maxParallel
     \<and> (\<not> all_finished s \<longrightarrow> (\<exists>s'. worker_step e ctx_err cts s s'))
     \<and> (\<forall>s'. worker_step e ctx_err cts s s' \<longrightarrow> round_work s' < round_work s) \<and> round_work s \<le> 2 * length cts
     \<and> (\<exists>s'. (worker_step e ctx_err cts)\<^sup>*\<^sup>* s s' \<and> all_finished s')"
proof -
  note inv = round_inv_reachable [OF assms]
  have "round_work s \<le> 2 * length cts"
  proof -
    have w: "worker_work w \<le> 2" for w by (cases w) auto
    have "sum_list (map worker_work ws) \<le> 2 * length ws" for ws
    proof (induction ws)
      case (Cons v ws)
      then show ?case using w [of v] by simp
    qed simp
    then show ?thesis using inv by (auto simp: round_work_def round_inv_def dest: list_all2_lengthD)
  qed
  then show ?thesis
    using inv worker_step_work round_not_stuck [OF inv] round_finishes [OF inv] unfolding round_inv_def by blast
qed

fun result_of :: "worker \<Rightarrow> result" where
  "result_of (Finished r) = r"
| "result_of _ = result_zero"

lemma read_result_slot [simp]: "read_result (e\<lparr>dk_slot := slot\<rparr>) ct = read_result e ct"
proof -
  have "dk_codec (e\<lparr>dk_slot := slot\<rparr>) = dk_codec e" "dk_next (e\<lparr>dk_slot := slot\<rparr>) = dk_next e" by simp_all
  then show ?thesis unfolding read_result_def readStats_def readState_def round_get_def by (simp only:)
qed

text \<open>
  C6. The collector's view of a round is right: whatever the interleaving, when all workers are done the
  results they stored are the ones of \<open>round_results\<close>, the sequential reading of the round, for some choice
  of the workers that had not got a slot when the round ended.
\<close>

theorem docker_round_refines_sequential:
  assumes "(round_step e ctx_err cts)\<^sup>*\<^sup>* (round_init cts) s" "all_finished s"
  shows "\<exists>slot. (\<forall>i. slot i \<in> {None, Some ctx_err})
     \<and> map result_of (ro_workers s) = round_results (e\<lparr>dk_slot := slot\<rparr>) cts"
proof -
  let ?ws = "ro_workers s"
  define slot where "slot i = (if ?ws ! i = Finished (read_result e (cts ! i)) then None else Some ctx_err)" for i
  have ok: "list_all2 (worker_ok e ctx_err) cts ?ws"
    using round_inv_reachable [OF assms(1)] by (simp add: round_inv_def)
  have "map result_of ?ws = round_results (e\<lparr>dk_slot := slot\<rparr>) cts"
  proof (rule nth_equalityI)
    show "length (map result_of ?ws) = length (round_results (e\<lparr>dk_slot := slot\<rparr>) cts)"
      using list_all2_lengthD [OF ok] by (simp add: round_results_def)
  next
    fix i
    assume "i < length (map result_of ?ws)"
    then have i: "i < length ?ws" "i < length cts" using list_all2_lengthD [OF ok] by simp_all
    have w: "worker_ok e ctx_err (cts ! i) (?ws ! i)" using list_all2_nthD [OF ok i(2)] .
    obtain r where r: "?ws ! i = Finished r" using assms(2) i(1) by (auto simp: all_finished_def list_all_length)
    show "map result_of ?ws ! i = round_results (e\<lparr>dk_slot := slot\<rparr>) cts ! i"
      using w r i by (auto simp: round_results_def worker_result_def slot_def worker_ok_def)
  qed
  moreover have "\<forall>i. slot i \<in> {None, Some ctx_err}" by (simp add: slot_def)
  ultimately show ?thesis by blast
qed

text \<open>One container whose worker finds the round over before it gets a slot.\<close>

definition late_round :: round_state where
  "late_round = \<lparr>ro_workers = [Finished (result_zero\<lparr>rt_err := Some (NetErr True ''deadline'')\<rparr>)], ro_ended = True\<rparr>"

lemma late_round_reachable:
  "(round_step docker_example (NetErr True ''deadline'') [example_container])\<^sup>*\<^sup>* (round_init [example_container]) late_round"
proof -
  let ?step = "round_step docker_example (NetErr True ''deadline'') [example_container]"
  let ?s1 = "(round_init [example_container])\<lparr>ro_ended := True\<rparr>"
  have one: "?step (round_init [example_container]) ?s1" by (rule end_round)
  have "worker_step docker_example (NetErr True ''deadline'') [example_container] ?s1
      (?s1\<lparr>ro_workers := (ro_workers ?s1)[0 := Finished (result_zero\<lparr>rt_err := Some (NetErr True ''deadline'')\<rparr>)]\<rparr>)"
    by (rule expire) (simp_all add: round_init_def)
  then have two: "?step ?s1 late_round"
    by (intro work) (simp add: round_init_def late_round_def)
  show ?thesis by (rule converse_rtranclp_into_rtranclp, rule one, rule r_into_rtranclp, rule two)
qed

theorem docker_round_bounded_and_ends_witness:
  "card (in_flight [example_container] True late_round) \<le> 8"
  using docker_round_bounded_and_ends [OF late_round_reachable, of True] by (simp add: maxParallel_def)

theorem docker_round_refines_sequential_witness:
  "\<exists>slot. map result_of (ro_workers late_round) = round_results (docker_example\<lparr>dk_slot := slot\<rparr>) [example_container]"
  using docker_round_refines_sequential [OF late_round_reachable] by (auto simp: all_finished_def late_round_def)

end
