(* ===== verification/DockerTimer.thy ===== *)
theory DockerTimer
  imports DockerCollector
begin

text \<open>
  When the loop of \<^verbatim>\<open>Run\<close> in \<^verbatim>\<open>src/docker/collector.go\<close> receives what. The ticker is due at fixed times; the first tick that
  has not been received waits in its channel with the time it was due, and those due after it while nobody
  receives are dropped. The timer of the pre-read is armed once, and again after each tick from the time that
  tick was due. A handler takes as long as it takes; where both channels are ready the choice of the select is an
  input. \<open>sched_run\<close> gives the times and the events of the loop, which \<open>docker_Run\<close> then handles.
\<close>

record sched =
  sd_now :: time
  sd_tick :: time
  sd_pre :: "time option"

record handling =
  hd_took :: duration
  hd_preFirst :: bool
  hd_env :: docker_env

text \<open>The first time after \<open>now\<close> at which the ticker is due.\<close>

definition next_due :: "duration \<Rightarrow> time \<Rightarrow> time \<Rightarrow> time" where
  "next_due interval due now = due + interval * (1 + (now - due) div interval)"

definition sched_init :: "duration \<Rightarrow> time \<Rightarrow> time \<Rightarrow> sched" where
  "sched_init interval created ready =
     \<lparr>sd_now = ready, sd_tick = created + interval,
      sd_pre = (if usesPreRead interval then Some (created + (interval - preReadLead)) else None)\<rparr>"

definition sched_step :: "duration \<Rightarrow> handling \<Rightarrow> sched \<Rightarrow> sched \<times> time \<times> docker_fire" where
  "sched_step interval h s =
     (let now = max (sd_now s) (case sd_pre s of None \<Rightarrow> sd_tick s | Some due \<Rightarrow> min due (sd_tick s));
          tickReady = (sd_tick s \<le> now);
          preReady = (case sd_pre s of None \<Rightarrow> False | Some due \<Rightarrow> due \<le> now)
      in if preReady \<and> (\<not> tickReady \<or> hd_preFirst h)
         then (s\<lparr>sd_now := now + hd_took h, sd_pre := None\<rparr>, now, PreRead (hd_env h))
         else (s\<lparr>sd_now := now + hd_took h, sd_tick := next_due interval (sd_tick s) now,
                 sd_pre := (if usesPreRead interval then Some (sd_tick s + (interval - preReadLead)) else None)\<rparr>,
               now, Tick (hd_env h)))"

fun sched_run :: "duration \<Rightarrow> handling list \<Rightarrow> sched \<Rightarrow> (time \<times> docker_fire) list" where
  "sched_run interval [] s = []"
| "sched_run interval (h # hs) s = (case sched_step interval h s of (s, x) \<Rightarrow> x # sched_run interval hs s)"

definition docker_Run_timed ::
  "'w publish \<Rightarrow> duration option \<Rightarrow> docker_env \<Rightarrow> docker_env \<Rightarrow> time \<Rightarrow> time \<Rightarrow> handling list \<Rightarrow> 'w Docker \<Rightarrow> 'w Docker" where
  "docker_Run_timed pb cancelled prime first created ready hs c =
     docker_Run pb cancelled prime first
       (map (\<lambda>x. Fire (snd x)) (sched_run (dk_interval c) hs (sched_init (dk_interval c) created ready))) c"

fun is_pre :: "docker_fire \<Rightarrow> bool" where
  "is_pre (PreRead _) = True"
| "is_pre (Tick _) = False"

section \<open>However slow the rounds\<close>

text \<open>After a pre-read the timer is not armed, so a tick comes next.\<close>

lemma sched_unarmed: "sd_pre s = None \<Longrightarrow> sched_step interval h s = (s', t, f) \<Longrightarrow> \<not> is_pre f"
  by (auto simp: sched_step_def Let_def)

lemma sched_pre: "sched_step interval h s = (s', t, f) \<Longrightarrow> is_pre f \<Longrightarrow> sd_pre s' = None"
  by (auto simp: sched_step_def Let_def split: if_splits option.splits)

lemma sched_alternates:
  "successively (\<lambda>x y. \<not> (is_pre (snd x) \<and> is_pre (snd y))) (sched_run interval hs s)
     \<and> (sd_pre s = None \<and> hs \<noteq> [] \<longrightarrow> \<not> is_pre (snd (hd (sched_run interval hs s))))"
proof (induction hs arbitrary: s)
  case (Cons h hs)
  obtain s' t f where st: "sched_step interval h s = (s', t, f)" by (metis prod_cases3)
  have "\<not> is_pre (snd (hd (sched_run interval hs s')))" if "is_pre f" "hs \<noteq> []"
    using Cons.IH [of s'] sched_pre [OF st that(1)] that(2) by blast
  then show ?case using Cons.IH [of s'] sched_unarmed [OF _ st] st
    by (cases hs) (auto simp: successively_Cons split: prod.split)
qed simp

text \<open>A short interval has no pre-read.\<close>

lemma sched_short:
  assumes "\<not> usesPreRead interval" "sd_pre s = None"
  shows "list_all (\<lambda>x. \<not> is_pre (snd x)) (sched_run interval hs s)"
  using assms(2)
proof (induction hs arbitrary: s)
  case (Cons h hs)
  obtain s' t f where st: "sched_step interval h s = (s', t, f)" by (metis prod_cases3)
  have "sd_pre s' = None" using st assms(1) Cons.prems by (auto simp: sched_step_def Let_def)
  then show ?case using Cons.IH sched_unarmed [OF Cons.prems st] st by simp
qed simp

section \<open>Rounds that keep up\<close>

text \<open>The handlings of a pre-read and of the tick after it, which both end before the next of them is due.\<close>

definition keeps_up :: "duration \<Rightarrow> handling \<times> handling \<Rightarrow> bool" where
  "keeps_up interval ph = (case ph of (p, h) \<Rightarrow>
     0 \<le> hd_took p \<and> hd_took p < preReadLead \<and> 0 \<le> hd_took h \<and> hd_took h \<le> interval - preReadLead)"

definition in_turn :: "(handling \<times> handling) list \<Rightarrow> handling list" where
  "in_turn phs = concat (map (\<lambda>(p, h). [p, h]) phs)"

definition on_time :: "duration \<Rightarrow> time \<Rightarrow> nat \<times> handling \<times> handling \<Rightarrow> (time \<times> docker_fire) list" where
  "on_time interval created x = (case x of (k, p, h) \<Rightarrow>
     [(created + int k * interval - preReadLead, PreRead (hd_env p)), (created + int k * interval, Tick (hd_env h))])"

lemma sched_on_time:
  assumes "usesPreRead interval"
  shows "list_all (keeps_up interval) phs \<Longrightarrow> sd_tick s = created + int n * interval \<Longrightarrow> sd_pre s = Some (sd_tick s - preReadLead) \<Longrightarrow>
     sd_now s \<le> sd_tick s - preReadLead \<Longrightarrow>
     sched_run interval (in_turn phs) s = concat (map (on_time interval created) (enumerate n phs))"
proof (induction phs arbitrary: n s)
  case (Cons ph phs)
  obtain p h where ph: "ph = (p, h)" by (cases ph)
  have pos: "0 < preReadLead" "preReadLead < interval" using assms by (simp_all add: usesPreRead_def preReadLead_def preReadMinInterval_def)
  have up: "hd_took p < preReadLead" "0 \<le> hd_took p" "hd_took h \<le> interval - preReadLead" using Cons.prems(1) by (simp_all add: ph keeps_up_def)
  let ?t = "sd_tick s"
  let ?mid = "s\<lparr>sd_now := ?t - preReadLead + hd_took p, sd_pre := None\<rparr>"
  have one: "sched_step interval p s = (?mid, ?t - preReadLead, PreRead (hd_env p))"
    using Cons.prems(3,4) pos by (simp add: sched_step_def Let_def)
  let ?after = "?mid\<lparr>sd_now := ?t + hd_took h, sd_tick := ?t + interval, sd_pre := Some (?t + (interval - preReadLead))\<rparr>"
  have two: "sched_step interval h ?mid = (?after, ?t, Tick (hd_env h))"
    using up assms pos by (simp add: sched_step_def Let_def next_due_def)
  have "sched_run interval (in_turn phs) ?after = concat (map (on_time interval created) (enumerate (Suc n) phs))"
    using Cons.prems(1,2) up(3) by (intro Cons.IH) (simp_all add: algebra_simps)
  then show ?case using one two Cons.prems(2) by (simp add: ph in_turn_def on_time_def [of interval created "(n, p, h)"])
qed (simp add: in_turn_def)

lemma fired_Fire: "fired (map (\<lambda>x. Fire (snd x)) xs) = map snd xs"
  by (induction xs) simp_all

lemma on_time_events:
  "list_all (\<lambda>(p, h). \<not> dk_shutdown (hd_env h)) phs \<Longrightarrow>
     length (filter fires_event (map snd (concat (map (on_time interval created) (enumerate n phs))))) = length phs"
  by (induction phs arbitrary: n) (auto simp: on_time_def)

text \<open>
  C20. The pre-read comes one lead before each tick and never gets in its way. As long as a round ends before the
  next pre-read is due and a pre-read before its tick, they alternate for ever, the \<open>k\<close>-th tick at \<open>k\<close> intervals after the
  start and its pre-read exactly one second earlier, however long each of them took: nothing drifts, and the
  run publishes one event at startup and one per interval. And however slow the rounds are, whatever the
  select chooses, there is a tick between any two pre-reads, so a collector that falls behind does not spend its
  time on pre-reads; on a short interval there are none.
\<close>

theorem docker_preread_leads_each_tick:
  assumes "interval = dk_interval c" "usesPreRead interval" "ready \<le> created + interval - preReadLead" "list_all (keeps_up interval) phs"
    and "\<not> dk_shutdown first" "list_all (\<lambda>(p, h). \<not> dk_shutdown (hd_env h)) phs"
  shows "sched_run interval (in_turn phs) (sched_init interval created ready) = concat (map (on_time interval created) (enumerate 1 phs))
     \<and> (\<exists>ps. wire (dk_world (docker_Run_timed PublishBatch None prime first created ready (in_turn phs) c)) = wire (dk_world c) @ ps
          \<and> length ps = Suc (length phs))
     \<and> successively (\<lambda>x y. \<not> (is_pre (snd x) \<and> is_pre (snd y))) (sched_run interval hs (sched_init interval created late))
     \<and> (\<not> usesPreRead short \<longrightarrow> list_all (\<lambda>x. \<not> is_pre (snd x)) (sched_run short hs (sched_init short created late)))"
proof (intro conjI impI)
  show run: "sched_run interval (in_turn phs) (sched_init interval created ready) = concat (map (on_time interval created) (enumerate 1 phs))"
    using assms by (intro sched_on_time) (simp_all add: sched_init_def)
  let ?es = "map (\<lambda>x. Fire (snd x)) (sched_run interval (in_turn phs) (sched_init interval created ready))"
  have "length (filter fires_event (run_fired None interval (Tick first) ?es)) = Suc (length phs)"
    using assms(5) on_time_events [OF assms(6)] unfolding run by (simp add: run_fired_def WaitForStartup_def fired_Fire)
  then show "\<exists>ps. wire (dk_world (docker_Run_timed PublishBatch None prime first created ready (in_turn phs) c)) = wire (dk_world c) @ ps
      \<and> length ps = Suc (length phs)"
    using docker_ticks.run_published [of None interval "Tick first" ?es "primeCPU prime c"] assms(1)
    by (auto simp: docker_Run_timed_def docker_Run_def)
  show "successively (\<lambda>x y. \<not> (is_pre (snd x) \<and> is_pre (snd y))) (sched_run interval hs (sched_init interval created late))"
    using sched_alternates by blast
  show "list_all (\<lambda>x. \<not> is_pre (snd x)) (sched_run short hs (sched_init short created late))" if "\<not> usesPreRead short"
    using that by (intro sched_short) (simp_all add: sched_init_def)
qed

theorem docker_preread_leads_each_tick_witness:
  "let p = \<lparr>hd_took = 200000000, hd_preFirst = False, hd_env = docker_example\<rparr>; h = \<lparr>hd_took = 3 * second, hd_preFirst = False, hd_env = docker_example\<rparr>
   in map fst (sched_run (5 * second) (in_turn [(p, h), (p, h)]) (sched_init (5 * second) 0 (2 * second)))
      = [4 * second, 5 * second, 9 * second, 10 * second]"
proof -
  let ?p = "\<lparr>hd_took = 200000000, hd_preFirst = False, hd_env = docker_example\<rparr>" and ?h = "\<lparr>hd_took = 3 * second, hd_preFirst = False, hd_env = docker_example\<rparr>"
  let ?c = "docker_New ''d'' ''srv'' (5 * second) (redis_New (\<lambda>_. Inr 1) (\<lambda>_. 0))"
  have c: "5 * second = dk_interval ?c" by (simp add: docker_New_def)
  have u: "usesPreRead (5 * second)" "2 * second \<le> 0 + 5 * second - preReadLead" by (simp_all add: usesPreRead_def preReadMinInterval_def preReadLead_def)
  have k: "list_all (keeps_up (5 * second)) [(?p, ?h), (?p, ?h)]" by (simp add: keeps_up_def preReadLead_def)
  have d: "\<not> dk_shutdown docker_example" by (simp add: docker_example_def)
  then have ds: "list_all (\<lambda>(p, h). \<not> dk_shutdown (hd_env h)) [(?p, ?h), (?p, ?h)]" by simp
  from docker_preread_leads_each_tick [OF c u k d ds, of docker_example "[]"]
  have "sched_run (5 * second) (in_turn [(?p, ?h), (?p, ?h)]) (sched_init (5 * second) 0 (2 * second))
      = concat (map (on_time (5 * second) 0) (enumerate 1 [(?p, ?h), (?p, ?h)]))" by (rule conjunct1)
  then show ?thesis by (simp add: Let_def on_time_def preReadLead_def)
qed

end
