(* ===== verification/Spec2Isabelle.thy ===== *)
theory Spec2Isabelle
  imports System PgParts RedisClient TailerHistory DockerRound DockerTimer
begin

text \<open>
  \<^bold>\<open>The agent.\<close> log-tailer-go runs on a server, watches it, and publishes what it sees as JSON events on Redis
  channels. \<^verbatim>\<open>src/main.go\<close> loads the configuration, connects to Redis and starts one supervised goroutine for
  each enabled component: a tailer for each log file, the resources collector (CPU, memory, network, load,
  uptime), the storage collector (disks and mounts), the docker collector, the database collector with its
  Postgres engine, and the heartbeat. The components share nothing but the Redis publisher; each is
  restarted when it panics, and all stop when the process is told to.

  \<^bold>\<open>How it is modelled.\<close> Every definition follows one function, method, type or constant of the source and keeps
  its name, with the package in front where two packages use the same one. A struct is a record and its methods
  are functions on it; a Go error is the left side of a sum; a nil pointer is \<open>None\<close>; a map is a partial
  function. What a component asks of the outside (a system call, the clock, a timer, Redis, Docker, Postgres)
  is an input of the step that asks, so a theorem about all inputs holds whatever the outside does and in
  whatever order it answers. A \<^verbatim>\<open>Run\<close> loop is a fold over the events that wake it up.

  \<^bold>\<open>Theories.\<close>

  \<^item> \<open>Prelude\<close>, \<open>GoText\<close>, \<open>GoNumber\<close>, \<open>GoTime\<close>, \<open>GoDate\<close>, \<open>GoPath\<close>, \<open>Float64\<close>: the machine types and the parts of Go's
    standard library the program uses: byte strings, \<^verbatim>\<open>strconv\<close>, \<^verbatim>\<open>time.ParseDuration\<close>, RFC 3339, \<^verbatim>\<open>filepath\<close>, and
    \<open>float64\<close> as rational numbers rounded after each operation, ties to even; a quotient by zero is \<open>undefined\<close>, so the theorems on
    percentages and rates also show that no divisor is zero. \<open>GoJson\<close>, \<open>GoDecode\<close>: the reading side of
    \<^verbatim>\<open>encoding/json\<close>, a scanner of JSON texts and the decoders into structs, slices, maps, pointers and times; every
    value is read back from its text in any layout (\<open>json_parse_text\<close>). \<open>GoQuote\<close>, \<open>GoFloat\<close>, \<open>GoMarshal\<close>: the writing side,
    strings with their escapes, floats as their shortest decimal, and the bytes of \<^verbatim>\<open>json.Marshal\<close>, each with the proof
    that reading gives back what was written (\<open>unquote_quote_json\<close>, \<open>ParseFloat_float_text\<close>, \<open>Marshal_parse\<close>).
  \<^item> \<open>Interfaces\<close>: the locales \<open>publisher\<close> (what a component may rely on of \<^verbatim>\<open>PublishBatch\<close>), \<open>failure_log\<close> (a failure is
    logged when it starts and when it clears) and \<open>ticking\<close> (one event per tick through the select loop that
    every \<^verbatim>\<open>Run\<close> ends in). They are interpreted on the Redis publisher, on the maps and flags of the storage,
    docker and Postgres collectors, and on the ticks of all four collectors.
  \<^item> \<open>Events\<close>, \<open>PgEvents\<close>: \<^verbatim>\<open>src/model/event.go\<close>, the events and their JSON form, \<^verbatim>\<open>omitempty\<close> included.
  \<^item> \<open>RedisPublisher\<close>: \<^verbatim>\<open>src/redis/publisher.go\<close>: batches, what is counted as accepted, and the throttled log.
    \<open>PublisherConc\<close>: its calls from several goroutines, interleaved as a step relation.
  \<^item> \<open>Tailer\<close>: \<^verbatim>\<open>src/logs/tailer.go\<close>, the whole of it: choosing and opening a file, rotation, truncation, wildcard
    paths, reading in bounded rounds, cutting lines, publishing batches. \<open>TailerHistory\<close>: its specification over the whole life
    of a log, a list of the periods in which a file was open, and the proof that every run refines it.
  \<^item> \<open>Procfs\<close>, \<open>Cpu\<close>, \<open>Memory\<close>, \<open>Network\<close>, \<open>Resources\<close>: \<^verbatim>\<open>src/resources\<close>, the parsers, the calculations and the collector.
  \<^item> \<open>Disk\<close>, \<open>Mounts\<close>, \<open>Storage\<close>: \<^verbatim>\<open>src/storage\<close>, likewise; a \<^verbatim>\<open>statfs\<close> goroutine left behind by a dead mount is an
    element of the collector's set of running calls.
  \<^item> \<open>DockerClient\<close>: \<^verbatim>\<open>src/docker/client\<close>, the allow-list guard with the URL handling and the regular expressions it
    rests on, and the paths of the four reads. \<open>DockerMetrics\<close>: \<^verbatim>\<open>src/docker/{containers,stats,state,cgroup}\<close>.
    \<open>DockerCollector\<close>: \<^verbatim>\<open>src/docker/collector.go\<close>, rounds, pre-reads and the loop. \<open>DockerRound\<close>: the goroutines of a
    round as a step relation, with their slots and the round's deadline. \<open>DockerTimer\<close>: when the loop's ticker and its pre-read
    timer fire, for rounds of any length.
  \<^item> \<open>PgMetrics\<close>, \<open>PgQueries\<close>, \<open>PgEngine\<close>: \<^verbatim>\<open>src/db/postgres\<close>: errors and counters, the SQL, and the engine, which records
    every call it makes to the driver. \<open>PgParts\<close>: what each part of its event is, from the driver's answers alone. \<open>DbCollector\<close>: \<^verbatim>\<open>src/db/collector.go\<close>, over the locale \<open>engine\<close> (the Go interface
    \<^verbatim>\<open>Engine\<close>), interpreted on the Postgres engine.
  \<^item> \<open>Config\<close>, \<open>Agent\<close>: \<^verbatim>\<open>src/config\<close>, \<^verbatim>\<open>src/heartbeat\<close> and \<^verbatim>\<open>src/main.go\<close>: path, decoding, defaults and validation of
    the configuration, which components it starts and with what, the supervisor, and \<^verbatim>\<open>main\<close> from its arguments
    through the Redis retries to shutdown. \<open>RedisClient\<close>: the calls that open, check and close the Redis client on that way,
    as a protocol of one client at a time (\<open>redis_one_client\<close>).
  \<^item> \<open>EventTypes\<close>, \<open>DecodeBounds\<close>, \<open>Payloads\<close>, \<open>PgTypes\<close>, \<open>PgPayloads\<close>: every payload a component publishes is a tree of the Go types
    of its struct, floats that are \<open>float64\<close> values and integers of 64 bits, so its bytes can be read; the locale \<open>typed_ticks\<close>
    is interpreted on all collectors and the heartbeat. \<open>Subscriber\<close>: the log events as a subscriber decodes them. \<open>System\<close>: the
    components of a configuration together on one publisher, started, woken and ended in any order, over the
    locale \<open>part\<close>, which is interpreted on each of them.

  \<^bold>\<open>What is shown.\<close>

  \<^item> A subscriber that decodes the JSON bytes of a tailer's channel gets exactly the complete lines appended after
    the tailer started, each once and in order, however the bytes are split into reads. Through rotations, truncations, removals,
    read errors and switches in any order it has sent exactly the complete lines of what it read of each file, every
    file but the first from its first byte, and never a line put together from two files. It holds at most 1 MB, drains a
    file before it leaves it for a newer match and never goes back to one; what was appended to a file after the last read
    before it was found replaced is not read (\<open>replaced_file_not_drained\<close>).
  \<^item> Whatever the components do in whatever order, everything on the wire is on the channel of an enabled
    component, with the configured server id, and parses as JSON from which every value is read back.
  \<^item> The agent only watches: no request but four reads can reach Docker, and no answer to anything else could
    matter; Postgres is only ever asked catalog queries in read-only sessions, one session at a time, each of
    them closed.
  \<^item> Every collector publishes one event per tick, and its figures are right: sums without wrap-around,
    percentages within their bounds, rates and activities over the last good sample, each part that cannot be
    read left out and reported by itself.
  \<^item> A dead mount never holds more than one call, a docker round never has more than eight requests of a kind
    in flight and always ends, with the results of a sequential round; a pre-read comes one second before each tick
    and never twice between ticks; failures are logged on their edges; the Redis log stays throttled, and its
    counts exact, under concurrent calls.
  \<^item> Parsers give back what the kernel wrote, in whatever layout; the mount table with its escapes.
  \<^item> Validation accepts exactly the usable configurations, what is accepted starts exactly what it enables,
    the supervisor restarts each component, and after the signal the process ends. A configuration that does
    not mention the heartbeat gets it.

  \<^bold>\<open>Bounds and termination.\<close> No definition uses fuel. Loops over data are structural or have a measure
  (\<open>flush_loop\<close>, the text and number readers); the drain loop of the tailer and the \<^verbatim>\<open>Run\<close> loops recurse over the
  list of inputs they consume; the retries of \<open>connect_from\<close> count down from \<^verbatim>\<open>connectAttempts\<close>. That a docker round
  ends is a theorem about its step relation. Integers of the kernel's counters and of Docker's are 64-bit words;
  those of Postgres are integers with the wrap-around of \<^verbatim>\<open>int64\<close> written out; times and durations are unbounded,
  with Go's saturation where two times are subtracted.

  \<^bold>\<open>Parameters.\<close> The Redis client, the Postgres driver and server, the Docker daemon and the kernel are inputs.
  So is the YAML decoder, which is third-party code. The wording of the standard library's own errors is the
  record \<open>codec\<close>. Nothing is assumed of any of them, except that
  what they hand over has the Go type it is read into (\<open>wake_fits\<close>).

  \<^bold>\<open>Not modelled.\<close> A panic in the middle of an iteration: in \<open>System\<close> components end between iterations. A slice that \<^verbatim>\<open>json\<close>
  decodes more than twice into the same field, where Go may show elements of an earlier decoding. Dialling the Docker socket. A local disk on which
  \<^verbatim>\<open>statfs\<close> never returns: the server total reads disks without a timeout, and here each read answers. Files that only read one file of the kernel
  (\<^verbatim>\<open>read.go\<close>): what they read is an input. Of the log output, the lines that a property is about are kept, not
  their wording.
\<close>

end
